(* ===== verification/Xv6_Prelude.thy ===== *)
theory Xv6_Prelude
  imports Main "HOL-Library.Word"
begin

text \<open>
  Shared vocabulary of the development: the machine integers of
  \<^verbatim>\<open>kernel/types.h\<close>, the outcome of a kernel routine (a value, or the way it stops),
  byte-addressed memory with its 64-bit loads and stores, and the scan over a fixed-size table
  (\<^verbatim>\<open>for(i = 0; i < N; i++) if(...) return i;\<close>) that almost every kernel table uses.
\<close>

unbundle bit_operations_syntax

section \<open>Machine integers\<close>

type_synonym u8 = "8 word"
type_synonym u16 = "16 word"
type_synonym u32 = "32 word"
type_synonym u64 = "64 word"

lemma unat_u64_less: "unat (a :: u64) < 18446744073709551616"
  using unsigned_less[of a, where ?'a = nat] by simp

lemma unat_u32_less: "unat (a :: u32) < 4294967296"
  using unsigned_less[of a, where ?'a = nat] by simp

lemma unat_u8_less: "unat (a :: u8) < 256"
  using unsigned_less[of a, where ?'a = nat] by simp

lemma u64_eqI: "unat a = unat b \<Longrightarrow> a = (b :: u64)"
  by (simp add: word_unat_eq_iff)

named_theorems addr_simps "address arithmetic that stays inside one object"
named_theorems mem_simps "what a memory update changes and what it leaves alone"
named_theorems res_simps "sequencing of kernel routines"
named_theorems bit_facts "bit patterns of the page-table entry layout"

section \<open>Outcomes\<close>

text \<open>
  \<^verbatim>\<open>panic(s)\<close> prints and spins for ever, so nothing after it happens. A routine
  that reaches \<^verbatim>\<open>sleep(chan, lk)\<close> with nobody else modelled to wake it stops there too;
  the channel is recorded by name. A recursion whose depth the code does not bound carries a bound in
  the model and reports when that is used up. A run also stops where the code would access an array
  beyond its end or an object that has been freed, whose effect the language leaves undefined.
\<close>

datatype stop = Panic string | Sleeps string | OutOfFuel | Overrun

type_synonym 'a res = "stop + 'a"

definition andthen :: "'a res \<Rightarrow> ('a \<Rightarrow> 'b res) \<Rightarrow> 'b res" where
  "andthen r f = (case r of Inl e \<Rightarrow> Inl e | Inr x \<Rightarrow> f x)"

lemma andthen_simps [simp, res_simps]:
  "andthen (Inl e) f = Inl e"
  "andthen (Inr x) f = f x"
  by (simp_all add: andthen_def)

lemma andthen_Inr_iff [res_simps]:
  "andthen r f = Inr y \<longleftrightarrow> (\<exists>x. r = Inr x \<and> f x = Inr y)"
  by (cases r) auto

lemma andthen_Inl_iff [res_simps]:
  "andthen r f = Inl e \<longleftrightarrow> r = Inl e \<or> (\<exists>x. r = Inr x \<and> f x = Inl e)"
  by (cases r) auto

lemma andthen_InrE:
  assumes "andthen r f = Inr y"
  obtains x where "r = Inr x" and "f x = Inr y"
  using assms by (auto simp: andthen_Inr_iff)

lemma andthen_cong [fundef_cong]:
  "r = r' \<Longrightarrow> (\<And>x. r' = Inr x \<Longrightarrow> f x = g x) \<Longrightarrow> andthen r f = andthen r' g"
  by (cases r) auto

text \<open>A \<^verbatim>\<open>for\<close> loop whose body may stop.\<close>

fun for_each :: "('i \<Rightarrow> 's \<Rightarrow> 's res) \<Rightarrow> 'i list \<Rightarrow> 's \<Rightarrow> 's res" where
  "for_each f [] s = Inr s"
| "for_each f (i # is) s = andthen (f i s) (\<lambda>s'. for_each f is s')"

lemma for_each_append [res_simps]:
  "for_each f (is @ js) s = andthen (for_each f is s) (\<lambda>s'. for_each f js s')"
proof (induction "is" arbitrary: s)
  case Nil
  then show ?case by simp
next
  case (Cons i "is")
  then show ?case by (cases "f i s") simp_all
qed

section \<open>Scans of a fixed table\<close>

text \<open>
  The index of the first entry that satisfies the test, as the \<^verbatim>\<open>for\<close> loop with an
  early exit finds it.
\<close>

fun first_idx :: "('a \<Rightarrow> bool) \<Rightarrow> 'a list \<Rightarrow> nat option" where
  "first_idx P [] = None"
| "first_idx P (x # xs) = (if P x then Some 0 else map_option Suc (first_idx P xs))"

lemma first_idx_None_iff: "first_idx P xs = None \<longleftrightarrow> (\<forall>x \<in> set xs. \<not> P x)"
  by (induction xs) auto

lemma first_idx_SomeD:
  "first_idx P xs = Some i \<Longrightarrow> i < length xs \<and> P (xs ! i) \<and> (\<forall>j < i. \<not> P (xs ! j))"
proof (induction xs arbitrary: i)
  case Nil
  then show ?case by simp
next
  case (Cons x xs)
  then show ?case
    by (auto split: if_splits simp: less_Suc_eq_0_disj nth_Cons')
qed

lemma first_idx_less [simp]: "first_idx P xs = Some i \<Longrightarrow> i < length xs"
  by (auto dest: first_idx_SomeD)

lemma first_idx_holds: "first_idx P xs = Some i \<Longrightarrow> P (xs ! i)"
  by (auto dest: first_idx_SomeD)

lemma first_idx_SomeI:
  "i < length xs \<Longrightarrow> P (xs ! i) \<Longrightarrow> (\<And>j. j < i \<Longrightarrow> \<not> P (xs ! j)) \<Longrightarrow> first_idx P xs = Some i"
proof (induction xs arbitrary: i)
  case Nil
  then show ?case by simp
next
  case (Cons x xs)
  show ?case
  proof (cases i)
    case 0
    with Cons.prems show ?thesis by simp
  next
    case (Suc k)
    have "\<not> P x" using Cons.prems(3)[of 0] Suc by simp
    moreover have "\<not> P (xs ! j)" if "j < k" for j
      using Cons.prems(3)[of "Suc j"] Suc that by simp
    then have "first_idx P xs = Some k"
      using Cons.prems(1,2) Suc by (intro Cons.IH) simp_all
    ultimately show ?thesis by (simp add: Suc)
  qed
qed

lemma first_idx_exists:
  "i < length xs \<Longrightarrow> P (xs ! i) \<Longrightarrow> \<exists>j. first_idx P xs = Some j \<and> j \<le> i"
proof -
  assume "i < length xs" "P (xs ! i)"
  then have "first_idx P xs \<noteq> None" unfolding first_idx_None_iff by (meson nth_mem)
  then obtain j where j: "first_idx P xs = Some j" by auto
  with \<open>P (xs ! i)\<close> have "\<not> i < j" by (auto dest: first_idx_SomeD)
  with j show ?thesis by auto
qed

text \<open>Counting the entries that satisfy a test.\<close>

definition count_if :: "('a \<Rightarrow> bool) \<Rightarrow> 'a list \<Rightarrow> nat" where
  "count_if P xs = length (filter P xs)"

lemma count_if_le: "count_if P xs \<le> length xs"
  by (simp add: count_if_def)

lemma count_if_full: "count_if P xs = length xs \<longleftrightarrow> (\<forall>x \<in> set xs. P x)"
  unfolding count_if_def by (metis filter_True length_filter_less less_irrefl)

lemma count_if_update:
  "i < length xs \<Longrightarrow>
   count_if P (xs[i := y]) + (if P (xs ! i) then 1 else 0) = count_if P xs + (if P y then 1 else 0)"
proof (induction xs arbitrary: i)
  case Nil
  then show ?case by simp
next
  case (Cons x xs)
  then show ?case
    by (cases i) (auto simp: count_if_def)
qed

end
