(* ===== verification/Xv6_Riscv.thy ===== *)
theory Xv6_Riscv
  imports Xv6_Prelude
begin

text \<open>
  The constants and macros of \<^verbatim>\<open>kernel/riscv.h\<close>, \<^verbatim>\<open>kernel/memlayout.h\<close> and
  \<^verbatim>\<open>kernel/param.h\<close>: page rounding, the layout of a page-table entry (physical page
  number, permission flags, the software "swapped" bit with its swap slot), the three 9-bit
  indices of an Sv39 virtual address, and the fixed addresses of the user address space.
\<close>

section \<open>Parameters (param.h)\<close>

definition NPROC :: nat where "NPROC = 64"
definition NCPU :: nat where "NCPU = 8"
definition NOFILE :: nat where "NOFILE = 16"
definition NFILE :: nat where "NFILE = 100"
definition NINODE :: nat where "NINODE = 50"
definition NDEV :: nat where "NDEV = 10"
definition MAXARG :: nat where "MAXARG = 32"
definition MAXOPBLOCKS :: nat where "MAXOPBLOCKS = 10"
definition LOGBLOCKS :: nat where "LOGBLOCKS = MAXOPBLOCKS * 3"
definition NBUF :: nat where "NBUF = MAXOPBLOCKS * 3"
definition MAXPATH :: nat where "MAXPATH = 128"
definition USERSTACK :: u64 where "USERSTACK = 1"

section \<open>Pages and page-table entries (riscv.h)\<close>

definition PGSIZE :: u64 where "PGSIZE = 4096"

definition PGROUNDUP :: "u64 \<Rightarrow> u64" where
  "PGROUNDUP sz = (sz + PGSIZE - 1) AND NOT (PGSIZE - 1)"

definition PGROUNDDOWN :: "u64 \<Rightarrow> u64" where
  "PGROUNDDOWN a = a AND NOT (PGSIZE - 1)"

definition PTE_V :: u64 where "PTE_V = push_bit 0 1"
definition PTE_R :: u64 where "PTE_R = push_bit 1 1"
definition PTE_W :: u64 where "PTE_W = push_bit 2 1"
definition PTE_X :: u64 where "PTE_X = push_bit 3 1"
definition PTE_U :: u64 where "PTE_U = push_bit 4 1"
definition PTE_SWAPPED :: u64 where "PTE_SWAPPED = push_bit 8 1"

definition PTE_SWAP_SLOT :: "u64 \<Rightarrow> int" where
  "PTE_SWAP_SLOT pte = uint (drop_bit 10 pte AND 0x3FFFF)"

definition PA2PTE :: "u64 \<Rightarrow> u64" where
  "PA2PTE pa = push_bit 10 (drop_bit 12 pa)"

definition PTE2PA :: "u64 \<Rightarrow> u64" where
  "PTE2PA pte = push_bit 12 (drop_bit 10 pte)"

definition PTE_FLAGS :: "u64 \<Rightarrow> u64" where
  "PTE_FLAGS pte = pte AND 0x3FF"

definition PXMASK :: u64 where "PXMASK = 0x1FF"

definition PXSHIFT :: "nat \<Rightarrow> nat" where
  "PXSHIFT level = 12 + 9 * level"

definition PX :: "nat \<Rightarrow> u64 \<Rightarrow> u64" where
  "PX level va = drop_bit (PXSHIFT level) va AND PXMASK"

definition MAXVA :: u64 where
  "MAXVA = push_bit (9 + 9 + 9 + 12 - 1) 1"

definition SATP_SV39 :: u64 where "SATP_SV39 = push_bit 60 8"

definition MAKE_SATP :: "u64 \<Rightarrow> u64" where
  "MAKE_SATP pagetable = SATP_SV39 OR drop_bit 12 pagetable"

section \<open>Memory layout (memlayout.h)\<close>

definition UART0 :: u64 where "UART0 = 0x10000000"
definition VIRTIO0 :: u64 where "VIRTIO0 = 0x10001000"
definition PLIC :: u64 where "PLIC = 0x0c000000"
definition KERNBASE :: u64 where "KERNBASE = 0x80000000"
definition PHYSTOP :: u64 where "PHYSTOP = KERNBASE + 128 * 1024 * 1024"
definition TRAMPOLINE :: u64 where "TRAMPOLINE = MAXVA - PGSIZE"
definition KSTACK :: "u64 \<Rightarrow> u64" where "KSTACK p = TRAMPOLINE - (p + 1) * 2 * PGSIZE"
definition TRAPFRAME :: u64 where "TRAPFRAME = TRAMPOLINE - PGSIZE"

lemmas pte_bit_defs = PTE_V_def PTE_R_def PTE_W_def PTE_X_def PTE_U_def PTE_SWAPPED_def

lemmas layout_defs = MAXVA_def TRAMPOLINE_def TRAPFRAME_def KERNBASE_def PHYSTOP_def PGSIZE_def

section \<open>Facts about page-table entries\<close>

text \<open>Tests of a single flag are tests of a single bit.\<close>

lemma bit_push1: "bit (push_bit k (1 :: u64)) n = (k < 64 \<and> n = k)"
  by (auto simp: push_bit_of_1 bit_exp_iff)

lemma and_push1: "k < 64 \<Longrightarrow> (w AND push_bit k (1 :: u64) = 0) = (\<not> bit w k)"
  by (simp add: push_bit_of_1 and_exp_eq_0_iff_not_bit)

lemma flag_test [bit_facts]:
  "(pte AND PTE_V = 0) = (\<not> bit pte 0)" "(pte AND PTE_R = 0) = (\<not> bit pte 1)"
  "(pte AND PTE_W = 0) = (\<not> bit pte 2)" "(pte AND PTE_X = 0) = (\<not> bit pte 3)"
  "(pte AND PTE_U = 0) = (\<not> bit pte 4)" "(pte AND PTE_SWAPPED = 0) = (\<not> bit pte 8)"
  unfolding pte_bit_defs by (rule and_push1; simp)+

lemma bit_PTE [bit_facts]:
  "bit PTE_V n = (n = 0)" "bit PTE_R n = (n = 1)" "bit PTE_W n = (n = 2)"
  "bit PTE_X n = (n = 3)" "bit PTE_U n = (n = 4)" "bit PTE_SWAPPED n = (n = 8)"
  unfolding pte_bit_defs bit_push1 by simp_all

lemma bit_low_ones: "k \<le> 64 \<Longrightarrow> w = 2 ^ k - 1 \<Longrightarrow> bit (w :: u64) n = (n < k)"
proof -
  assume "k \<le> 64" and "w = 2 ^ k - 1"
  then have "w = mask k" by (simp only: mask_eq_exp_minus_1)
  with \<open>k \<le> 64\<close> show ?thesis by (auto simp only: bit_mask_iff) auto
qed

lemma bit_1023 [bit_facts]: "bit (0x3FF :: u64) n = (n < 10)"
  by (rule bit_low_ones) simp_all

lemma bit_PXMASK [bit_facts]: "bit PXMASK n = (n < 9)"
  unfolding PXMASK_def by (rule bit_low_ones) simp_all

lemma bit_PA2PTE [bit_facts]: "bit (PA2PTE pa) n = (10 \<le> n \<and> n < 64 \<and> bit pa (n + 2))"
  unfolding PA2PTE_def by (auto simp: bit_simps dest: bit_imp_le_length)

lemma bit_PTE2PA [bit_facts]: "bit (PTE2PA pte) n = (12 \<le> n \<and> n < 64 \<and> bit pte (n - 2))"
  unfolding PTE2PA_def by (auto simp: bit_simps)

lemma bit_PTE_FLAGS [bit_facts]: "bit (PTE_FLAGS pte) n = (n < 10 \<and> bit pte n)"
  unfolding PTE_FLAGS_def by (auto simp only: bit_and_iff bit_1023)

text \<open>A page-aligned address has its low twelve bits clear.\<close>

definition page_aligned :: "u64 \<Rightarrow> bool" where
  "page_aligned a = (a mod PGSIZE = 0)"

lemma bit_low_mask [bit_facts]: "bit (PGSIZE - 1) n = (n < 12)"
  unfolding PGSIZE_def by (rule bit_low_ones) simp_all

lemma page_aligned_bits: "page_aligned a = (\<forall>n < 12. \<not> bit a n)"
proof -
  have "a mod PGSIZE = take_bit 12 a"
    by (simp add: PGSIZE_def take_bit_eq_mod)
  then show ?thesis
    by (auto simp: page_aligned_def bit_eq_iff bit_take_bit_iff)
qed

lemma page_aligned_unat: "page_aligned a = (unat a mod 4096 = 0)"
  unfolding page_aligned_def PGSIZE_def
  by (simp add: unat_mod_distrib flip: unat_eq_zero)

lemma aligned_gap: "(a::nat) mod 4096 = 0 \<Longrightarrow> b mod 4096 = 0 \<Longrightarrow> a < b \<Longrightarrow> a + 4096 \<le> b"
  by (auto elim!: dvdE simp: mod_eq_0_iff_dvd)

text \<open>
  The entry built by \<^const>\<open>PA2PTE\<close> with flags below bit 10 gives back both the
  page and the flags.
\<close>

lemma PTE2PA_roundtrip:
  assumes "page_aligned pa" and "\<And>n. bit fl n \<Longrightarrow> n < 10"
  shows "PTE2PA (PA2PTE pa OR fl) = pa" and "PTE_FLAGS (PA2PTE pa OR fl) = fl"
proof -
  show "PTE2PA (PA2PTE pa OR fl) = pa"
  proof (rule bit_word_eqI)
    fix n
    have "\<not> bit fl (n - 2)" if "12 \<le> n"
      using assms(2)[of "n - 2"] that by auto
    moreover have "Suc (Suc (n - 2)) = n" if "12 \<le> n" using that by simp
    ultimately show "bit (PTE2PA (PA2PTE pa OR fl)) n = bit pa n"
      using assms(1)
      by (cases "n < 12") (auto simp: bit_facts bit_or_iff page_aligned_bits dest: bit_imp_le_length)
  qed
  show "PTE_FLAGS (PA2PTE pa OR fl) = fl"
    using assms(2)
    by (intro bit_word_eqI) (auto simp: bit_facts bit_or_iff)
qed


text \<open>An evicted page's entry: the slot in bits 10 and up, the swapped bit, not valid.\<close>

definition swap_pte :: "nat \<Rightarrow> u64" where
  "swap_pte slot = push_bit 10 (word_of_nat slot) OR PTE_SWAPPED"

lemma bit_swap_pte [bit_facts]:
  "bit (swap_pte slot) n = (n = 8 \<or> (10 \<le> n \<and> n < 64 \<and> bit slot (n - 10)))"
  unfolding swap_pte_def
  by (auto simp: bit_or_iff bit_facts bit_push_bit_iff bit_of_nat_iff possible_bit_word)

lemma swap_pte_slot: "slot < 2 ^ 18 \<Longrightarrow> PTE_SWAP_SLOT (swap_pte slot) = int slot"
proof -
  assume "slot < 2 ^ 18"
  then have tb: "take_bit 18 slot = slot" by (simp add: take_bit_nat_eq_self_iff)
  have "drop_bit 10 (swap_pte slot) AND 0x3FFFF = (word_of_nat slot :: u64)"
  proof (rule bit_word_eqI)
    fix n
    have m: "bit (0x3FFFF :: u64) n = (n < 18)" by (rule bit_low_ones) simp_all
    have "bit slot n \<Longrightarrow> n < 18" using tb by (metis bit_take_bit_iff)
    then show "bit (drop_bit 10 (swap_pte slot) AND 0x3FFFF) n = bit (word_of_nat slot :: u64) n"
      unfolding bit_and_iff m
      by (auto simp: bit_drop_bit_eq bit_facts bit_of_nat_iff possible_bit_word)
  qed
  moreover have "uint (word_of_nat slot :: u64) = int slot"
    using \<open>slot < 2 ^ 18\<close> by (simp add: unsigned_of_nat take_bit_nat_eq_self_iff)
  ultimately show ?thesis by (simp add: PTE_SWAP_SLOT_def)
qed

section \<open>Rounding to pages\<close>

lemma PGROUNDDOWN_shift: "PGROUNDDOWN a = push_bit 12 (drop_bit 12 a)"
  unfolding PGROUNDDOWN_def
  by (rule bit_word_eqI)
     (auto simp: bit_and_iff bit_not_iff bit_low_mask bit_push_bit_iff bit_drop_bit_eq)

lemma unat_PGROUNDDOWN: "unat (PGROUNDDOWN a) = unat a div 4096 * 4096"
proof -
  have "unat a div 4096 * 4096 < 2 ^ 64"
    using unat_u64_less[of a] by simp
  then show ?thesis
    by (simp add: PGROUNDDOWN_shift push_bit_eq_mult drop_bit_eq_div unat_word_ariths unat_div_distrib)
qed

lemma PGROUNDDOWN_aligned [simp]: "page_aligned (PGROUNDDOWN a)"
  by (simp add: page_aligned_unat unat_PGROUNDDOWN)

lemma PGROUNDDOWN_le: "PGROUNDDOWN a \<le> a"
  by (simp add: word_le_nat_alt unat_PGROUNDDOWN)

lemma PGROUNDDOWN_id: "page_aligned a \<Longrightarrow> PGROUNDDOWN a = a"
  unfolding page_aligned_unat by (rule u64_eqI) (auto simp: unat_PGROUNDDOWN)

lemma PGROUNDUP_eq: "PGROUNDUP sz = PGROUNDDOWN (sz + 4095)"
  by (simp add: PGROUNDUP_def PGROUNDDOWN_def PGSIZE_def add.commute)

lemma unat_PGROUNDUP:
  "unat sz + 4095 < 2 ^ 64 \<Longrightarrow> unat (PGROUNDUP sz) = (unat sz + 4095) div 4096 * 4096"
  by (simp add: PGROUNDUP_eq unat_PGROUNDDOWN unat_word_ariths)

lemma PGROUNDUP_aligned [simp]: "page_aligned (PGROUNDUP sz)"
  by (simp add: PGROUNDUP_eq)

section \<open>Page-table indices\<close>

lemma bit_PX [bit_facts]: "bit (PX l va) n = (n < 9 \<and> bit va (12 + 9 * l + n))"
  unfolding PX_def PXSHIFT_def by (auto simp: bit_and_iff bit_PXMASK bit_drop_bit_eq)

lemma PX_less: "unat (PX l va) < 512"
proof -
  have "PX l va = take_bit 9 (PX l va)"
    by (rule bit_word_eqI) (auto simp: bit_take_bit_iff bit_PX)
  then have "unat (PX l va) = take_bit 9 (unat (PX l va))"
    by (metis unsigned_take_bit_eq)
  moreover have "take_bit 9 (unat (PX l va)) < 2 ^ 9" by (rule take_bit_nat_less_exp)
  ultimately show ?thesis by simp
qed


text \<open>
  Two page-aligned addresses below \<^const>\<open>MAXVA\<close> with the same three indices are the same:
  the page-table walk is injective on pages.
\<close>

lemma below_MAXVA_bits: "va < MAXVA \<Longrightarrow> bit va n \<Longrightarrow> n < 38"
proof -
  assume "va < MAXVA" and b: "bit va n"
  then have "unat va < 2 ^ 38"
    by (simp add: MAXVA_def word_less_nat_alt)
  then have "take_bit 38 (unat va) = unat va" by (simp add: take_bit_nat_eq_self_iff)
  then have "take_bit 38 va = va"
    by (metis unsigned_take_bit_eq word_unat_eq_iff)
  with b show ?thesis by (metis bit_take_bit_iff)
qed

lemma PX_inj:
  assumes "page_aligned va" "page_aligned vb" "va < MAXVA" "vb < MAXVA"
    and "PX 0 va = PX 0 vb" "PX 1 va = PX 1 vb" "PX 2 va = PX 2 vb"
  shows "va = vb"
proof (rule bit_word_eqI)
  fix n
  have px: "bit va (12 + 9 * l + k) = bit vb (12 + 9 * l + k)" if "l < 3" "k < 9" for l k
  proof -
    have "PX l va = PX l vb" using that assms(5-7) by (auto simp: less_Suc_eq numeral_3_eq_3 numeral_2_eq_2)
    then show ?thesis using bit_PX[of l va k] bit_PX[of l vb k] that by simp
  qed
  show "bit va n = bit vb n"
  proof (cases "n < 12")
    case True
    with assms(1,2) show ?thesis by (simp add: page_aligned_bits)
  next
    case False
    show ?thesis
    proof (cases "n < 39")
      case True
      have "n = 12 + 9 * ((n - 12) div 9) + (n - 12) mod 9" using False by simp
      moreover have "(n - 12) div 9 < 3" using True False by simp
      ultimately show ?thesis by (metis px mod_less_divisor zero_less_numeral)
    next
      case False
      then show ?thesis using below_MAXVA_bits[OF assms(3), of n] below_MAXVA_bits[OF assms(4), of n] by auto
    qed
  qed
qed

end
