(* ===== verification/Xv6_String.thy ===== *)
theory Xv6_String
  imports Xv6_Riscv
begin

text \<open>
  Byte-addressed memory and \<^verbatim>\<open>kernel/string.c\<close>. Memory is a function from addresses
  to bytes; 64-bit words are stored little-endian, as RISC-V does. \<^verbatim>\<open>memset\<close> and
  \<^verbatim>\<open>memmove\<close> are the loops of the source over that memory; the routines that only read
  C strings take the bytes found from the pointer on.
\<close>

type_synonym memory = "u64 \<Rightarrow> u8"

text \<open>The bytes a pointer \<^verbatim>\<open>const char *p\<close> leads to: byte \<open>i\<close> is \<^verbatim>\<open>p[i]\<close>.\<close>

type_synonym cptr = "nat \<Rightarrow> u8"

section \<open>Little-endian words\<close>

fun le_word :: "u8 list \<Rightarrow> 'a::len word" where
  "le_word [] = 0"
| "le_word (b # bs) = ucast b OR push_bit 8 (le_word bs)"

definition le_bytes :: "nat \<Rightarrow> 'a::len word \<Rightarrow> u8 list" where
  "le_bytes k w = map (\<lambda>i. ucast (drop_bit (8 * i) w)) [0..<k]"

lemma length_le_bytes [simp]: "length (le_bytes k w) = k"
  by (simp add: le_bytes_def)

lemma bit_le_word:
  "bit (le_word bs :: 'a::len word) n \<longleftrightarrow>
     n < LENGTH('a) \<and> n < 8 * length bs \<and> bit (bs ! (n div 8)) (n mod 8)"
proof (induction bs arbitrary: n)
  case Nil
  then show ?case by simp
next
  case (Cons b bs)
  show ?case
  proof (cases "n < 8")
    case True
    then show ?thesis
      by (auto simp: bit_or_iff bit_push_bit_iff bit_ucast_iff possible_bit_word)
  next
    case False
    then have "\<not> bit b n" by (auto dest: bit_imp_le_length)
    moreover have "n div 8 = Suc ((n - 8) div 8)" "n mod 8 = (n - 8) mod 8"
      using False by (simp_all add: le_div_geq le_mod_geq)
    ultimately show ?thesis
      using False Cons.IH[of "n - 8"]
      by (auto simp: bit_or_iff bit_push_bit_iff bit_ucast_iff possible_bit_word)
  qed
qed

lemma le_word_le_bytes:
  assumes "LENGTH('a) \<le> 8 * k"
  shows "le_word (le_bytes k (w :: 'a::len word)) = w"
proof (rule bit_word_eqI)
  fix n assume n: "n < LENGTH('a)"
  then have "n div 8 < k" using assms by (simp add: less_mult_imp_div_less mult.commute)
  then have "bit (le_bytes k w ! (n div 8)) (n mod 8) = bit w n"
    by (simp add: le_bytes_def bit_ucast_iff possible_bit_word bit_drop_bit_eq)
  with n assms show "bit (le_word (le_bytes k w) :: 'a word) n = bit w n"
    by (simp add: bit_le_word)
qed

lemma le_bytes_le_word:
  assumes "8 * length bs \<le> LENGTH('a)"
  shows "le_bytes (length bs) (le_word bs :: 'a::len word) = bs"
proof (rule nth_equalityI)
  show "length (le_bytes (length bs) (le_word bs :: 'a word)) = length bs" by simp
next
  fix i assume "i < length (le_bytes (length bs) (le_word bs :: 'a word))"
  then have i: "i < length bs" by simp
  show "le_bytes (length bs) (le_word bs :: 'a word) ! i = bs ! i"
  proof (rule bit_word_eqI)
    fix n assume n: "n < LENGTH(8)"
    have "bit (le_bytes (length bs) (le_word bs :: 'a word) ! i) n =
          bit (le_word bs :: 'a word) (8 * i + n)"
      using i n by (simp add: le_bytes_def bit_ucast_iff possible_bit_word bit_drop_bit_eq)
    also have "\<dots> = bit (bs ! i) n"
      using i n assms by (simp add: bit_le_word)
    finally show "bit (le_bytes (length bs) (le_word bs :: 'a word) ! i) n = bit (bs ! i) n" .
  qed
qed

section \<open>Loads and stores\<close>

definition load_bytes :: "memory \<Rightarrow> u64 \<Rightarrow> nat \<Rightarrow> u8 list" where
  "load_bytes m a n = map (\<lambda>i. m (a + of_nat i)) [0..<n]"

definition store_bytes :: "memory \<Rightarrow> u64 \<Rightarrow> u8 list \<Rightarrow> memory" where
  "store_bytes m a bs = (\<lambda>x. if unat (x - a) < length bs then bs ! unat (x - a) else m x)"

definition load64 :: "memory \<Rightarrow> u64 \<Rightarrow> u64" where
  "load64 m a = le_word (load_bytes m a 8)"

definition store64 :: "memory \<Rightarrow> u64 \<Rightarrow> u64 \<Rightarrow> memory" where
  "store64 m a v = store_bytes m a (le_bytes 8 v)"

lemma length_load_bytes [simp]: "length (load_bytes m a n) = n"
  by (simp add: load_bytes_def)

lemma unat_of_nat_u64: "n < 18446744073709551616 \<Longrightarrow> unat (of_nat n :: u64) = n"
  by (simp add: unsigned_of_nat take_bit_nat_eq_self_iff)

lemma load_store_bytes [mem_simps]:
  "length bs < 18446744073709551616 \<Longrightarrow> load_bytes (store_bytes m a bs) a (length bs) = bs"
  by (rule nth_equalityI) (simp_all add: load_bytes_def store_bytes_def unat_of_nat_u64)

lemma load64_store64 [mem_simps]: "load64 (store64 m a v) a = v"
  using load_store_bytes[of "le_bytes 8 v" m a]
  by (simp add: load64_def store64_def le_word_le_bytes)

text \<open>Eight-byte aligned words do not overlap.\<close>

definition aligned8 :: "u64 \<Rightarrow> bool" where
  "aligned8 a = (unat a mod 8 = 0)"

lemma unat_add_small:
  assumes "unat a mod k = 0" "k dvd 18446744073709551616" "i < k"
  shows "unat (a + of_nat i) = unat (a :: u64) + i"
proof -
  obtain q where q: "unat a = k * q" using assms(1) by auto
  obtain r where r: "(18446744073709551616::nat) = k * r" using assms(2) by (rule dvdE)
  have "q < r" using unat_u64_less[of a] q r by (simp add: mult_less_cancel1)
  then have "k * q + k \<le> k * r" by (metis Suc_leI mult_Suc_right mult_le_mono2 add.commute)
  then have "unat a + i < 18446744073709551616" using assms(3) q r by linarith
  then show ?thesis by (simp add: unat_word_ariths unat_of_nat_u64)
qed

lemma aligned_blocks_disjoint:
  assumes "unat a mod k = 0" "unat b mod k = 0" "k dvd 18446744073709551616" "i < k" "j < k"
    and "a + of_nat i = b + of_nat j"
  shows "a = (b :: u64)"
proof (rule u64_eqI)
  have "unat a + i = unat b + j"
    using assms unat_add_small[of a k i] unat_add_small[of b k j] by simp
  moreover have "(unat a + i) div k = unat a div k" "(unat b + j) div k = unat b div k"
    using assms by (simp_all add: div_add1_eq)
  ultimately have "unat a div k = unat b div k" by simp
  then show "unat a = unat b" using assms(1,2)
    by (metis mult_div_mod_eq)
qed

lemma in_block_iff:
  "k < 18446744073709551616 \<Longrightarrow> unat (x - a) < k \<longleftrightarrow> (\<exists>i < k. x = a + of_nat i)"
  for x a :: u64
proof
  assume "unat (x - a) < k"
  then show "\<exists>i < k. x = a + of_nat i"
    by (intro exI[of _ "unat (x - a)"]) simp
next
  assume "k < 18446744073709551616" "\<exists>i < k. x = a + of_nat i"
  then show "unat (x - a) < k" by (auto simp: unat_of_nat_u64)
qed

lemma load64_store64_other [mem_simps]:
  assumes "aligned8 a" "aligned8 b" "a \<noteq> b"
  shows "load64 (store64 m a v) b = load64 m b"
proof -
  have "\<not> unat (b + of_nat i - a) < 8" if "i < 8" for i
  proof
    assume "unat (b + of_nat i - a) < 8"
    then obtain j where "j < 8" "b + of_nat i = a + of_nat j"
      using in_block_iff[of 8 "b + of_nat i" a] by auto
    with that assms aligned_blocks_disjoint[of b 8 a i j] show False
      by (auto simp: aligned8_def)
  qed
  then have "load_bytes (store_bytes m a (le_bytes 8 v)) b 8 = load_bytes m b 8"
    by (auto simp: load_bytes_def store_bytes_def)
  then show ?thesis by (simp add: load64_def store64_def)
qed


section \<open>memset and memmove\<close>

text \<open>\<^verbatim>\<open>for(i = 0; i < n; i++) cdst[i] = c;\<close>\<close>

definition memset :: "memory \<Rightarrow> u64 \<Rightarrow> u8 \<Rightarrow> nat \<Rightarrow> memory" where
  "memset m dst c n = fold (\<lambda>i m. m(dst + of_nat i := c)) [0..<n] m"

text \<open>
  \<^verbatim>\<open>memmove\<close> copies downwards from the end when the source starts below the
  destination and reaches into it, and upwards otherwise.
\<close>

definition copy_byte :: "u64 \<Rightarrow> u64 \<Rightarrow> nat \<Rightarrow> memory \<Rightarrow> memory" where
  "copy_byte d s i m = m(d + of_nat i := m (s + of_nat i))"

definition memmove :: "memory \<Rightarrow> u64 \<Rightarrow> u64 \<Rightarrow> nat \<Rightarrow> memory" where
  "memmove m d s n =
     (if n = 0 then m
      else if s < d \<and> s + of_nat n > d then fold (copy_byte d s) (rev [0..<n]) m
      else fold (copy_byte d s) [0..<n] m)"

definition memcpy :: "memory \<Rightarrow> u64 \<Rightarrow> u64 \<Rightarrow> nat \<Rightarrow> memory" where
  "memcpy m d s n = memmove m d s n"

lemma unat_diff_Suc:
  "n < 18446744073709551616 \<Longrightarrow> unat (x - a) < Suc n \<longleftrightarrow> unat (x - a) < n \<or> x = a + of_nat n"
  for x a :: u64
proof -
  assume n: "n < 18446744073709551616"
  have "x = a + of_nat n \<longleftrightarrow> x - a = of_nat n" by (auto simp: algebra_simps)
  also have "\<dots> \<longleftrightarrow> unat (x - a) = n"
    using n by (metis unat_of_nat_u64 word_unat_eq_iff)
  finally show ?thesis by auto
qed

lemma memset_eq [mem_simps]:
  "n < 18446744073709551616 \<Longrightarrow> memset m a c n = (\<lambda>x. if unat (x - a) < n then c else m x)"
proof (induction n)
  case 0
  then show ?case by (simp add: memset_def)
next
  case (Suc n)
  then have "memset m a c (Suc n) = (\<lambda>x. if unat (x - a) < n then c else m x)(a + of_nat n := c)"
    by (simp add: memset_def)
  also have "\<dots> = (\<lambda>x. if unat (x - a) < Suc n then c else m x)"
    using unat_diff_Suc[of n] Suc.prems by (auto simp: fun_eq_iff)
  finally show ?case .
qed

text \<open>
  The two copying loops, when neither region wraps around the end of the address space. The upward
  loop is right when no byte still to be read has been overwritten, that is when the destination does
  not start inside the source; the downward loop in the mirrored case.
\<close>

definition no_wrap :: "u64 \<Rightarrow> nat \<Rightarrow> bool" where
  "no_wrap a n = (unat a + n \<le> 18446744073709551616)"

lemma no_wrap_unat: "no_wrap a n \<Longrightarrow> i < n \<Longrightarrow> unat (a + of_nat i) = unat a + i"
  by (simp add: no_wrap_def unat_word_ariths unat_of_nat_u64)

lemma in_range_unat:
  assumes "no_wrap a n"
  shows "unat (x - a) < n \<longleftrightarrow> unat a \<le> unat x \<and> unat x < unat a + n"
proof
  assume "unat (x - a) < n"
  moreover have "x = a + of_nat (unat (x - a))" by simp
  ultimately show "unat a \<le> unat x \<and> unat x < unat a + n"
    using no_wrap_unat[OF assms, of "unat (x - a)"] by simp
next
  assume h: "unat a \<le> unat x \<and> unat x < unat a + n"
  then have "unat (x - a) = unat x - unat a" by (simp add: unat_sub word_le_nat_alt)
  with h show "unat (x - a) < n" by linarith
qed

definition copied :: "memory \<Rightarrow> u64 \<Rightarrow> u64 \<Rightarrow> nat \<Rightarrow> memory" where
  "copied m d s n = (\<lambda>x. if unat (x - d) < n then m (s + (x - d)) else m x)"

lemma copy_up:
  assumes "no_wrap d n" "no_wrap s n" "\<not> (s < d \<and> unat d < unat s + n)" "k \<le> n"
  shows "fold (copy_byte d s) [0..<k] m = copied m d s k"
  using assms(4)
proof (induction k)
  case 0
  then show ?case by (simp add: copied_def)
next
  case (Suc k)
  then have k: "k < n" by simp
  then have kb: "k < 18446744073709551616" using assms(1) by (simp add: no_wrap_def)
  have "\<not> unat (s + of_nat k - d) < k"
  proof
    assume "unat (s + of_nat k - d) < k"
    moreover have "no_wrap d k" using assms(1) k by (simp add: no_wrap_def)
    ultimately have "unat d \<le> unat s + k \<and> unat s + k < unat d + k"
      using in_range_unat[of d k "s + of_nat k"] no_wrap_unat[OF assms(2) k] by simp
    with assms(3) k show False by (auto simp: word_less_nat_alt)
  qed
  then have "copied m d s k (s + of_nat k) = m (s + of_nat k)" by (simp add: copied_def)
  then have "fold (copy_byte d s) [0..<Suc k] m = (copied m d s k)(d + of_nat k := m (s + of_nat k))"
    using Suc by (simp add: copy_byte_def[where i = k])
  also have "\<dots> = copied m d s (Suc k)"
    using unat_diff_Suc[OF kb] by (auto simp: copied_def fun_eq_iff)
  finally show ?case .
qed

definition copied_from :: "memory \<Rightarrow> u64 \<Rightarrow> u64 \<Rightarrow> nat \<Rightarrow> nat \<Rightarrow> memory" where
  "copied_from m d s k n =
     (\<lambda>x. if k \<le> unat (x - d) \<and> unat (x - d) < n then m (s + (x - d)) else m x)"

lemma copy_down:
  assumes "no_wrap d n" "no_wrap s n" "s \<le> d" "k \<le> n"
  shows "fold (copy_byte d s) (rev [k..<n]) m = copied_from m d s k n"
  using assms(4)
proof (induction "n - k" arbitrary: k)
  case 0
  then show ?case by (auto simp: copied_from_def fun_eq_iff)
next
  case (Suc j)
  then have k: "k < n" and ih: "fold (copy_byte d s) (rev [Suc k..<n]) m = copied_from m d s (Suc k) n"
    by simp_all
  have kb: "k < 18446744073709551616" using assms(1) k by (simp add: no_wrap_def)
  have "\<not> (Suc k \<le> unat (s + of_nat k - d) \<and> unat (s + of_nat k - d) < n)"
  proof
    assume h: "Suc k \<le> unat (s + of_nat k - d) \<and> unat (s + of_nat k - d) < n"
    define i where "i = unat (s + of_nat k - d)"
    have "s + of_nat k = d + of_nat i" by (simp add: i_def)
    then have "unat s + k = unat d + i"
      using no_wrap_unat[OF assms(2) k] no_wrap_unat[OF assms(1), of i] h by (simp add: i_def)
    with h assms(3) show False by (simp add: i_def word_le_nat_alt)
  qed
  then have "copied_from m d s (Suc k) n (s + of_nat k) = m (s + of_nat k)"
    unfolding copied_from_def by (rule if_not_P)
  then have "fold (copy_byte d s) (rev [k..<n]) m =
    (copied_from m d s (Suc k) n)(d + of_nat k := m (s + of_nat k))"
    using k ih by (simp add: upt_conv_Cons copy_byte_def)
  also have "\<dots> = copied_from m d s k n"
  proof
    fix x
    have "x = d + of_nat k \<longleftrightarrow> unat (x - d) = k"
      using unat_diff_Suc[OF kb, of x d] by (metis less_antisym lessI not_less_eq add_diff_cancel_left' unat_of_nat_u64[OF kb])
    then show "((copied_from m d s (Suc k) n)(d + of_nat k := m (s + of_nat k))) x =
               copied_from m d s k n x"
      using k by (auto simp: copied_from_def)
  qed
  finally show ?case .
qed

lemma memmove_eq [mem_simps]:
  assumes "no_wrap d n" "no_wrap s n" "unat s + n < 18446744073709551616"
  shows "memmove m d s n = copied m d s n"
proof -
  have sn: "unat (s + of_nat n) = unat s + n"
    using assms(3) by (simp add: unat_word_ariths unat_of_nat_u64)
  show ?thesis
  proof (cases "s < d \<and> s + of_nat n > d")
    case True
    then have "memmove m d s n = copied_from m d s 0 n"
      using copy_down[OF assms(1,2), of 0] by (auto simp: memmove_def copied_from_def)
    then show ?thesis by (simp add: copied_from_def copied_def)
  next
    case False
    then have "\<not> (s < d \<and> unat d < unat s + n)" using sn by (simp add: word_less_nat_alt)
    then show ?thesis
      using copy_up[OF assms(1,2) _ order.refl, of m] False by (auto simp: memmove_def copied_def)
  qed
qed


section \<open>C strings\<close>

text \<open>\<^verbatim>\<open>p++\<close>\<close>

definition nxt :: "cptr \<Rightarrow> cptr" where
  "nxt p = (\<lambda>i. p (Suc i))"

fun memcmp :: "cptr \<Rightarrow> cptr \<Rightarrow> nat \<Rightarrow> int" where
  "memcmp s1 s2 0 = 0"
| "memcmp s1 s2 (Suc n) =
     (if s1 0 \<noteq> s2 0 then uint (s1 0) - uint (s2 0) else memcmp (nxt s1) (nxt s2) n)"

fun strncmp :: "cptr \<Rightarrow> cptr \<Rightarrow> nat \<Rightarrow> int" where
  "strncmp p q 0 = 0"
| "strncmp p q (Suc n) =
     (if p 0 \<noteq> 0 \<and> p 0 = q 0 then strncmp (nxt p) (nxt q) n
      else uint (p 0) - uint (q 0))"

text \<open>The \<open>n\<close> bytes that \<^verbatim>\<open>strncpy(s, t, n)\<close> leaves at \<^verbatim>\<open>s\<close>.\<close>

fun strncpy :: "cptr \<Rightarrow> nat \<Rightarrow> u8 list" where
  "strncpy t 0 = []"
| "strncpy t (Suc n) = (if t 0 \<noteq> 0 then t 0 # strncpy (nxt t) n else 0 # replicate n 0)"

text \<open>
  The bytes that \<^verbatim>\<open>safestrcpy(s, t, n)\<close> stores from \<^verbatim>\<open>s\<close> on. When the copying loop
  ends at the terminator it has already stepped past it, so the final \<^verbatim>\<open>*s = 0\<close> writes a
  second zero.
\<close>

fun safestrcpy_bytes :: "cptr \<Rightarrow> nat \<Rightarrow> u8 list" where
  "safestrcpy_bytes t 0 = []"
| "safestrcpy_bytes t (Suc 0) = [0]"
| "safestrcpy_bytes t (Suc (Suc n)) =
     (if t 0 \<noteq> 0 then t 0 # safestrcpy_bytes (nxt t) (Suc n) else [0, 0])"

definition safestrcpy :: "u8 list \<Rightarrow> cptr \<Rightarrow> nat \<Rightarrow> u8 list" where
  "safestrcpy s t n = (let bs = safestrcpy_bytes t n in bs @ drop (length bs) s)"

partial_function (option) strlen_from :: "cptr \<Rightarrow> nat \<Rightarrow> nat option" where
  "strlen_from s n = (if s n = 0 then Some n else strlen_from s (Suc n))"

definition strlen :: "cptr \<Rightarrow> nat option" where
  "strlen s = strlen_from s 0"

text \<open>The bytes of a buffer as a pointer sees them (zero past the end is never relied on).\<close>

definition cptr_of :: "u8 list \<Rightarrow> cptr" where
  "cptr_of bs i = (if i < length bs then bs ! i else 0)"

text \<open>What a bounded string comparison looks at: the bytes before a NUL, at most \<open>n\<close>.\<close>

definition cstr :: "cptr \<Rightarrow> nat \<Rightarrow> u8 list" where
  "cstr p n = takeWhile (\<lambda>c. c \<noteq> 0) (map p [0..<n])"

lemma cstr_simps [simp]:
  "cstr p 0 = []"
  "cstr p (Suc n) = (if p 0 = 0 then [] else p 0 # cstr (nxt p) n)"
proof -
  show "cstr p 0 = []" by (simp add: cstr_def)
  have "map p [0..<Suc n] = p 0 # map (nxt p) [0..<n]"
    unfolding nxt_def
    by (simp add: upt_conv_Cons map_Suc_upt[symmetric] del: upt_Suc)
  then show "cstr p (Suc n) = (if p 0 = 0 then [] else p 0 # cstr (nxt p) n)"
    by (simp add: cstr_def del: upt_Suc)
qed

lemma strncmp_0_iff: "strncmp p q n = 0 \<longleftrightarrow> cstr p n = cstr q n"
proof (induction p q n rule: strncmp.induct)
  case (1 p q)
  then show ?case by simp
next
  case (2 p q n)
  show ?case
  proof (cases "p 0 \<noteq> 0 \<and> p 0 = q 0")
    case True
    with 2 show ?thesis by simp
  next
    case False
    then show ?thesis by (auto simp: word_uint_eq_iff)
  qed
qed

lemma length_strncpy [simp]: "length (strncpy t n) = n"
  by (induction t n rule: strncpy.induct) auto

lemma cptr_of_Cons: "cptr_of (b # bs) 0 = b" "nxt (cptr_of (b # bs)) = cptr_of bs"
  by (auto simp: cptr_of_def nxt_def fun_eq_iff)

lemma cstr_strncpy: "cstr (cptr_of (strncpy t n)) n = cstr t n"
  by (induction t n rule: strncpy.induct) (auto simp: cptr_of_Cons)

lemma strncmp_strncpy: "strncmp t (cptr_of (strncpy t n)) n = 0"
  by (simp add: strncmp_0_iff cstr_strncpy)

lemma safestrcpy_bytes_spec:
  "0 < n \<Longrightarrow> safestrcpy_bytes t n \<noteq> [] \<and> length (safestrcpy_bytes t n) \<le> n \<and>
   cstr (cptr_of (safestrcpy_bytes t n)) n = cstr t (n - 1) \<and> last (safestrcpy_bytes t n) = 0"
proof (induction t n rule: safestrcpy_bytes.induct)
  case (3 t n)
  then show ?case by (auto simp: cptr_of_Cons)
qed (auto simp: cptr_of_Cons)

lemma strlen_from_Some:
  "s k = 0 \<Longrightarrow> n \<le> k \<Longrightarrow> (\<And>i. n \<le> i \<Longrightarrow> i < k \<Longrightarrow> s i \<noteq> 0) \<Longrightarrow> strlen_from s n = Some k"
proof (induction "k - n" arbitrary: n)
  case 0
  then show ?case by (simp add: strlen_from.simps)
next
  case (Suc d)
  then have "s n \<noteq> 0" by simp
  moreover have "strlen_from s (Suc n) = Some k" using Suc by (intro Suc.hyps) simp_all
  ultimately show ?case by (simp add: strlen_from.simps)
qed

lemma strlen_terminates:
  assumes "s k = 0"
  shows "strlen s = Some (LEAST i. s i = 0)"
  unfolding strlen_def using assms
  by (intro strlen_from_Some) (auto intro: LeastI dest: not_less_Least)

end
