(* ===== verification/Xv6_Kalloc.thy ===== *)
theory Xv6_Kalloc
  imports Xv6_String
begin

text \<open>
  The physical page allocator, \<^verbatim>\<open>kernel/kalloc.c\<close>. Free pages form a linked list through
  their own first eight bytes (\<^verbatim>\<open>struct run\<close>); the state keeps the memory and the head of
  that list. \<open>kend\<close> is the linker symbol \<^verbatim>\<open>end\<close>, the first address after the kernel. The
  abstraction of the allocator is the list of the free pages, and the interface its clients rely on
  is the locale \<open>page_allocator\<close>.

  \<^verbatim>\<open>acquire\<close>/\<^verbatim>\<open>release\<close> pairs that bracket a whole routine are not repeated in
  the sequential models: each such routine is one atomic step, and the lock itself is modelled in
  \<open>Xv6_Spinlock\<close>.
\<close>

section \<open>Pages of memory\<close>

definition in_page :: "u64 \<Rightarrow> u64 \<Rightarrow> bool" where
  "in_page p x = (unat (x - p) < 4096)"

lemma in_page_iff: "in_page p x \<longleftrightarrow> (\<exists>i < 4096. x = p + of_nat i)"
  using in_block_iff[of 4096 x p] by (simp add: in_page_def)

lemma in_page_self [simp]: "k < 4096 \<Longrightarrow> in_page p (p + of_nat k)"
  by (auto simp: in_page_iff)

lemma in_page_disjoint:
  assumes "page_aligned p" "page_aligned q" "in_page p x" "in_page q x"
  shows "p = q"
proof -
  obtain i j where "i < 4096" "j < 4096" "x = p + of_nat i" "x = q + of_nat j"
    using assms(3,4) by (auto simp: in_page_iff)
  with assms(1,2) aligned_blocks_disjoint[of p 4096 q i j] show ?thesis
    by (simp add: page_aligned_unat)
qed

definition same_page :: "memory \<Rightarrow> memory \<Rightarrow> u64 \<Rightarrow> bool" where
  "same_page m m' p = (\<forall>x. in_page p x \<longrightarrow> m x = m' x)"

lemma same_page_refl [simp, intro]: "same_page m m p"
  by (simp add: same_page_def)

lemma same_page_trans: "same_page m m' p \<Longrightarrow> same_page m' m'' p \<Longrightarrow> same_page m m'' p"
  by (simp add: same_page_def)

lemma same_page_sym: "same_page m m' p \<Longrightarrow> same_page m' m p"
  by (simp add: same_page_def)

lemma same_page_load64:
  assumes "same_page m m' p" "k + 8 \<le> 4096"
  shows "load64 m (p + of_nat k) = load64 m' (p + of_nat k)"
proof -
  have "m (p + of_nat k + of_nat i) = m' (p + of_nat k + of_nat i)" if "i < 8" for i
  proof -
    have "p + of_nat k + of_nat i = p + (of_nat (k + i) :: u64)" by simp
    moreover have "k + i < 4096" using assms(2) that by simp
    ultimately have "in_page p (p + of_nat k + of_nat i)" by (metis in_page_self)
    then show ?thesis using assms(1) by (simp add: same_page_def)
  qed
  then have "load_bytes m (p + of_nat k) 8 = load_bytes m' (p + of_nat k) 8"
    by (auto simp: load_bytes_def)
  then show ?thesis by (simp add: load64_def)
qed

lemma same_page_load64_base: "same_page m m' p \<Longrightarrow> load64 m p = load64 m' p"
  using same_page_load64[of m m' p 0] by simp

lemma memset_page_other:
  assumes "page_aligned p" "page_aligned q" "p \<noteq> q"
  shows "same_page m (memset m p c 4096) q"
  using in_page_disjoint[OF assms(1,2)] assms(3)
  by (auto simp: same_page_def memset_eq in_page_def)

lemma store64_page_other:
  assumes "page_aligned p" "page_aligned q" "p \<noteq> q" "k + 8 \<le> 4096"
  shows "same_page m (store64 m (p + of_nat k) v) q"
  unfolding same_page_def
proof (intro allI impI)
  fix x assume q: "in_page q x"
  have "\<not> unat (x - (p + of_nat k)) < 8"
  proof
    assume "unat (x - (p + of_nat k)) < 8"
    then obtain i where "i < 8" "x = p + of_nat k + of_nat i"
      using in_block_iff[of 8 x "p + of_nat k"] by auto
    then have "x = p + of_nat (k + i)" "k + i < 4096" using assms(4) by simp_all
    then have "in_page p x" by (metis in_page_self)
    with q assms(1-3) in_page_disjoint show False by blast
  qed
  then show "m x = store64 m (p + of_nat k) v x"
    by (simp add: store64_def store_bytes_def)
qed

lemma load64_memset0: "k + 8 \<le> 4096 \<Longrightarrow> load64 (memset m p 0 4096) (p + of_nat k) = 0"
proof -
  assume k: "k + 8 \<le> 4096"
  have "memset m p 0 4096 (p + of_nat k + of_nat i) = 0" if "i < 8" for i
  proof -
    have "p + of_nat k + of_nat i = p + (of_nat (k + i) :: u64)" by simp
    moreover have "k + i < 4096" using k that by simp
    ultimately have "in_page p (p + of_nat k + of_nat i)" by (metis in_page_self)
    then show ?thesis by (simp add: memset_eq in_page_def)
  qed
  then have "load_bytes (memset m p 0 4096) (p + of_nat k) 8 = replicate 8 0"
    by (auto simp: load_bytes_def intro!: nth_equalityI)
  then show ?thesis by (simp add: load64_def numeral_eq_Suc)
qed

section \<open>The allocator\<close>

record kmem =
  mem :: memory
  freelist :: u64
  kend :: u64

definition kfree :: "u64 \<Rightarrow> 'a kmem_scheme \<Rightarrow> 'a kmem_scheme res" where
  "kfree pa s =
     (if pa mod PGSIZE \<noteq> 0 \<or> pa < kend s \<or> pa \<ge> PHYSTOP then Inl (Panic ''kfree'')
      else let m = memset (mem s) pa 1 4096
           in Inr (s\<lparr>mem := store64 m pa (freelist s), freelist := pa\<rparr>))"

definition kalloc :: "'a kmem_scheme \<Rightarrow> u64 \<times> 'a kmem_scheme" where
  "kalloc s =
     (let r = freelist s in
      if r \<noteq> 0
      then (r, s\<lparr>freelist := load64 (mem s) r, mem := memset (mem s) r 5 4096\<rparr>)
      else (r, s))"

lemma kfree_below: "kfree p s = Inr s' \<Longrightarrow> p < PHYSTOP"
  by (auto simp: kfree_def split: if_splits)

function freerange_loop :: "u64 \<Rightarrow> u64 \<Rightarrow> 'a kmem_scheme \<Rightarrow> 'a kmem_scheme res" where
  "freerange_loop p pa_end s =
     (if p + PGSIZE \<le> pa_end
      then andthen (kfree p s) (\<lambda>s. freerange_loop (p + PGSIZE) pa_end s)
      else Inr s)"
  by pat_completeness auto
termination
proof (relation "measure (\<lambda>(p, e, s). unat PHYSTOP - unat p)", goal_cases)
  case 1
  show ?case by simp
next
  case (2 p pa_end s s')
  then have "unat p < unat PHYSTOP" using kfree_below by (metis word_less_nat_alt)
  moreover from this have "unat (p + PGSIZE) = unat p + 4096"
    by (simp add: PGSIZE_def layout_defs unat_word_ariths)
  ultimately show ?case by simp
qed

declare freerange_loop.simps [simp del]

definition freerange :: "u64 \<Rightarrow> u64 \<Rightarrow> 'a kmem_scheme \<Rightarrow> 'a kmem_scheme res" where
  "freerange pa_start pa_end s = freerange_loop (PGROUNDUP pa_start) pa_end s"

definition kinit :: "'a kmem_scheme \<Rightarrow> 'a kmem_scheme res" where
  "kinit s = freerange (kend s) PHYSTOP s"


section \<open>The free list\<close>

text \<open>The chain of \<^verbatim>\<open>struct run\<close> pointers that starts at \<open>h\<close>.\<close>

fun run_chain :: "memory \<Rightarrow> u64 \<Rightarrow> u64 list \<Rightarrow> bool" where
  "run_chain m h [] = (h = 0)"
| "run_chain m h (p # ps) = (h = p \<and> p \<noteq> 0 \<and> run_chain m (load64 m p) ps)"

definition valid_page :: "'a kmem_scheme \<Rightarrow> u64 \<Rightarrow> bool" where
  "valid_page s p = (page_aligned p \<and> kend s \<le> p \<and> p < PHYSTOP \<and> p \<noteq> 0)"

definition free_list :: "'a kmem_scheme \<Rightarrow> u64 list \<Rightarrow> bool" where
  "free_list s ps =
     (run_chain (mem s) (freelist s) ps \<and> distinct ps \<and> (\<forall>p \<in> set ps. valid_page s p))"

lemma run_chain_unique: "run_chain m h ps \<Longrightarrow> run_chain m h qs \<Longrightarrow> ps = qs"
proof (induction ps arbitrary: h qs)
  case Nil
  then show ?case by (cases qs) auto
next
  case (Cons p ps)
  then show ?case by (cases qs) auto
qed

lemma free_list_unique: "free_list s ps \<Longrightarrow> free_list s qs \<Longrightarrow> ps = qs"
  by (auto simp: free_list_def intro: run_chain_unique)

lemma run_chain_same:
  "(\<And>p. p \<in> set ps \<Longrightarrow> same_page m m' p) \<Longrightarrow> run_chain m h ps \<Longrightarrow> run_chain m' h ps"
proof (induction ps arbitrary: h)
  case Nil
  then show ?case by simp
next
  case (Cons p ps)
  then have "load64 m p = load64 m' p" by (intro same_page_load64_base) simp
  with Cons show ?case by auto
qed

text \<open>
  Memory changes outside the free pages, and changes of any other part of the state, leave the
  free list alone.
\<close>

lemma free_list_cong:
  assumes "free_list s ps" "freelist s' = freelist s" "kend s' = kend s"
    and "\<And>p. p \<in> set ps \<Longrightarrow> same_page (mem s) (mem s') p"
  shows "free_list s' ps"
  using assms run_chain_same[of ps "mem s" "mem s'"]
  by (auto simp: free_list_def valid_page_def)

lemma kalloc_Nil: "free_list s [] \<Longrightarrow> kalloc s = (0, s)"
  by (simp add: free_list_def kalloc_def)

lemma kalloc_Cons:
  assumes "free_list s (p # ps)"
  shows "kalloc s = (p, s\<lparr>freelist := load64 (mem s) p, mem := memset (mem s) p 5 4096\<rparr>)"
    and "free_list (snd (kalloc s)) ps"
proof -
  show eq: "kalloc s = (p, s\<lparr>freelist := load64 (mem s) p, mem := memset (mem s) p 5 4096\<rparr>)"
    using assms by (simp add: free_list_def kalloc_def Let_def)
  have "same_page (mem s) (memset (mem s) p 5 4096) q" if "q \<in> set ps" for q
    using assms that by (intro memset_page_other) (auto simp: free_list_def valid_page_def)
  moreover have "run_chain (mem s) (load64 (mem s) p) ps"
    using assms by (simp add: free_list_def)
  ultimately have "run_chain (memset (mem s) p 5 4096) (load64 (mem s) p) ps"
    by (rule run_chain_same)
  with assms show "free_list (snd (kalloc s)) ps"
    by (simp add: eq free_list_def valid_page_def)
qed

lemma junk_page_other:
  assumes "page_aligned p" "page_aligned q" "p \<noteq> q"
  shows "same_page m (store64 (memset m p c 4096) p v) q"
proof -
  have "same_page m' (store64 m' p v) q" for m'
    using store64_page_other[OF assms, of 0 m' v] by simp
  then show ?thesis
    by (rule same_page_trans[OF memset_page_other[OF assms]])
qed

lemma kfree_ok:
  "valid_page s p \<Longrightarrow>
   kfree p s = Inr (s\<lparr>mem := store64 (memset (mem s) p 1 4096) p (freelist s), freelist := p\<rparr>)"
  by (simp add: kfree_def valid_page_def page_aligned_def Let_def not_less not_le)

lemma kfree_free_list:
  assumes "free_list s ps" "valid_page s p" "p \<notin> set ps"
  shows "\<exists>s'. kfree p s = Inr s' \<and> free_list s' (p # ps) \<and> kend s' = kend s"
proof -
  define m where "m = store64 (memset (mem s) p 1 4096) p (freelist s)"
  have ok: "kfree p s = Inr (s\<lparr>mem := m, freelist := p\<rparr>)"
    unfolding m_def by (rule kfree_ok[OF assms(2)])
  have "same_page (mem s) m q" if "q \<in> set ps" for q
    using assms that unfolding m_def by (intro junk_page_other) (auto simp: free_list_def valid_page_def)
  then have "run_chain m (freelist s) ps"
    using assms(1) run_chain_same[of ps "mem s" m] by (simp add: free_list_def)
  moreover have "load64 m p = freelist s"
    unfolding m_def by (rule load64_store64)
  ultimately have "free_list (s\<lparr>mem := m, freelist := p\<rparr>) (p # ps)"
    using assms by (simp add: free_list_def valid_page_def)
  with ok show ?thesis by simp
qed

lemma kfree_frame:
  assumes "kfree p s = Inr s'" "page_aligned q" "q \<noteq> p"
  shows "same_page (mem s) (mem s') q"
proof -
  have "page_aligned p" using assms(1) by (auto simp: kfree_def page_aligned_def split: if_splits)
  then show ?thesis
    using assms by (auto simp: kfree_def Let_def split: if_splits intro: junk_page_other)
qed

lemma kalloc_frame:
  assumes "free_list s ps" "kalloc s = (p, s')" "page_aligned q" "q \<noteq> p"
  shows "same_page (mem s) (mem s') q"
proof (cases ps)
  case Nil
  with assms kalloc_Nil[of s] show ?thesis by simp
next
  case (Cons r rs)
  then have "page_aligned r" using assms(1) by (simp add: free_list_def valid_page_def)
  with Cons assms kalloc_Cons(1)[of s r rs] show ?thesis
    by (auto intro: memset_page_other)
qed


lemma kalloc_fields:
  "kend (snd (kalloc s)) = kend s" "kmem.more (snd (kalloc s)) = kmem.more s"
  by (simp_all add: kalloc_def Let_def)

lemma kfree_fields:
  "kfree p s = Inr s' \<Longrightarrow> kend s' = kend s" "kfree p s = Inr s' \<Longrightarrow> kmem.more s' = kmem.more s"
  by (auto simp: kfree_def Let_def split: if_splits)

section \<open>The allocator's interface\<close>

text \<open>
  What every client of the allocator relies on: \<open>pages s ps\<close> says that the free pages are
  \<open>ps\<close>; allocation takes one of them (the null page only when there is none), freeing gives one
  back, and neither touches a page that is not the one it handles.
\<close>

locale page_allocator =
  fixes alloc :: "'s \<Rightarrow> u64 \<times> 's"
    and free :: "u64 \<Rightarrow> 's \<Rightarrow> 's res"
    and pages :: "'s \<Rightarrow> u64 list \<Rightarrow> bool"
    and usable :: "'s \<Rightarrow> u64 \<Rightarrow> bool"
    and rd :: "'s \<Rightarrow> memory"
  assumes alloc_none: "pages s [] \<Longrightarrow> alloc s = (0, s)"
    and alloc_one: "pages s (p # ps) \<Longrightarrow> fst (alloc s) = p \<and> pages (snd (alloc s)) ps"
    and alloc_keeps: "pages s ps \<Longrightarrow> page_aligned q \<Longrightarrow> q \<noteq> fst (alloc s) \<Longrightarrow>
          same_page (rd s) (rd (snd (alloc s))) q"
    and alloc_usable: "usable (snd (alloc s)) q = usable s q"
    and free_one: "pages s ps \<Longrightarrow> usable s p \<Longrightarrow> p \<notin> set ps \<Longrightarrow>
          \<exists>s'. free p s = Inr s' \<and> pages s' (p # ps)"
    and free_keeps: "free p s = Inr s' \<Longrightarrow> page_aligned q \<Longrightarrow> q \<noteq> p \<Longrightarrow>
          same_page (rd s) (rd s') q"
    and pages_distinct: "pages s ps \<Longrightarrow> distinct ps"
    and pages_usable: "pages s ps \<Longrightarrow> p \<in> set ps \<Longrightarrow> usable s p"
    and usable_aligned: "usable s p \<Longrightarrow> page_aligned p \<and> p \<noteq> 0"
begin

lemma alloc_cases:
  assumes "pages s ps"
  obtains (none) "ps = []" "alloc s = (0, s)"
    | (one) p qs s' where "ps = p # qs" "alloc s = (p, s')" "pages s' qs" "p \<noteq> 0" "usable s p"
proof (cases ps)
  case Nil
  with assms show ?thesis using none alloc_none by auto
next
  case (Cons p qs)
  with assms alloc_one[of s p qs] pages_usable[of s ps p] usable_aligned[of s p] show ?thesis
    by (intro one[of p qs "snd (alloc s)"]) (auto simp: prod_eq_iff)
qed

lemma alloc_zero_iff: "pages s ps \<Longrightarrow> fst (alloc s) = 0 \<longleftrightarrow> ps = []"
  by (erule alloc_cases) auto

text \<open>A page handed out is not handed out again while it is in use.\<close>

lemma alloc_alloc_distinct:
  assumes "pages s ps" "alloc s = (p, s1)" "p \<noteq> 0" "alloc s1 = (q, s2)"
  shows "q \<noteq> p"
  using assms(1)
proof (cases rule: alloc_cases)
  case none
  with assms show ?thesis by simp
next
  case (one p' qs s')
  then have qs: "pages s1 qs" "ps = p # qs" using assms by auto
  with pages_distinct[OF assms(1)] have "p \<notin> set qs" by simp
  from qs(1) show ?thesis
    by (cases rule: alloc_cases) (use assms \<open>p \<notin> set qs\<close> in auto)
qed

text \<open>Giving back the page just taken restores the free list.\<close>

lemma alloc_free:
  assumes "pages s ps" "alloc s = (p, s1)" "p \<noteq> 0"
  shows "\<exists>s2. free p s1 = Inr s2 \<and> pages s2 ps"
  using assms(1)
proof (cases rule: alloc_cases)
  case none
  with assms show ?thesis by simp
next
  case (one p' qs s')
  then have qs: "pages s1 qs" "ps = p # qs" "usable s1 p"
    using assms alloc_usable[of s p] by auto
  with pages_distinct[OF assms(1)] have "p \<notin> set qs" by simp
  with free_one[OF qs(1) qs(3)] qs(2) show ?thesis by simp
qed

end

interpretation kal: page_allocator kalloc kfree free_list valid_page mem
proof (unfold_locales, goal_cases)
  case (1 s)
  then show ?case by (rule kalloc_Nil)
next
  case (2 s p ps)
  then show ?case using kalloc_Cons[of s p ps] by simp
next
  case (3 s ps q)
  then show ?case by (intro kalloc_frame[of s ps "fst (kalloc s)"]) simp_all
next
  case (4 s q)
  then show ?case by (simp add: valid_page_def kalloc_fields)
next
  case (5 s ps p)
  then show ?case using kfree_free_list[of s ps p] by blast
next
  case (6 p s s' q)
  then show ?case by (rule kfree_frame)
qed (auto simp: free_list_def valid_page_def)

section \<open>Initialisation\<close>

lemma freerange_loop_pages:
  assumes "free_list s ps" "page_aligned p" "kend s \<le> p" "p \<noteq> 0"
    and "\<forall>q \<in> set ps. q < p" "p \<le> PHYSTOP"
  shows "\<exists>s' qs. freerange_loop p PHYSTOP s = Inr s' \<and> free_list s' qs \<and> kend s' = kend s \<and>
     set qs = set ps \<union> {q. page_aligned q \<and> p \<le> q \<and> q < PHYSTOP}"
  using assms
proof (induction p "PHYSTOP" s arbitrary: ps rule: freerange_loop.induct)
  case (1 p s)
  have phys: "unat PHYSTOP = 0x88000000" by (simp add: layout_defs)
  have upd: "unat (p + PGSIZE) = unat p + 4096"
    using \<open>p \<le> PHYSTOP\<close> phys by (simp add: PGSIZE_def unat_word_ariths word_le_nat_alt)
  show ?case
  proof (cases "p + PGSIZE \<le> PHYSTOP")
    case False
    then have "unat PHYSTOP < unat p + 4096" using upd by (simp add: word_le_nat_alt)
    moreover have "unat p mod 4096 = 0" using "1.prems"(2) by (simp add: page_aligned_unat)
    ultimately have "\<not> unat p < unat PHYSTOP"
      using aligned_gap[of "unat p" "unat PHYSTOP"] phys by auto
    then have "p = PHYSTOP" using \<open>p \<le> PHYSTOP\<close> by (simp add: word_le_nat_alt word_unat_eq_iff)
    then show ?thesis
      using "1.prems"(1) False by (intro exI[of _ s] exI[of _ ps]) (auto simp: freerange_loop.simps)
  next
    case True
    then have lt: "p < PHYSTOP" using upd by (simp add: word_le_nat_alt word_less_nat_alt)
    then have "valid_page s p" using "1.prems" by (simp add: valid_page_def)
    then obtain s1 where s1: "kfree p s = Inr s1" "free_list s1 (p # ps)" "kend s1 = kend s"
      using kfree_free_list[OF "1.prems"(1)] "1.prems"(5) by blast
    have al: "page_aligned (p + PGSIZE)"
      using "1.prems"(2) upd by (simp add: page_aligned_unat)
    have up: "p < p + PGSIZE" using upd by (simp add: word_less_nat_alt)
    obtain s' qs where IH: "freerange_loop (p + PGSIZE) PHYSTOP s1 = Inr s'" "free_list s' qs"
      "kend s' = kend s1" "set qs = set (p # ps) \<union> {q. page_aligned q \<and> p + PGSIZE \<le> q \<and> q < PHYSTOP}"
      using "1.hyps"[OF True s1(1) s1(2) al] "1.prems" s1(3) up True by fastforce
    have "{q. page_aligned q \<and> p \<le> q \<and> q < PHYSTOP} =
          insert p {q. page_aligned q \<and> p + PGSIZE \<le> q \<and> q < PHYSTOP}" (is "?L = ?R")
    proof -
      have "p + PGSIZE \<le> q" if "page_aligned q" "p \<le> q" "q \<noteq> p" for q
      proof -
        have "unat p < unat q" using that by (simp add: word_le_nat_alt word_unat_eq_iff)
        moreover have "unat p mod 4096 = 0" "unat q mod 4096 = 0"
          using that(1) "1.prems"(2) by (simp_all add: page_aligned_unat)
        ultimately have "unat p + 4096 \<le> unat q" by (intro aligned_gap)
        then show ?thesis using upd by (simp add: word_le_nat_alt)
      qed
      then show ?thesis using "1.prems"(2) lt up by force
    qed
    then show ?thesis
      using True s1 IH by (intro exI[of _ s'] exI[of _ qs]) (auto simp: freerange_loop.simps[of p])
  qed
qed

lemma PGROUNDUP_bounds:
  assumes "unat a + 4095 < 2 ^ 64"
  shows "a \<le> PGROUNDUP a" "\<And>q. page_aligned q \<Longrightarrow> a \<le> q \<Longrightarrow> PGROUNDUP a \<le> q"
proof -
  have u: "unat (PGROUNDUP a) = (unat a + 4095) div 4096 * 4096"
    using assms by (simp add: unat_PGROUNDUP)
  show "a \<le> PGROUNDUP a" by (simp add: word_le_nat_alt u)
  fix q assume "page_aligned q" "a \<le> q"
  then have "unat q mod 4096 = 0" "unat a \<le> unat q" by (simp_all add: page_aligned_unat word_le_nat_alt)
  then show "PGROUNDUP a \<le> q" by (auto simp: word_le_nat_alt u elim!: dvdE[OF mod_0_imp_dvd])
qed

text \<open>
  A memory with four free pages at its top, on which the properties of the clients are evaluated.
\<close>

definition four_pages :: kmem where
  "four_pages =
     \<lparr>mem = store64 (store64 (store64 (\<lambda>_. 0) 0x87FFC000 0x87FFD000) 0x87FFD000 0x87FFE000) 0x87FFE000 0x87FFF000,
      freelist = 0x87FFC000, kend = 0x80021000\<rparr>"

lemma load64_zero [simp]: "load64 (\<lambda>_. 0) a = 0"
  by (simp add: load64_def load_bytes_def numeral_eq_Suc)

lemma four_pages_free: "free_list four_pages [0x87FFC000, 0x87FFD000, 0x87FFE000, 0x87FFF000]"
  by (simp add: four_pages_def free_list_def valid_page_def page_aligned_unat layout_defs
      load64_store64 load64_store64_other aligned8_def)

section \<open>Properties\<close>

text \<open>
  C3. After \<^verbatim>\<open>kinit\<close> the free list is a well-formed chain, without repetition, of exactly the
  page-aligned pages between the end of the kernel and \<^const>\<open>PHYSTOP\<close>.
\<close>

theorem kinit_free_list:
  assumes "freelist s = 0" "kend s \<le> PHYSTOP" "kend s \<noteq> 0"
  shows "\<exists>s' qs. kinit s = Inr s' \<and> free_list s' qs \<and>
    set qs = {q. page_aligned q \<and> kend s \<le> q \<and> q < PHYSTOP}"
proof -
  have phys: "unat PHYSTOP = 0x88000000" by (simp add: layout_defs)
  have small: "unat (kend s) + 4095 < 2 ^ 64" using assms(2) phys by (simp add: word_le_nat_alt)
  have "page_aligned PHYSTOP" by (simp add: page_aligned_unat phys)
  note pr = PGROUNDUP_bounds(1)[OF small] PGROUNDUP_bounds(2)[OF small]
  have "free_list s []" using assms(1) by (simp add: free_list_def)
  moreover have "PGROUNDUP (kend s) \<noteq> 0" using pr(1) assms(3) by auto
  ultimately obtain s' qs where "freerange_loop (PGROUNDUP (kend s)) PHYSTOP s = Inr s'" "free_list s' qs"
      "set qs = {q. page_aligned q \<and> PGROUNDUP (kend s) \<le> q \<and> q < PHYSTOP}"
    using freerange_loop_pages[of s "[]" "PGROUNDUP (kend s)"] pr(1) pr(2)[OF \<open>page_aligned PHYSTOP\<close> assms(2)]
    by (auto simp: PGROUNDUP_aligned)
  moreover have "{q. page_aligned q \<and> PGROUNDUP (kend s) \<le> q \<and> q < PHYSTOP} =
      {q. page_aligned q \<and> kend s \<le> q \<and> q < PHYSTOP}"
    using pr(1) pr(2) order_trans by blast
  ultimately show ?thesis unfolding kinit_def freerange_def by blast
qed

theorem kinit_free_list_witness:
  "\<exists>s' qs. kinit \<lparr>mem = \<lambda>_. 0, freelist = 0, kend = 0x80021abc\<rparr> = Inr s' \<and> free_list s' qs \<and>
    set qs = {q. page_aligned q \<and> 0x80021abc \<le> q \<and> q < PHYSTOP}"
  using kinit_free_list[of "\<lparr>mem = \<lambda>_. 0, freelist = 0, kend = 0x80021abc\<rparr>"] by (simp add: layout_defs)

text \<open>
  C4. A page that \<^verbatim>\<open>kalloc\<close> has handed out is not handed out by the next call, and giving it
  back with \<^verbatim>\<open>kfree\<close> never panics and restores the free list.
\<close>

theorem kalloc_exclusive:
  assumes "free_list s ps" "kalloc s = (p, s1)" "p \<noteq> 0"
  shows "fst (kalloc s1) \<noteq> p \<and> (\<exists>s2. kfree p s1 = Inr s2 \<and> free_list s2 ps)"
  using kal.alloc_alloc_distinct[OF assms] kal.alloc_free[OF assms] by (metis prod.collapse)

theorem kalloc_exclusive_witness:
  "fst (kalloc (snd (kalloc four_pages))) \<noteq> 0x87FFC000 \<and>
   (\<exists>s2. kfree 0x87FFC000 (snd (kalloc four_pages)) = Inr s2 \<and>
      free_list s2 [0x87FFC000, 0x87FFD000, 0x87FFE000, 0x87FFF000])"
  using kalloc_exclusive[OF four_pages_free, of "0x87FFC000" "snd (kalloc four_pages)"]
  by (simp add: kalloc_def four_pages_def)

end
