(* ===== verification/Xv6_Pagetable.thy ===== *)
theory Xv6_Pagetable
  imports Xv6_Kalloc
begin

text \<open>
  The Sv39 page tables of \<^verbatim>\<open>kernel/vm.c\<close>: \<^verbatim>\<open>walk\<close>, \<^verbatim>\<open>walkaddr\<close>,
  \<^verbatim>\<open>ismapped\<close>, \<^verbatim>\<open>mappages\<close>, \<^verbatim>\<open>kvmmap\<close>, \<^verbatim>\<open>uvmcreate\<close> and
  \<^verbatim>\<open>uvmclear\<close>, over page-table pages that live in physical memory. A pointer is its address,
  the null pointer is 0. The abstraction of a page table is the function from virtual addresses to
  their leaf entries (0 where there is none); the invariant says that the page-table pages form a
  tree without sharing.
\<close>

section \<open>Operations\<close>

text \<open>
  The loop of \<^verbatim>\<open>walk\<close>: at level \<open>l > 0\<close> follow a valid entry, or, when allocating, put a
  fresh zeroed page there.
\<close>

fun walk_loop :: "nat \<Rightarrow> u64 \<Rightarrow> u64 \<Rightarrow> bool \<Rightarrow> 'a kmem_scheme \<Rightarrow> u64 \<times> 'a kmem_scheme" where
  "walk_loop 0 pagetable va alloc s = (pagetable + 8 * PX 0 va, s)"
| "walk_loop (Suc l) pagetable va alloc s =
     (let pte = pagetable + 8 * PX (Suc l) va;
          v = load64 (mem s) pte
      in if v AND PTE_V \<noteq> 0 then walk_loop l (PTE2PA v) va alloc s
         else if \<not> alloc then (0, s)
         else case kalloc s of (p, s1) \<Rightarrow>
           if p = 0 then (0, s1)
           else walk_loop l p va alloc
                  (s1\<lparr>mem := store64 (memset (mem s1) p 0 4096) pte (PA2PTE p OR PTE_V)\<rparr>))"

definition walk :: "u64 \<Rightarrow> u64 \<Rightarrow> bool \<Rightarrow> 'a kmem_scheme \<Rightarrow> (u64 \<times> 'a kmem_scheme) res" where
  "walk pagetable va alloc s =
     (if va \<ge> MAXVA then Inl (Panic ''walk'') else Inr (walk_loop 2 pagetable va alloc s))"

definition walkaddr :: "u64 \<Rightarrow> u64 \<Rightarrow> 'a kmem_scheme \<Rightarrow> u64 res" where
  "walkaddr pagetable va s =
     (if va \<ge> MAXVA then Inr 0
      else andthen (walk pagetable va False s) (\<lambda>(pte, _).
        if pte = 0 then Inr 0
        else let v = load64 (mem s) pte in
             if v AND PTE_V = 0 then Inr 0
             else if v AND PTE_U = 0 then Inr 0
             else Inr (PTE2PA v)))"

definition ismapped :: "u64 \<Rightarrow> u64 \<Rightarrow> 'a kmem_scheme \<Rightarrow> bool res" where
  "ismapped pagetable va s =
     andthen (walk pagetable va False s) (\<lambda>(pte, _).
       if pte = 0 then Inr False else Inr (load64 (mem s) pte AND PTE_V \<noteq> 0))"

text \<open>
  The loop of \<^verbatim>\<open>mappages\<close>. It stops at \<open>last\<close>, at a failed allocation, or when
  \<^verbatim>\<open>walk\<close> panics past \<^const>\<open>MAXVA\<close>, so it always ends.
\<close>

function mappages_loop ::
  "u64 \<Rightarrow> u64 \<Rightarrow> u64 \<Rightarrow> u64 \<Rightarrow> u64 \<Rightarrow> 'a kmem_scheme \<Rightarrow> (int \<times> 'a kmem_scheme) res" where
  "mappages_loop pagetable a lst pa perm s =
     andthen (walk pagetable a True s) (\<lambda>(pte, s1).
       if pte = 0 then Inr (-1, s1)
       else if load64 (mem s1) pte AND PTE_V \<noteq> 0 then Inl (Panic ''mappages: remap'')
       else let s2 = s1\<lparr>mem := store64 (mem s1) pte (PA2PTE pa OR perm OR PTE_V)\<rparr>
            in if a = lst then Inr (0, s2)
               else mappages_loop pagetable (a + PGSIZE) lst (pa + PGSIZE) perm s2)"
  by pat_completeness auto
termination
proof (relation "measure (\<lambda>(pt, a, lst, pa, perm, s). unat MAXVA - unat a)", goal_cases)
  case 1
  show ?case by simp
next
  case (2 pagetable a lst pa perm s w)
  then have "a < MAXVA" by (auto simp: walk_def split: if_splits)
  then have "unat a < unat MAXVA" by (simp add: word_less_nat_alt)
  moreover from this have "unat (a + PGSIZE) = unat a + 4096"
    by (simp add: PGSIZE_def MAXVA_def unat_word_ariths)
  ultimately show ?case by simp
qed

declare mappages_loop.simps [simp del]

definition mappages ::
  "u64 \<Rightarrow> u64 \<Rightarrow> u64 \<Rightarrow> u64 \<Rightarrow> u64 \<Rightarrow> 'a kmem_scheme \<Rightarrow> (int \<times> 'a kmem_scheme) res" where
  "mappages pagetable va sz pa perm s =
     (if va mod PGSIZE \<noteq> 0 then Inl (Panic ''mappages: va not aligned'')
      else if sz mod PGSIZE \<noteq> 0 then Inl (Panic ''mappages: size not aligned'')
      else if sz = 0 then Inl (Panic ''mappages: size'')
      else mappages_loop pagetable va (va + sz - PGSIZE) pa perm s)"

definition kvmmap ::
  "u64 \<Rightarrow> u64 \<Rightarrow> u64 \<Rightarrow> u64 \<Rightarrow> u64 \<Rightarrow> 'a kmem_scheme \<Rightarrow> 'a kmem_scheme res" where
  "kvmmap kpgtbl va pa sz perm s =
     andthen (mappages kpgtbl va sz pa perm s) (\<lambda>(r, s1).
       if r \<noteq> 0 then Inl (Panic ''kvmmap'') else Inr s1)"

definition uvmcreate :: "'a kmem_scheme \<Rightarrow> u64 \<times> 'a kmem_scheme" where
  "uvmcreate s =
     (case kalloc s of (pagetable, s1) \<Rightarrow>
        if pagetable = 0 then (0, s1)
        else (pagetable, s1\<lparr>mem := memset (mem s1) pagetable 0 4096\<rparr>))"

definition uvmclear :: "u64 \<Rightarrow> u64 \<Rightarrow> 'a kmem_scheme \<Rightarrow> 'a kmem_scheme res" where
  "uvmclear pagetable va s =
     andthen (walk pagetable va False s) (\<lambda>(pte, s1).
       if pte = 0 then Inl (Panic ''uvmclear'')
       else Inr (s1\<lparr>mem := store64 (mem s1) pte (load64 (mem s1) pte AND NOT PTE_U)\<rparr>))"

section \<open>The tree of page-table pages\<close>

definition entry :: "memory \<Rightarrow> u64 \<Rightarrow> nat \<Rightarrow> u64" where
  "entry m pt i = load64 m (pt + of_nat (8 * i))"

definition px :: "nat \<Rightarrow> u64 \<Rightarrow> nat" where
  "px l va = unat (PX l va)"

lemma px_less [simp]: "px l va < 512"
  by (simp add: px_def PX_less)

lemma px_le [simp]: "px l va \<le> 511"
  using px_less[of l va] by linarith

lemma PX_px: "8 * PX l va = of_nat (8 * px l va)"
  by (simp add: px_def)

text \<open>The pages of the tree below \<open>pt\<close>, and that no page is used twice.\<close>

fun pgs :: "memory \<Rightarrow> nat \<Rightarrow> u64 \<Rightarrow> u64 set" where
  "pgs m 0 pt = {pt}"
| "pgs m (Suc l) pt =
     insert pt (\<Union>i \<in> {i. i < 512 \<and> bit (entry m pt i) 0}. pgs m l (PTE2PA (entry m pt i)))"

fun tree_ok :: "memory \<Rightarrow> nat \<Rightarrow> u64 \<Rightarrow> bool" where
  "tree_ok m 0 pt = True"
| "tree_ok m (Suc l) pt =
     ((\<forall>i < 512. bit (entry m pt i) 0 \<longrightarrow>
         tree_ok m l (PTE2PA (entry m pt i)) \<and> pt \<notin> pgs m l (PTE2PA (entry m pt i))) \<and>
      (\<forall>i < 512. \<forall>j < 512. i \<noteq> j \<longrightarrow> bit (entry m pt i) 0 \<longrightarrow> bit (entry m pt j) 0 \<longrightarrow>
         pgs m l (PTE2PA (entry m pt i)) \<inter> pgs m l (PTE2PA (entry m pt j)) = {}))"

lemma tree_ok_siblings:
  "tree_ok m (Suc l) pt \<Longrightarrow> i < 512 \<Longrightarrow> j < 512 \<Longrightarrow> i \<noteq> j \<Longrightarrow> bit (entry m pt i) 0 \<Longrightarrow> bit (entry m pt j) 0 \<Longrightarrow>
   pgs m l (PTE2PA (entry m pt i)) \<inter> pgs m l (PTE2PA (entry m pt j)) = {}"
  by simp

text \<open>The address of the leaf entry of \<open>va\<close>, and the entry itself.\<close>

fun pte_slot :: "memory \<Rightarrow> nat \<Rightarrow> u64 \<Rightarrow> u64 \<Rightarrow> u64 option" where
  "pte_slot m 0 pt va = Some (pt + of_nat (8 * px 0 va))"
| "pte_slot m (Suc l) pt va =
     (let v = entry m pt (px (Suc l) va)
      in if bit v 0 then pte_slot m l (PTE2PA v) va else None)"

definition leaf_at :: "memory \<Rightarrow> nat \<Rightarrow> u64 \<Rightarrow> u64 \<Rightarrow> u64" where
  "leaf_at m l pt va = (case pte_slot m l pt va of None \<Rightarrow> 0 | Some a \<Rightarrow> load64 m a)"

abbreviation leaf :: "memory \<Rightarrow> u64 \<Rightarrow> u64 \<Rightarrow> u64" where
  "leaf m pt va \<equiv> leaf_at m 2 pt va"

text \<open>A read-only walk is a look-up and changes nothing.\<close>

lemma walk_loop_noalloc:
  "walk_loop l pt va False s = ((case pte_slot (mem s) l pt va of None \<Rightarrow> 0 | Some a \<Rightarrow> a), s)"
  by (induction l arbitrary: pt) (simp_all add: PX_px entry_def Let_def flag_test)

lemma pgs_root [simp]: "pt \<in> pgs m l pt"
  by (cases l) auto

lemma slot_in_pgs: "pte_slot m l pt va = Some a \<Longrightarrow> \<exists>p \<in> pgs m l pt. a = p + of_nat (8 * px 0 va)"
proof (induction l arbitrary: pt)
  case 0
  then show ?case by simp
next
  case (Suc l)
  then have "pte_slot m l (PTE2PA (entry m pt (px (Suc l) va))) va = Some a" "bit (entry m pt (px (Suc l) va)) 0"
    by (auto simp: Let_def split: if_splits)
  with Suc.IH show ?case by (fastforce)
qed

lemma entry_same: "same_page m m' pt \<Longrightarrow> i < 512 \<Longrightarrow> entry m' pt i = entry m pt i"
  unfolding entry_def by (rule same_page_load64[symmetric]) simp_all

lemma tree_same:
  assumes "\<And>p. p \<in> pgs m l pt \<Longrightarrow> same_page m m' p"
  shows "pgs m' l pt = pgs m l pt \<and> tree_ok m' l pt = tree_ok m l pt \<and>
         (\<forall>va. pte_slot m' l pt va = pte_slot m l pt va)"
  using assms
proof (induction l arbitrary: pt)
  case 0
  then show ?case by simp
next
  case (Suc l)
  have e: "entry m' pt i = entry m pt i" if "i < 512" for i
    using Suc.prems[of pt] that by (intro entry_same) simp_all
  have c: "pgs m' l (PTE2PA (entry m pt i)) = pgs m l (PTE2PA (entry m pt i)) \<and>
        tree_ok m' l (PTE2PA (entry m pt i)) = tree_ok m l (PTE2PA (entry m pt i)) \<and>
        (\<forall>va. pte_slot m' l (PTE2PA (entry m pt i)) va = pte_slot m l (PTE2PA (entry m pt i)) va)"
    if "i < 512" "bit (entry m pt i) 0" for i
    using that by (intro Suc.IH Suc.prems) auto
  show ?case using e c by (auto simp: Let_def)
qed

lemma leaf_at_same:
  assumes "\<And>p. p \<in> pgs m l pt \<Longrightarrow> same_page m m' p"
  shows "leaf_at m' l pt va = leaf_at m l pt va"
proof (cases "pte_slot m l pt va")
  case None
  with tree_same[OF assms] show ?thesis by (simp add: leaf_at_def)
next
  case (Some a)
  then obtain p where p: "p \<in> pgs m l pt" "a = p + of_nat (8 * px 0 va)"
    using slot_in_pgs by blast
  have "load64 m a = load64 m' a"
    unfolding p(2) by (intro same_page_load64 assms p(1)) (use px_less[of 0 va] in linarith)
  with Some tree_same[OF assms] show ?thesis by (simp add: leaf_at_def)
qed


text \<open>Distinct paths lead to distinct leaf entries.\<close>

lemma slot_addr_eq:
  assumes "page_aligned p" "page_aligned q" "i < 512" "j < 512"
    and "p + of_nat (8 * i) = q + of_nat (8 * j)"
  shows "p = q \<and> i = j"
proof -
  have al: "unat p mod 4096 = 0" "unat q mod 4096 = 0" using assms by (simp_all add: page_aligned_unat)
  have eq: "p = q" using aligned_blocks_disjoint[OF al, of "8 * i" "8 * j"] assms by simp
  have "unat (p + of_nat (8 * i)) = unat p + 8 * i" "unat (q + of_nat (8 * j)) = unat q + 8 * j"
    using assms(3,4) by (intro unat_add_small[OF al(1)] unat_add_small[OF al(2)]; simp)+
  with eq assms(5) show ?thesis by simp
qed

lemma slot_inj:
  assumes "tree_ok m l pt" "\<forall>p \<in> pgs m l pt. page_aligned p"
    and "pte_slot m l pt va = Some a" "pte_slot m l pt vb = Some a"
  shows "\<forall>i \<le> l. px i va = px i vb"
  using assms
proof (induction l arbitrary: pt)
  case 0
  then show ?case using slot_addr_eq[of pt pt "px 0 va" "px 0 vb"] by simp
next
  case (Suc l)
  let ?i = "px (Suc l) va" and ?j = "px (Suc l) vb"
  let ?ci = "PTE2PA (entry m pt ?i)" and ?cj = "PTE2PA (entry m pt ?j)"
  have va: "bit (entry m pt ?i) 0" "pte_slot m l ?ci va = Some a"
    and vb: "bit (entry m pt ?j) 0" "pte_slot m l ?cj vb = Some a"
    using Suc.prems(3,4) by (auto simp: Let_def split: if_splits)
  obtain p q where pq: "p \<in> pgs m l ?ci" "q \<in> pgs m l ?cj"
      "a = p + of_nat (8 * px 0 va)" "a = q + of_nat (8 * px 0 vb)"
    using slot_in_pgs[OF va(2)] slot_in_pgs[OF vb(2)] by blast
  have al: "page_aligned p" "page_aligned q"
    using Suc.prems(2) pq(1,2) va(1) vb(1) by (simp, metis px_less)+
  with pq have "p = q" using slot_addr_eq[of p q "px 0 va" "px 0 vb"] by auto
  with pq(1,2) have ij: "?i = ?j"
    using Suc.prems(1) va(1) vb(1) px_less[of "Suc l"] by (metis IntI empty_iff tree_ok.simps(2))
  have "\<forall>i \<le> l. px i va = px i vb"
  proof (rule Suc.IH)
    show "tree_ok m l ?ci" using Suc.prems(1) va(1) by simp
    show "\<forall>p \<in> pgs m l ?ci. page_aligned p" using Suc.prems(2) va(1) px_less by fastforce
    show "pte_slot m l ?ci va = Some a" by (rule va(2))
    show "pte_slot m l ?ci vb = Some a" using vb(2) ij by simp
  qed
  with ij show ?case by (auto simp: le_Suc_eq)
qed

section \<open>The invariant of one page table\<close>

definition pt_inv :: "'a kmem_scheme \<Rightarrow> nat \<Rightarrow> u64 \<Rightarrow> u64 list \<Rightarrow> bool" where
  "pt_inv s l pt ps =
     (free_list s ps \<and> tree_ok (mem s) l pt \<and> (\<forall>p \<in> pgs (mem s) l pt. valid_page s p) \<and>
      pgs (mem s) l pt \<inter> set ps = {})"

text \<open>
  What growing the tree by the pages \<open>used\<close> keeps: every leaf entry, and every page that is
  neither in the tree nor among the new pages.
\<close>

definition grown :: "'a kmem_scheme \<Rightarrow> 'a kmem_scheme \<Rightarrow> nat \<Rightarrow> u64 \<Rightarrow> u64 list \<Rightarrow> bool" where
  "grown s s' l pt used =
     (kend s' = kend s \<and> kmem.more s' = kmem.more s \<and>
      pgs (mem s') l pt = pgs (mem s) l pt \<union> set used \<and>
      (\<forall>va. leaf_at (mem s') l pt va = leaf_at (mem s) l pt va) \<and>
      (\<forall>q. page_aligned q \<longrightarrow> q \<notin> pgs (mem s) l pt \<longrightarrow> q \<notin> set used \<longrightarrow>
         same_page (mem s) (mem s') q))"

lemma grown_refl: "grown s s l pt []"
  by (simp add: grown_def)

lemma grown_trans:
  assumes "grown s s1 l pt u1" "grown s1 s2 l pt u2"
  shows "grown s s2 l pt (u1 @ u2)"
  using assms unfolding grown_def by (auto intro: same_page_trans)

lemma pt_inv_child:
  "pt_inv s (Suc l) pt ps \<Longrightarrow> i < 512 \<Longrightarrow> bit (entry (mem s) pt i) 0 \<Longrightarrow>
   pt_inv s l (PTE2PA (entry (mem s) pt i)) ps"
  unfolding pt_inv_def by auto

lemma pt_inv_aligned: "pt_inv s l pt ps \<Longrightarrow> p \<in> pgs (mem s) l pt \<Longrightarrow> page_aligned p"
  by (auto simp: pt_inv_def valid_page_def)

definition sib_pgs :: "memory \<Rightarrow> nat \<Rightarrow> u64 \<Rightarrow> nat \<Rightarrow> u64 set" where
  "sib_pgs m l pt i =
     (\<Union>j \<in> {j. j < 512 \<and> j \<noteq> i \<and> bit (entry m pt j) 0}. pgs m l (PTE2PA (entry m pt j)))"

text \<open>
  One child of a node changes and its siblings stay: the way every update of a page table looks
  from the node above.
\<close>

lemma replace_child:
  assumes tok: "tree_ok m (Suc l) pt" and i: "i < 512"
    and e: "\<And>j. j < 512 \<Longrightarrow> j \<noteq> i \<Longrightarrow> entry m' pt j = entry m pt j"
    and v: "bit (entry m' pt i) 0" and c: "c = PTE2PA (entry m' pt i)"
    and sib: "\<And>j p. j < 512 \<Longrightarrow> j \<noteq> i \<Longrightarrow> bit (entry m pt j) 0 \<Longrightarrow>
               p \<in> pgs m l (PTE2PA (entry m pt j)) \<Longrightarrow> same_page m m' p"
    and ct: "tree_ok m' l c" and pc: "pt \<notin> pgs m' l c"
    and dj: "\<And>j. j < 512 \<Longrightarrow> j \<noteq> i \<Longrightarrow> bit (entry m pt j) 0 \<Longrightarrow>
               pgs m l (PTE2PA (entry m pt j)) \<inter> pgs m' l c = {}"
  shows "tree_ok m' (Suc l) pt"
    and "pgs m' (Suc l) pt = insert pt (pgs m' l c \<union> sib_pgs m l pt i)"
    and "leaf_at m' (Suc l) pt va =
           (if px (Suc l) va = i then leaf_at m' l c va else leaf_at m (Suc l) pt va)"
proof -
  have ts: "pgs m' l (PTE2PA (entry m pt j)) = pgs m l (PTE2PA (entry m pt j)) \<and>
      tree_ok m' l (PTE2PA (entry m pt j)) = tree_ok m l (PTE2PA (entry m pt j))"
    if "j < 512" "j \<noteq> i" "bit (entry m pt j) 0" for j
    using tree_same[OF sib[OF that]] by blast
  have pj: "pgs m' l (PTE2PA (entry m' pt j)) = (if j = i then pgs m' l c else pgs m l (PTE2PA (entry m pt j)))"
    if "j < 512" "bit (entry m' pt j) 0" for j
    using ts e that c by (cases "j = i") auto
  have "tree_ok m' l (PTE2PA (entry m' pt j)) \<and> pt \<notin> pgs m' l (PTE2PA (entry m' pt j))"
    if "j < 512" "bit (entry m' pt j) 0" for j
    using ts[OF that(1)] e[OF that(1)] tok ct c pc that by (cases "j = i") auto
  moreover have "pgs m' l (PTE2PA (entry m' pt j)) \<inter> pgs m' l (PTE2PA (entry m' pt k)) = {}"
    if "j < 512" "k < 512" "j \<noteq> k" "bit (entry m' pt j) 0" "bit (entry m' pt k) 0" for j k
    using pj[OF that(1,4)] pj[OF that(2,5)] dj[OF that(1)] dj[OF that(2)] e[OF that(1)] e[OF that(2)] tok that
    by (cases "j = i"; cases "k = i") auto
  ultimately show "tree_ok m' (Suc l) pt" by simp
  show "pgs m' (Suc l) pt = insert pt (pgs m' l c \<union> sib_pgs m l pt i)"
    unfolding sib_pgs_def using pj e i v by (auto split: if_splits)
  show "leaf_at m' (Suc l) pt va =
           (if px (Suc l) va = i then leaf_at m' l c va else leaf_at m (Suc l) pt va)"
  proof (cases "px (Suc l) va = i")
    case True
    then show ?thesis using v c by (simp add: leaf_at_def Let_def)
  next
    case False
    let ?j = "px (Suc l) va"
    have ej: "entry m' pt ?j = entry m pt ?j" using False e[of ?j] by simp
    have "leaf_at m' l (PTE2PA (entry m pt ?j)) va = leaf_at m l (PTE2PA (entry m pt ?j)) va"
      if "bit (entry m pt ?j) 0"
      using leaf_at_same[OF sib[OF px_less False that]] .
    with ej False show ?thesis by (simp add: leaf_at_def Let_def)
  qed
qed

lemma pgs_split:
  "i < 512 \<Longrightarrow> pgs m (Suc l) pt = insert pt
     ((if bit (entry m pt i) 0 then pgs m l (PTE2PA (entry m pt i)) else {}) \<union> sib_pgs m l pt i)"
  by (auto simp: sib_pgs_def split: if_splits)

lemma pt_inv_step:
  assumes "pt_inv s l pt (used @ rest)" "free_list s' rest" "kend s' = kend s"
    and "tree_ok (mem s') l pt" "pgs (mem s') l pt = pgs (mem s) l pt \<union> set used"
  shows "pt_inv s' l pt rest"
  using assms unfolding pt_inv_def by (auto simp: free_list_def valid_page_def)

lemma lift_child:
  assumes inv: "pt_inv s (Suc l) pt (used @ rest)"
    and i: "i < 512" "bit (entry (mem s) pt i) 0"
    and c: "c = PTE2PA (entry (mem s) pt i)"
    and inv': "pt_inv s' l c rest" and g: "grown s s' l c used"
  shows "pt_inv s' (Suc l) pt rest" "grown s s' (Suc l) pt used"
    "entry (mem s') pt i = entry (mem s) pt i"
proof -
  let ?m = "mem s" and ?m' = "mem s'"
  have ptc: "pt \<notin> pgs ?m l c" and disj: "\<And>p. p \<in> pgs ?m (Suc l) pt \<Longrightarrow> p \<notin> set used"
    and tok: "tree_ok ?m (Suc l) pt"
    using inv i c by (auto simp: pt_inv_def)
  have pgc: "pgs ?m' l c = pgs ?m l c \<union> set used" using g by (simp add: grown_def)
  have keep: "same_page ?m ?m' q" if "q \<in> pgs ?m (Suc l) pt" "q \<notin> pgs ?m l c" for q
    using g disj[OF that(1)] that pt_inv_aligned[OF inv that(1)] by (simp add: grown_def)
  have e: "entry ?m' pt j = entry ?m pt j" if "j < 512" for j
    using keep[of pt] ptc that by (intro entry_same) auto
  have sub: "p \<in> pgs ?m (Suc l) pt" if "j < 512" "bit (entry ?m pt j) 0"
      "p \<in> pgs ?m l (PTE2PA (entry ?m pt j))" for j p using that by auto
  have dj: "pgs ?m l (PTE2PA (entry ?m pt j)) \<inter> pgs ?m' l c = {}"
    if "j < 512" "j \<noteq> i" "bit (entry ?m pt j) 0" for j
  proof -
    have "pgs ?m l (PTE2PA (entry ?m pt j)) \<inter> pgs ?m l c = {}" using tok that i c by auto
    then show ?thesis using disj sub[OF that(1,3)] unfolding pgc by blast
  qed
  have sib: "same_page ?m ?m' p"
    if "j < 512" "j \<noteq> i" "bit (entry ?m pt j) 0" "p \<in> pgs ?m l (PTE2PA (entry ?m pt j))" for j p
    using keep[OF sub[OF that(1,3,4)]] dj[OF that(1-3)] that(4) unfolding pgc by blast
  have v': "bit (entry ?m' pt i) 0" "c = PTE2PA (entry ?m' pt i)" using e[OF i(1)] i c by simp_all
  have pc: "pt \<notin> pgs ?m' l c" using ptc disj[of pt] pgc by simp
  have ct: "tree_ok ?m' l c" using inv' by (simp add: pt_inv_def)
  note rc = replace_child[OF tok i(1) _ v' _ ct pc dj]
  have rc1: "tree_ok ?m' (Suc l) pt" using e sib by (intro rc(1)) auto
  have rc2: "pgs ?m' (Suc l) pt = insert pt (pgs ?m' l c \<union> sib_pgs ?m l pt i)"
    using e sib by (intro rc(2)) auto
  have rc3: "leaf_at ?m' (Suc l) pt va =
      (if px (Suc l) va = i then leaf_at ?m' l c va else leaf_at ?m (Suc l) pt va)" for va
    using e sib by (intro rc(3)) auto
  have pg: "pgs ?m' (Suc l) pt = pgs ?m (Suc l) pt \<union> set used"
    using rc2 pgs_split[OF i(1), of ?m l pt] i c unfolding pgc by auto
  show "entry ?m' pt i = entry ?m pt i" using e i(1) .
  show "pt_inv s' (Suc l) pt rest"
    using inv inv' g rc1 pg by (intro pt_inv_step[OF inv]) (auto simp: pt_inv_def grown_def)
  have "leaf_at ?m' (Suc l) pt va = leaf_at ?m (Suc l) pt va" for va
  proof -
    have "leaf_at ?m (Suc l) pt va = leaf_at ?m l c va" if "px (Suc l) va = i"
      using that i c by (simp add: leaf_at_def Let_def)
    then show ?thesis using rc3[of va] g by (simp add: grown_def)
  qed
  moreover have "same_page ?m ?m' q"
    if "page_aligned q" "q \<notin> pgs ?m (Suc l) pt" "q \<notin> set used" for q
  proof -
    have "q \<notin> pgs ?m l c" using that(2) sub[OF i, of q] unfolding c by blast
    with g that show ?thesis unfolding grown_def by blast
  qed
  ultimately show "grown s s' (Suc l) pt used" using g pg by (simp add: grown_def)
qed

section \<open>walk with allocation\<close>

text \<open>A page of zeros is a tree with no entries.\<close>

lemma zero_page_tree:
  assumes "\<And>i. i < 512 \<Longrightarrow> entry m p i = 0"
  shows "pgs m l p = {p}" "tree_ok m l p" "leaf_at m l p va = 0"
proof -
  show "pgs m l p = {p}" using assms by (cases l) auto
  show "tree_ok m l p" using assms by (cases l) auto
  show "leaf_at m l p va = 0"
    using assms px_less[of 0 va] px_less[of l va]
    by (cases l) (auto simp: leaf_at_def entry_def Let_def)
qed

lemma aligned8_slot: "page_aligned pt \<Longrightarrow> k < 512 \<Longrightarrow> aligned8 (pt + of_nat (8 * k))"
proof -
  assume h: "page_aligned pt" "k < 512"
  then have "4096 dvd unat pt" by (simp add: page_aligned_unat mod_eq_0_iff_dvd)
  then have "8 dvd unat pt" by (rule dvd_trans[rotated]) simp
  moreover have "unat (pt + of_nat (8 * k)) = unat pt + 8 * k"
    using h by (intro unat_add_small[of pt 4096]) (simp_all add: page_aligned_unat)
  ultimately show ?thesis by (simp add: aligned8_def mod_eq_0_iff_dvd)
qed

lemma entry_store_self:
  assumes "i < 512" "j < 512" "page_aligned pt"
  shows "entry (store64 m (pt + of_nat (8 * i)) v) pt j = (if j = i then v else entry m pt j)"
proof (cases "j = i")
  case True
  then show ?thesis by (simp add: entry_def load64_store64 del: of_nat_mult)
next
  case False
  then have "pt + of_nat (8 * i) \<noteq> pt + of_nat (8 * j)"
    using slot_addr_eq[of pt pt i j] assms by auto
  then show ?thesis
    using False load64_store64_other[OF aligned8_slot[OF assms(3,1)] aligned8_slot[OF assms(3,2)]]
    by (simp add: entry_def del: of_nat_mult)
qed

text \<open>The memory after a fresh zeroed page \<open>p\<close> has been hung into entry \<open>i\<close> of \<open>pt\<close>.\<close>

definition hang :: "memory \<Rightarrow> u64 \<Rightarrow> nat \<Rightarrow> u64 \<Rightarrow> memory" where
  "hang m pt i p = store64 (memset (memset m p 5 4096) p 0 4096) (pt + of_nat (8 * i)) (PA2PTE p OR PTE_V)"

lemma hang_facts:
  assumes "page_aligned p" "page_aligned pt" "p \<noteq> pt" "i < 512"
  shows "\<And>q. page_aligned q \<Longrightarrow> q \<noteq> p \<Longrightarrow> q \<noteq> pt \<Longrightarrow> same_page m (hang m pt i p) q"
    and "\<And>j. j < 512 \<Longrightarrow> entry (hang m pt i p) pt j = (if j = i then PA2PTE p OR PTE_V else entry m pt j)"
    and "\<And>j. j < 512 \<Longrightarrow> entry (hang m pt i p) p j = 0"
    and "PTE2PA (PA2PTE p OR PTE_V) = p"
proof -
  let ?mz = "memset (memset m p 5 4096) p 0 4096"
  have z: "same_page m ?mz q" if "page_aligned q" "q \<noteq> p" for q
    using memset_page_other[OF assms(1) that(1)] that(2) by (metis same_page_trans)
  have st: "same_page ?mz (hang m pt i p) q" if "page_aligned q" "q \<noteq> pt" for q
    unfolding hang_def using that assms(4) by (intro store64_page_other assms) auto
  show "\<And>q. page_aligned q \<Longrightarrow> q \<noteq> p \<Longrightarrow> q \<noteq> pt \<Longrightarrow> same_page m (hang m pt i p) q"
    by (rule same_page_trans[OF z st])
  show "\<And>j. j < 512 \<Longrightarrow> entry (hang m pt i p) pt j = (if j = i then PA2PTE p OR PTE_V else entry m pt j)"
    using entry_store_self[OF assms(4) _ assms(2), of _ ?mz] entry_same[OF z[OF assms(2) assms(3)[symmetric]]]
    by (simp add: hang_def)
  show "PTE2PA (PA2PTE p OR PTE_V) = p"
    using PTE2PA_roundtrip(1)[OF assms(1), of PTE_V] by (simp add: bit_facts)
  fix j :: nat assume j: "j < 512"
  have "entry (hang m pt i p) p j = entry ?mz p j" by (rule entry_same[OF st[OF assms(1,3)] j])
  also have "\<dots> = 0" unfolding entry_def by (rule load64_memset0) (use j in simp)
  finally show "entry (hang m pt i p) p j = 0" .
qed

text \<open>Hanging a fresh page into an empty entry keeps the invariant and adds no leaf.\<close>

lemma graft:
  assumes inv: "pt_inv s (Suc l) pt (p # ps)" and i: "i < 512" "\<not> bit (entry (mem s) pt i) 0"
    and hd: "freelist s' = load64 (mem s) p" and m': "mem s' = hang (mem s) pt i p"
    and fr: "kend s' = kend s" "kmem.more s' = kmem.more s"
  shows "pt_inv s' (Suc l) pt ps" "grown s s' (Suc l) pt [p]"
    "bit (entry (mem s') pt i) 0" "PTE2PA (entry (mem s') pt i) = p"
proof -
  let ?m = "mem s" and ?m' = "mem s'"
  have tok: "tree_ok ?m (Suc l) pt" and pn: "p \<notin> pgs ?m (Suc l) pt"
    using inv by (simp_all add: pt_inv_def)
  have al: "page_aligned p" "page_aligned pt" "p \<noteq> pt"
    using inv pt_inv_aligned[OF inv pgs_root] pn by (auto simp: pt_inv_def free_list_def valid_page_def)
  note hf1 = hang_facts(1)[OF al i(1), where m = ?m, folded m']
    and hf2 = hang_facts(2)[OF al i(1), where m = ?m, folded m']
    and hf3 = hang_facts(3)[OF al i(1), where m = ?m, folded m']
    and hf4 = hang_facts(4)[OF al i(1)]
  have v: "bit (entry ?m' pt i) 0" "p = PTE2PA (entry ?m' pt i)"
    using hf2[OF i(1)] hf4 by (simp_all add: PTE_V_def bit_simps)
  have z: "pgs ?m' l p = {p}" "tree_ok ?m' l p" "leaf_at ?m' l p va = 0" for va
    by (rule zero_page_tree(1) zero_page_tree(2) zero_page_tree(3), erule hf3)+
  have sub: "q \<in> pgs ?m (Suc l) pt" if "j < 512" "bit (entry ?m pt j) 0"
      "q \<in> pgs ?m l (PTE2PA (entry ?m pt j))" for j q using that by auto
  have e: "entry ?m' pt j = entry ?m pt j" if "j < 512" "j \<noteq> i" for j using hf2 that by simp
  have sib: "same_page ?m ?m' q"
    if "j < 512" "j \<noteq> i" "bit (entry ?m pt j) 0" "q \<in> pgs ?m l (PTE2PA (entry ?m pt j))" for j q
  proof -
    have "q \<noteq> p" using sub[OF that(1,3,4)] pn by blast
    moreover have "q \<noteq> pt" using tok that by auto
    ultimately show ?thesis using pt_inv_aligned[OF inv sub[OF that(1,3,4)]] by (intro hf1)
  qed
  have dj: "pgs ?m l (PTE2PA (entry ?m pt j)) \<inter> pgs ?m' l p = {}"
    if "j < 512" "j \<noteq> i" "bit (entry ?m pt j) 0" for j
    using sub[OF that(1,3), of p] pn unfolding z by blast
  have pc: "pt \<notin> pgs ?m' l p" using al(3) unfolding z by simp
  note rc = replace_child[OF tok i(1) _ v _ z(2) pc dj]
  have rc1: "tree_ok ?m' (Suc l) pt" using e sib by (intro rc(1)) auto
  have rc2: "pgs ?m' (Suc l) pt = insert pt (pgs ?m' l p \<union> sib_pgs ?m l pt i)"
    using e sib by (intro rc(2)) auto
  have rc3: "leaf_at ?m' (Suc l) pt va =
      (if px (Suc l) va = i then leaf_at ?m' l p va else leaf_at ?m (Suc l) pt va)" for va
    using e sib by (intro rc(3)) auto
  have pg: "pgs ?m' (Suc l) pt = pgs ?m (Suc l) pt \<union> set [p]"
    using rc2 pgs_split[OF i(1), of ?m l pt] i unfolding z by auto
  have "leaf_at ?m' (Suc l) pt va = leaf_at ?m (Suc l) pt va" for va
    using rc3[of va] i(2) z(3) by (auto simp: leaf_at_def Let_def)
  moreover have "same_page ?m ?m' q"
    if "page_aligned q" "q \<notin> pgs ?m (Suc l) pt" "q \<notin> set [p]" for q
    using hf1[OF that(1)] that(2,3) by auto
  ultimately show "grown s s' (Suc l) pt [p]" using fr pg unfolding grown_def by blast
  have fp: "free_list s (p # ps)" and nps: "q \<noteq> p" "q \<noteq> pt" "page_aligned q" if "q \<in> set ps" for q
    using inv that by (auto simp: pt_inv_def free_list_def valid_page_def)
  have "run_chain ?m' (freelist s') ps"
    using inv hd by (intro run_chain_same[OF hf1]) (auto simp: nps pt_inv_def free_list_def)
  then have fl: "free_list s' ps"
    using inv fr by (auto simp: pt_inv_def free_list_def valid_page_def)
  show "pt_inv s' (Suc l) pt ps"
    by (rule pt_inv_step[of s "Suc l" pt "[p]" ps s']) (use inv fl fr rc1 pg in simp_all)
  show "bit (entry ?m' pt i) 0" "PTE2PA (entry ?m' pt i) = p" using v by simp_all
qed

lemma slot_nonzero:
  assumes "pt_inv s l pt ps" "pte_slot (mem s) l pt va = Some a"
  shows "a \<noteq> 0"
proof -
  obtain p where p: "p \<in> pgs (mem s) l pt" "a = p + of_nat (8 * px 0 va)"
    using slot_in_pgs[OF assms(2)] by blast
  with assms(1) have al: "page_aligned p" and "p \<noteq> 0" by (auto simp: pt_inv_def valid_page_def)
  then have "unat p \<noteq> 0" by (simp add: unat_eq_0)
  moreover have "unat a = unat p + 8 * px 0 va"
    unfolding p(2) using al px_less[of 0 va]
    by (intro unat_add_small[of p 4096]) (simp_all add: page_aligned_unat)
  ultimately show ?thesis by auto
qed

text \<open>
  An allocating walk takes pages from the front of the free list, one per missing level, keeps every
  leaf entry, and returns the address of the leaf entry of \<open>va\<close>, or 0 when memory ran out.
\<close>

lemma walk_alloc:
  assumes "pt_inv s l pt ps" "walk_loop l pt va True s = (a, s')"
  shows "\<exists>used rest. ps = used @ rest \<and> pt_inv s' l pt rest \<and> grown s s' l pt used \<and> length used \<le> l \<and>
    (if a = 0 then rest = [] \<and> length used < l else pte_slot (mem s') l pt va = Some a)"
  using assms
proof (induction l arbitrary: pt s ps)
  case 0
  then have "a \<noteq> 0" "s' = s" "pte_slot (mem s') 0 pt va = Some a"
    using slot_nonzero[of s 0 pt ps va a] by (auto simp: PX_px)
  with 0 show ?case by (auto simp: grown_refl intro!: exI[of _ "[]"])
next
  case (Suc l)
  let ?i = "px (Suc l) va"
  have step: "walk_loop (Suc l) pt va True s =
      (if bit (entry (mem s) pt ?i) 0 then walk_loop l (PTE2PA (entry (mem s) pt ?i)) va True s
       else case kalloc s of (p, s1) \<Rightarrow> if p = 0 then (0, s1)
         else walk_loop l p va True (s1\<lparr>mem := store64 (memset (mem s1) p 0 4096) (pt + of_nat (8 * ?i)) (PA2PTE p OR PTE_V)\<rparr>))"
    by (simp add: PX_px entry_def Let_def flag_test split: prod.split)
  have down: "\<exists>used rest. qs = used @ rest \<and> pt_inv s' (Suc l) pt rest \<and> grown t s' (Suc l) pt used \<and>
      length used \<le> l \<and> (if a = 0 then rest = [] \<and> length used < l else pte_slot (mem s') (Suc l) pt va = Some a)"
    if h: "pt_inv t (Suc l) pt qs" "bit (entry (mem t) pt ?i) 0"
       "walk_loop l (PTE2PA (entry (mem t) pt ?i)) va True t = (a, s')" for t qs
  proof -
    obtain used rest where ur: "qs = used @ rest" "pt_inv s' l (PTE2PA (entry (mem t) pt ?i)) rest"
        "grown t s' l (PTE2PA (entry (mem t) pt ?i)) used" "length used \<le> l"
        "if a = 0 then rest = [] \<and> length used < l else pte_slot (mem s') l (PTE2PA (entry (mem t) pt ?i)) va = Some a"
      using Suc.IH[OF pt_inv_child[OF h(1) px_less h(2)] h(3)] by blast
    note lc = lift_child[OF h(1)[unfolded ur(1)] px_less h(2) refl ur(2,3)]
    have "if a = 0 then rest = [] \<and> length used < l else pte_slot (mem s') (Suc l) pt va = Some a"
      using ur(5) lc(3) h(2) by (simp add: Let_def)
    with ur(1,4) lc(1,2) show ?thesis by blast
  qed
  show ?case
  proof (cases "bit (entry (mem s) pt ?i) 0")
    case True
    then have "walk_loop l (PTE2PA (entry (mem s) pt ?i)) va True s = (a, s')"
      using Suc.prems(2) unfolding step by simp
    with down[OF Suc.prems(1) True] show ?thesis using le_SucI less_SucI by (metis (full_types))
  next
    case inval: False
    have fl: "free_list s ps" using Suc.prems(1) by (simp add: pt_inv_def)
    show ?thesis
    proof (cases ps)
      case Nil
      then have "a = 0" "s' = s" using Suc.prems(2) inval kalloc_Nil[of s] fl unfolding step by auto
      with Nil Suc.prems(1) show ?thesis by (auto intro: grown_refl)
    next
      case (Cons p qs)
      define t where "t = (snd (kalloc s))\<lparr>mem := hang (mem s) pt ?i p\<rparr>"
      note kc = kalloc_Cons[OF fl[unfolded Cons]]
      have p0: "p \<noteq> 0" using fl Cons by (simp add: free_list_def)
      have "walk_loop l p va True t = (a, s')"
        using Suc.prems(2) inval kc(1) p0 unfolding step by (simp add: t_def hang_def)
      moreover have "freelist t = load64 (mem s) p" "mem t = hang (mem s) pt ?i p"
          "kend t = kend s" "kmem.more t = kmem.more s"
        using kc(1) by (simp_all add: t_def)
      note gr = graft[OF Suc.prems(1)[unfolded Cons] px_less inval this]
      ultimately obtain used rest where ur: "qs = used @ rest" "pt_inv s' (Suc l) pt rest"
          "grown t s' (Suc l) pt used" "length used \<le> l"
          "if a = 0 then rest = [] \<and> length used < l else pte_slot (mem s') (Suc l) pt va = Some a"
        using down[OF gr(1,3)] unfolding gr(4) by blast
      have "grown s s' (Suc l) pt (p # used)" using grown_trans[OF gr(2) ur(3)] by simp
      with ur Cons show ?thesis by (intro exI[of _ "p # used"] exI[of _ rest]) (simp split: if_splits)
    qed
  qed
qed

section \<open>Writing a leaf entry\<close>

lemma slot_path: "\<forall>i \<le> l. px i va = px i vb \<Longrightarrow> pte_slot m l pt va = pte_slot m l pt vb"
  by (induction l arbitrary: pt) (auto simp: Let_def)

lemma store_page_other:
  assumes "page_aligned p" "page_aligned q" "q \<noteq> p"
  shows "same_page m (store64 m (p + of_nat (8 * px k va)) v) q"
  using assms px_less[of k va] by (intro store64_page_other) auto

text \<open>A store to a leaf entry does not change the shape of the tree.\<close>

lemma store_leaf_shape:
  assumes "tree_ok m l pt" "\<forall>p \<in> pgs m l pt. page_aligned p" "pte_slot m l pt va = Some a"
  shows "pgs (store64 m a v) l pt = pgs m l pt \<and> tree_ok (store64 m a v) l pt \<and>
    (\<forall>vb. pte_slot (store64 m a v) l pt vb = pte_slot m l pt vb)"
  using assms
proof (induction l arbitrary: pt)
  case 0
  then show ?case by simp
next
  case (Suc l)
  let ?i = "px (Suc l) va" and ?m' = "store64 m a v"
  let ?c = "\<lambda>j. PTE2PA (entry m pt j)"
  have va: "bit (entry m pt ?i) 0" "pte_slot m l (?c ?i) va = Some a"
    using Suc.prems(3) by (auto simp: Let_def split: if_splits)
  obtain p where p: "p \<in> pgs m l (?c ?i)" "a = p + of_nat (8 * px 0 va)"
    using slot_in_pgs[OF va(2)] by blast
  have al: "page_aligned q" if "q \<in> pgs m l (?c j)" "j < 512" "bit (entry m pt j) 0" for q j
    using Suc.prems(2) that by auto
  have ap: "page_aligned p" "page_aligned pt" using al[OF p(1)] va(1) Suc.prems(2) by simp_all
  have keep: "same_page m ?m' q" if "page_aligned q" "q \<noteq> p" for q
    unfolding p(2) by (rule store_page_other[OF ap(1) that])
  have "pt \<noteq> p" using Suc.prems(1) va(1) p(1) by auto
  then have e: "entry ?m' pt j = entry m pt j" if "j < 512" for j
    using keep[OF ap(2)] that by (intro entry_same) auto
  have c: "pgs ?m' l (?c j) = pgs m l (?c j) \<and> tree_ok ?m' l (?c j) = tree_ok m l (?c j) \<and>
      (\<forall>vb. pte_slot ?m' l (?c j) vb = pte_slot m l (?c j) vb)" if j: "j < 512" "bit (entry m pt j) 0" for j
  proof (cases "j = ?i")
    case True
    have "tree_ok m l (?c ?i)" using Suc.prems(1) va(1) by simp
    with Suc.IH[OF this _ va(2)] al va(1) True show ?thesis by simp
  next
    case False
    then have "p \<notin> pgs m l (?c j)" using tree_ok_siblings[OF Suc.prems(1) px_less j(1) _ va(1) j(2)] p(1) by auto
    then show ?thesis using al[OF _ j] keep by (intro tree_same) blast
  qed
  show ?case using Suc.prems(1) e c by (auto simp: Let_def)
qed

definition same_path :: "nat \<Rightarrow> u64 \<Rightarrow> u64 \<Rightarrow> bool" where
  "same_path l va vb = (\<forall>i \<le> l. px i va = px i vb)"

lemma same_path_2: "va < MAXVA \<Longrightarrow> vb < MAXVA \<Longrightarrow> same_path 2 va vb \<longleftrightarrow> PGROUNDDOWN va = PGROUNDDOWN vb"
proof -
  assume h: "va < MAXVA" "vb < MAXVA"
  have px: "PX i (PGROUNDDOWN w) = PX i w" for i w
    by (rule bit_word_eqI) (auto simp: bit_PX PGROUNDDOWN_shift bit_push_bit_iff bit_drop_bit_eq add.assoc dest: bit_imp_le_length)
  have "PGROUNDDOWN va = PGROUNDDOWN vb" if "same_path 2 va vb"
  proof (rule PX_inj)
    have "PX i va = PX i vb" if "i \<le> 2" for i
      using \<open>same_path 2 va vb\<close> that by (auto simp: same_path_def px_def intro: u64_eqI)
    then show "PX 0 (PGROUNDDOWN va) = PX 0 (PGROUNDDOWN vb)" "PX 1 (PGROUNDDOWN va) = PX 1 (PGROUNDDOWN vb)"
      "PX 2 (PGROUNDDOWN va) = PX 2 (PGROUNDDOWN vb)" by (simp_all add: px)
    show "PGROUNDDOWN va < MAXVA" "PGROUNDDOWN vb < MAXVA"
      using h PGROUNDDOWN_le by (metis le_less_trans)+
  qed simp_all
  moreover have "same_path 2 va vb" if "PGROUNDDOWN va = PGROUNDDOWN vb"
    unfolding same_path_def px_def using that by (metis px)
  ultimately show ?thesis by blast
qed

text \<open>It changes the leaf of the addresses with the same path, and no other page.\<close>

definition leaf_set :: "'a kmem_scheme \<Rightarrow> 'a kmem_scheme \<Rightarrow> nat \<Rightarrow> u64 \<Rightarrow> u64 \<Rightarrow> u64 \<Rightarrow> bool" where
  "leaf_set s s' l pt va v =
     (freelist s' = freelist s \<and> kend s' = kend s \<and> kmem.more s' = kmem.more s \<and>
      pgs (mem s') l pt = pgs (mem s) l pt \<and>
      (\<forall>vb. leaf_at (mem s') l pt vb = (if same_path l va vb then v else leaf_at (mem s) l pt vb)) \<and>
      (\<forall>q. page_aligned q \<longrightarrow> q \<notin> pgs (mem s) l pt \<longrightarrow> same_page (mem s) (mem s') q))"

lemma store_leaf:
  assumes inv: "pt_inv s l pt ps" and sl: "pte_slot (mem s) l pt va = Some a"
  shows "pt_inv (s\<lparr>mem := store64 (mem s) a v\<rparr>) l pt ps"
    "leaf_set s (s\<lparr>mem := store64 (mem s) a v\<rparr>) l pt va v"
proof -
  let ?m' = "store64 (mem s) a v"
  have tok: "tree_ok (mem s) l pt" and al: "\<forall>p \<in> pgs (mem s) l pt. page_aligned p"
    using inv pt_inv_aligned[OF inv] by (auto simp: pt_inv_def)
  note sh = store_leaf_shape[OF tok al sl, of v]
  obtain p where p: "p \<in> pgs (mem s) l pt" "a = p + of_nat (8 * px 0 va)"
    using slot_in_pgs[OF sl] by blast
  have keep: "same_page (mem s) ?m' q" if "page_aligned q" "q \<notin> pgs (mem s) l pt" for q
    unfolding p(2) using that p(1) al by (intro store_page_other) auto
  have lf: "leaf_at ?m' l pt vb = (if same_path l va vb then v else leaf_at (mem s) l pt vb)" for vb
  proof (cases "pte_slot (mem s) l pt vb")
    case None
    then have "\<not> same_path l va vb" using slot_path[of l va vb "mem s" pt] sl by (auto simp: same_path_def)
    with None sh show ?thesis by (simp add: leaf_at_def)
  next
    case (Some b)
    obtain q where q: "q \<in> pgs (mem s) l pt" "b = q + of_nat (8 * px 0 vb)"
      using slot_in_pgs[OF Some] by blast
    have "load64 ?m' b = load64 (mem s) b" if "b \<noteq> a"
      using that p q al aligned8_slot[of p "px 0 va"] aligned8_slot[of q "px 0 vb"]
      by (intro load64_store64_other) auto
    moreover have "b = a \<longleftrightarrow> same_path l va vb"
      using slot_inj[OF tok al sl, of vb] slot_path[of l va vb "mem s" pt] Some sl
      by (auto simp: same_path_def)
    ultimately show ?thesis using sh Some load64_store64[of "mem s" a v] by (auto simp: leaf_at_def)
  qed
  show "leaf_set s (s\<lparr>mem := ?m'\<rparr>) l pt va v"
    using sh lf keep by (simp add: leaf_set_def)
  have fl: "free_list s ps" using inv by (simp add: pt_inv_def)
  have "free_list (s\<lparr>mem := ?m'\<rparr>) ps"
  proof (rule free_list_cong[OF fl])
    show "same_page (mem s) (mem (s\<lparr>mem := ?m'\<rparr>)) q" if "q \<in> set ps" for q
      using that inv keep[of q] by (auto simp: pt_inv_def free_list_def valid_page_def)
  qed simp_all
  then show "pt_inv (s\<lparr>mem := ?m'\<rparr>) l pt ps"
    using inv sh by (auto simp: pt_inv_def valid_page_def)
qed

section \<open>mappages\<close>

text \<open>
  What every update of a page table leaves alone: the memory's bounds, the state around it, and the
  pages that are neither in the tree nor newly taken.
\<close>

definition pt_frame :: "'a kmem_scheme \<Rightarrow> 'a kmem_scheme \<Rightarrow> u64 \<Rightarrow> u64 list \<Rightarrow> bool" where
  "pt_frame s s' pt used =
     (kend s' = kend s \<and> kmem.more s' = kmem.more s \<and>
      pgs (mem s') 2 pt = pgs (mem s) 2 pt \<union> set used \<and>
      (\<forall>q. page_aligned q \<longrightarrow> q \<notin> pgs (mem s) 2 pt \<longrightarrow> q \<notin> set used \<longrightarrow> same_page (mem s) (mem s') q))"

lemma pt_frame_grown: "grown s s' 2 pt used \<Longrightarrow> pt_frame s s' pt used"
  by (simp add: grown_def pt_frame_def)

lemma pt_frame_leaf_set: "leaf_set s s' 2 pt va v \<Longrightarrow> pt_frame s s' pt []"
  by (simp add: leaf_set_def pt_frame_def)

lemma pt_frame_trans:
  "pt_frame s s1 pt u1 \<Longrightarrow> pt_frame s1 s2 pt u2 \<Longrightarrow> pt_frame s s2 pt (u1 @ u2)"
  unfolding pt_frame_def by (auto intro: same_page_trans)

lemma leaf_at_slot: "pte_slot m l pt va = Some a \<Longrightarrow> load64 m a = leaf_at m l pt va"
  by (simp add: leaf_at_def)

text \<open>One page of \<^verbatim>\<open>mappages\<close>.\<close>

lemma map_page:
  assumes inv: "pt_inv s 2 pt ps" and va: "va < MAXVA" and free: "\<not> bit (leaf (mem s) pt va) 0"
  obtains (nomem) s1 where "walk pt va True s = Inr (0, s1)" "pt_inv s1 2 pt []" "grown s s1 2 pt ps" "length ps < 2"
  | (mapped) a s1 used rest where "walk pt va True s = Inr (a, s1)" "a \<noteq> 0" "load64 (mem s1) a AND PTE_V = 0"
      "ps = used @ rest" "length used \<le> 2"
      "\<And>v. pt_inv (s1\<lparr>mem := store64 (mem s1) a v\<rparr>) 2 pt rest"
      "\<And>v. pt_frame s (s1\<lparr>mem := store64 (mem s1) a v\<rparr>) pt used"
      "\<And>v vb. leaf (store64 (mem s1) a v) pt vb = (if same_path 2 va vb then v else leaf (mem s) pt vb)"
proof -
  obtain a s1 where w: "walk_loop 2 pt va True s = (a, s1)" by fastforce
  then have wk: "walk pt va True s = Inr (a, s1)" using va by (simp add: walk_def)
  obtain used rest where ur: "ps = used @ rest" "pt_inv s1 2 pt rest" "grown s s1 2 pt used" "length used \<le> 2"
      "if a = 0 then rest = [] \<and> length used < 2 else pte_slot (mem s1) 2 pt va = Some a"
    using walk_alloc[OF inv w] by blast
  show thesis
  proof (cases "a = 0")
    case True
    with ur wk show ?thesis by (intro nomem) simp_all
  next
    case False
    with ur have sl: "pte_slot (mem s1) 2 pt va = Some a" by simp
    have lf: "leaf (mem s1) pt vb = leaf (mem s) pt vb" for vb using ur(3) by (simp add: grown_def)
    note st = store_leaf[OF ur(2) sl]
    show ?thesis
    proof (rule mapped[OF wk False _ ur(1,4)])
      show "load64 (mem s1) a AND PTE_V = 0" using free lf leaf_at_slot[OF sl] by (simp add: flag_test)
      show "pt_inv (s1\<lparr>mem := store64 (mem s1) a v\<rparr>) 2 pt rest" for v by (rule st(1))
      show "pt_frame s (s1\<lparr>mem := store64 (mem s1) a v\<rparr>) pt used" for v
        using pt_frame_trans[OF pt_frame_grown[OF ur(3)] pt_frame_leaf_set[OF st(2)]] by simp
      show "leaf (store64 (mem s1) a v) pt vb = (if same_path 2 va vb then v else leaf (mem s) pt vb)" for v vb
        using st(2)[of v] lf by (simp add: leaf_set_def)
    qed
  qed
qed

text \<open>The leaves after \<open>n\<close> pages from \<open>va\<close> have been mapped to the pages from \<open>pa\<close>.\<close>

definition in_range :: "u64 \<Rightarrow> nat \<Rightarrow> u64 \<Rightarrow> bool" where
  "in_range va n vb = (unat va \<le> unat vb \<and> unat vb < unat va + n * 4096)"

definition mapped_pte :: "u64 \<Rightarrow> u64 \<Rightarrow> u64 \<Rightarrow> u64 \<Rightarrow> u64" where
  "mapped_pte va pa perm vb = PA2PTE (pa + of_nat ((unat vb - unat va) div 4096 * 4096)) OR perm OR PTE_V"

lemma same_path_range:
  assumes "page_aligned va" "va < MAXVA" "vb < MAXVA"
  shows "same_path 2 va vb = in_range va 1 vb"
proof -
  have "same_path 2 va vb \<longleftrightarrow> unat va = unat vb div 4096 * 4096"
    using assms same_path_2[of va vb] PGROUNDDOWN_id[of va] by (metis u64_eqI unat_PGROUNDDOWN)
  also have "\<dots> \<longleftrightarrow> in_range va 1 vb"
  proof -
    obtain k where "unat va = k * 4096" using assms(1) by (auto simp: page_aligned_unat elim!: dvdE[OF mod_0_imp_dvd] intro: that)
    then show ?thesis by (auto simp: in_range_def)
  qed
  finally show ?thesis .
qed

lemma next_page:
  assumes "page_aligned va" "unat va + 4096 \<le> unat MAXVA"
  shows "unat (va + PGSIZE) = unat va + 4096" "page_aligned (va + PGSIZE)"
proof -
  show "unat (va + PGSIZE) = unat va + 4096"
    using assms(2) by (simp add: PGSIZE_def MAXVA_def unat_word_ariths)
  with assms(1) show "page_aligned (va + PGSIZE)" by (simp add: page_aligned_unat)
qed

lemma mapped_pte_next:
  assumes "unat (va + PGSIZE) = unat va + 4096" "unat va + 4096 \<le> unat vb"
  shows "mapped_pte (va + PGSIZE) (pa + PGSIZE) perm vb = mapped_pte va pa perm vb"
proof -
  define d where "d = unat vb - (unat va + 4096)"
  have "unat vb - unat va = d + 4096" using assms(2) by (simp add: d_def)
  moreover have "(d + 4096) div 4096 = d div 4096 + 1" by (rule div_add_self2) simp
  ultimately have "(unat vb - unat va) div 4096 * 4096 = 4096 + d div 4096 * 4096"
    by (simp only:) (simp only: distrib_right mult_1 add.commute)
  then show ?thesis unfolding mapped_pte_def assms(1) d_def[symmetric] by (simp add: PGSIZE_def add.assoc)
qed

text \<open>
  \<^verbatim>\<open>mappages\<close> on a range with no valid entry: it maps the first \<open>k\<close> pages of the range and
  changes no other entry; it returns 0 exactly when that is the whole range.
\<close>

definition mapped_range :: "memory \<Rightarrow> memory \<Rightarrow> u64 \<Rightarrow> u64 \<Rightarrow> nat \<Rightarrow> u64 \<Rightarrow> u64 \<Rightarrow> int \<Rightarrow> bool" where
  "mapped_range m m' pt va n pa perm r =
     (\<exists>k \<le> n. (r = 0 \<longleftrightarrow> k = n) \<and>
        (\<forall>vb < MAXVA. leaf m' pt vb = (if in_range va k vb then mapped_pte va pa perm vb else leaf m pt vb)))"

lemma mapped_range_none: "(\<And>vb. leaf m' pt vb = leaf m pt vb) \<Longrightarrow> 0 < n \<Longrightarrow> mapped_range m m' pt va n pa perm (-1)"
  unfolding mapped_range_def by (rule exI[of _ 0]) (auto simp: in_range_def)

lemma mapped_range_all:
  "mapped_range m m' pt va n pa perm 0 \<Longrightarrow> vb < MAXVA \<Longrightarrow>
   leaf m' pt vb = (if in_range va n vb then mapped_pte va pa perm vb else leaf m pt vb)"
  by (auto simp: mapped_range_def)

text \<open>The first page, then the rest.\<close>

lemma mapped_range_Suc:
  assumes nx: "unat (va + PGSIZE) = unat va + 4096"
    and lf: "\<And>vb. vb < MAXVA \<Longrightarrow> leaf m1 pt vb = (if in_range va 1 vb then PA2PTE pa OR perm OR PTE_V else leaf m pt vb)"
    and rest: "mapped_range m1 m' pt (va + PGSIZE) n (pa + PGSIZE) perm r"
  shows "mapped_range m m' pt va (Suc n) pa perm r"
proof -
  let ?va = "va + PGSIZE" and ?pa = "pa + PGSIZE"
  obtain k where k: "k \<le> n" "r = 0 \<longleftrightarrow> k = n"
      "\<And>vb. vb < MAXVA \<Longrightarrow> leaf m' pt vb = (if in_range ?va k vb then mapped_pte ?va ?pa perm vb else leaf m1 pt vb)"
    using rest unfolding mapped_range_def by blast
  have rg: "in_range va (Suc k) vb \<longleftrightarrow> in_range va 1 vb \<or> in_range ?va k vb"
    "in_range ?va k vb \<Longrightarrow> \<not> in_range va 1 vb" for vb
    using nx by (auto simp: in_range_def)
  have "mapped_pte va pa perm vb = (if in_range va 1 vb then PA2PTE pa OR perm OR PTE_V else mapped_pte ?va ?pa perm vb)"
    if "in_range va (Suc k) vb" for vb
    using that rg(1)[of vb] mapped_pte_next[OF nx, of vb] nx by (auto simp: in_range_def mapped_pte_def)
  then have "\<forall>vb < MAXVA. leaf m' pt vb = (if in_range va (Suc k) vb then mapped_pte va pa perm vb else leaf m pt vb)"
    using k(3) lf rg by auto
  then show ?thesis unfolding mapped_range_def using k(1,2) by (intro exI[of _ "Suc k"]) simp
qed

lemma mappages_loop_spec:
  assumes "pt_inv s 2 pt ps" "page_aligned va" "unat va + Suc n * 4096 \<le> unat MAXVA"
    and "\<And>vb. in_range va (Suc n) vb \<Longrightarrow> \<not> bit (leaf (mem s) pt vb) 0"
    and "lst = va + of_nat (n * 4096)"
  shows "\<exists>r s' used rest. mappages_loop pt va lst pa perm s = Inr (r, s') \<and> ps = used @ rest \<and>
    pt_inv s' 2 pt rest \<and> pt_frame s s' pt used \<and> mapped_range (mem s) (mem s') pt va (Suc n) pa perm r \<and>
    (r = 0 \<or> r = -1 \<and> rest = [] \<and> length used < 2 * Suc n) \<and> length used \<le> 2 * Suc n"
  using assms
proof (induction n arbitrary: s ps va pa)
  case (0 s ps va pa)
  have va: "va < MAXVA" using 0 by (simp add: word_less_nat_alt)
  have free: "\<not> bit (leaf (mem s) pt va) 0" using 0(4)[of va] by (simp add: in_range_def)
  from 0(1) va free show ?case
  proof (cases rule: map_page)
    case (nomem s1)
    then have "mappages_loop pt va lst pa perm s = Inr (-1, s1)" by (simp add: mappages_loop.simps)
    moreover have "mapped_range (mem s) (mem s1) pt va 1 pa perm (-1)"
      using nomem(3) by (intro mapped_range_none) (simp_all add: grown_def)
    ultimately show ?thesis using nomem pt_frame_grown[OF nomem(3)] by fastforce
  next
    case (mapped a s1 used rest)
    let ?v = "PA2PTE pa OR perm OR PTE_V"
    have "mappages_loop pt va lst pa perm s = Inr (0, s1\<lparr>mem := store64 (mem s1) a ?v\<rparr>)"
      using mapped(1-3) 0(5) by (simp add: mappages_loop.simps)
    moreover have "mapped_range (mem s) (store64 (mem s1) a ?v) pt va 1 pa perm 0"
      unfolding mapped_range_def using mapped(8)[of ?v] same_path_range[OF 0(2) va]
      by (intro exI[of _ 1]) (auto simp: mapped_pte_def in_range_def)
    ultimately show ?thesis using mapped(4,5) mapped(6,7)[of ?v] by fastforce
  qed
next
  case (Suc n s ps va pa)
  let ?va = "va + PGSIZE" and ?pa = "pa + PGSIZE"
  have va: "va < MAXVA" using Suc.prems(3) by (simp add: word_less_nat_alt)
  have free: "\<not> bit (leaf (mem s) pt va) 0" using Suc.prems(4)[of va] by (simp add: in_range_def)
  have nx: "unat ?va = unat va + 4096" "page_aligned ?va"
    using next_page[of va] Suc.prems(2,3) by simp_all
  have lst: "lst = ?va + of_nat (n * 4096)" using Suc.prems(5) by (simp add: PGSIZE_def algebra_simps)
  have ne: "va \<noteq> lst"
  proof
    assume "va = lst"
    then have "of_nat (Suc n * 4096) = (0 :: u64)" using Suc.prems(5) by simp
    then have "unat (of_nat (Suc n * 4096) :: u64) = 0" by simp
    moreover have "unat (of_nat (Suc n * 4096) :: u64) = Suc n * 4096"
    proof (rule unat_of_nat_u64)
      have "Suc n * 4096 \<le> unat MAXVA" using Suc.prems(3) unfolding mult_Suc by linarith
      then show "Suc n * 4096 < 18446744073709551616" by (simp add: MAXVA_def)
    qed
    ultimately show False by simp
  qed
  from Suc.prems(1) va free show ?case
  proof (cases rule: map_page)
    case (nomem s1)
    then have "mappages_loop pt va lst pa perm s = Inr (-1, s1)" by (simp add: mappages_loop.simps)
    moreover have "mapped_range (mem s) (mem s1) pt va (Suc (Suc n)) pa perm (-1)"
      using nomem(3) by (intro mapped_range_none) (simp_all add: grown_def)
    ultimately show ?thesis using nomem pt_frame_grown[OF nomem(3)] by fastforce
  next
    case (mapped a s1 used rest)
    let ?v = "PA2PTE pa OR perm OR PTE_V"
    define t where "t = s1\<lparr>mem := store64 (mem s1) a ?v\<rparr>"
    have lf: "leaf (mem t) pt vb = (if in_range va 1 vb then ?v else leaf (mem s) pt vb)" if "vb < MAXVA" for vb
      using mapped(8)[of ?v] same_path_range[OF Suc.prems(2) va that] by (simp add: t_def)
    have rg: "in_range va (Suc (Suc n)) vb \<longleftrightarrow> in_range va 1 vb \<or> in_range ?va (Suc n) vb"
      "in_range ?va (Suc n) vb \<Longrightarrow> \<not> in_range va 1 vb" "in_range ?va (Suc n) vb \<Longrightarrow> vb < MAXVA" for vb
      using nx Suc.prems(3) by (auto simp: in_range_def word_less_nat_alt)
    have "mappages_loop pt va lst pa perm s = mappages_loop pt ?va lst ?pa perm t"
      using mapped(1-3) ne by (simp add: mappages_loop.simps[of pt va] t_def)
    moreover have "\<exists>r s' used' rest'. mappages_loop pt ?va lst ?pa perm t = Inr (r, s') \<and> rest = used' @ rest' \<and>
        pt_inv s' 2 pt rest' \<and> pt_frame t s' pt used' \<and>
        mapped_range (mem t) (mem s') pt ?va (Suc n) ?pa perm r \<and> (r = 0 \<or> r = -1 \<and> rest' = [] \<and> length used' < 2 * Suc n) \<and>
        length used' \<le> 2 * Suc n"
    proof (rule Suc.IH[OF _ nx(2) _ _ lst])
      show "pt_inv t 2 pt rest" using mapped(6) by (simp add: t_def)
      show "unat ?va + Suc n * 4096 \<le> unat MAXVA" using nx Suc.prems(3) by simp
      show "\<not> bit (leaf (mem t) pt vb) 0" if "in_range ?va (Suc n) vb" for vb
        using that rg lf[of vb] Suc.prems(4)[of vb] by auto
    qed
    ultimately obtain r s' used' rest' where h: "mappages_loop pt va lst pa perm s = Inr (r, s')"
        "rest = used' @ rest'" "pt_inv s' 2 pt rest'" "pt_frame t s' pt used'"
        "mapped_range (mem t) (mem s') pt ?va (Suc n) ?pa perm r" "r = 0 \<or> r = -1 \<and> rest' = [] \<and> length used' < 2 * Suc n"
        "length used' \<le> 2 * Suc n"
      by metis
    have "pt_frame s s' pt (used @ used')" using pt_frame_trans[OF mapped(7) h(4)[unfolded t_def]] .
    moreover have "mapped_range (mem s) (mem s') pt va (Suc (Suc n)) pa perm r"
      by (rule mapped_range_Suc[OF nx(1) lf h(5)])
    ultimately show ?thesis using h(1,2,3,6,7) mapped(4,5)
      by (rule_tac exI[of _ r], rule_tac exI[of _ s'], rule_tac exI[of _ "used @ used'"], rule_tac exI[of _ rest']) auto
  qed
qed

section \<open>Look-ups on a well-formed page table\<close>

lemma walk_lookup:
  "va < MAXVA \<Longrightarrow> walk pt va False s = Inr ((case pte_slot (mem s) 2 pt va of None \<Rightarrow> 0 | Some a \<Rightarrow> a), s)"
  by (simp add: walk_def walk_loop_noalloc)

lemma walkaddr_leaf:
  assumes "pt_inv s 2 pt ps"
  shows "walkaddr pt va s =
    Inr (if va < MAXVA \<and> bit (leaf (mem s) pt va) 0 \<and> bit (leaf (mem s) pt va) 4
         then PTE2PA (leaf (mem s) pt va) else 0)"
  using slot_nonzero[OF assms, of va]
  by (cases "pte_slot (mem s) 2 pt va") (auto simp: walkaddr_def walk_lookup leaf_at_def Let_def flag_test not_le)

lemma ismapped_leaf:
  assumes "pt_inv s 2 pt ps" "va < MAXVA"
  shows "ismapped pt va s = Inr (bit (leaf (mem s) pt va) 0)"
  using slot_nonzero[OF assms(1), of va] assms(2)
  by (cases "pte_slot (mem s) 2 pt va") (auto simp: ismapped_def walk_lookup leaf_at_def flag_test)

text \<open>The invariant depends on memory and the free list only, and survives giving back a page.\<close>

lemma pt_inv_cong:
  "mem s' = mem s \<Longrightarrow> freelist s' = freelist s \<Longrightarrow> kend s' = kend s \<Longrightarrow> pt_inv s' l pt ps = pt_inv s l pt ps"
  by (simp add: pt_inv_def free_list_def valid_page_def)

lemma pt_inv_kfree:
  assumes inv: "pt_inv s l pt ps" and p: "valid_page s p" "p \<notin> set ps" "p \<notin> pgs (mem s) l pt"
  shows "\<exists>s'. kfree p s = Inr s' \<and> pt_inv s' l pt (p # ps) \<and> pgs (mem s') l pt = pgs (mem s) l pt \<and>
    (\<forall>va. leaf_at (mem s') l pt va = leaf_at (mem s) l pt va) \<and>
    (\<forall>va. pte_slot (mem s') l pt va = pte_slot (mem s) l pt va) \<and>
    (\<forall>q. page_aligned q \<longrightarrow> q \<noteq> p \<longrightarrow> same_page (mem s) (mem s') q) \<and> kend s' = kend s"
proof -
  obtain s' where s': "kfree p s = Inr s'" "free_list s' (p # ps)" "kend s' = kend s"
    using kfree_free_list[of s ps p] inv p by (auto simp: pt_inv_def)
  have keep: "same_page (mem s) (mem s') q" if "q \<in> pgs (mem s) l pt" for q
  proof -
    have "q \<noteq> p" using that p(3) by auto
    then show ?thesis by (rule kfree_frame[OF s'(1) pt_inv_aligned[OF inv that]])
  qed
  note ts = tree_same[OF keep]
  have "pt_inv s' l pt (p # ps)"
    using inv p(3) s'(2,3) ts by (auto simp: pt_inv_def valid_page_def)
  with s'(1,3) ts leaf_at_same[OF keep] kfree_frame[OF s'(1)] show ?thesis by simp
qed

text \<open>The leaf of an address is that of its page.\<close>

lemma leaf_round: "va < MAXVA \<Longrightarrow> leaf m pt va = leaf m pt (PGROUNDDOWN va)"
proof -
  assume "va < MAXVA"
  moreover have "PGROUNDDOWN va < MAXVA" using calculation PGROUNDDOWN_le by (metis le_less_trans)
  ultimately have "same_path 2 va (PGROUNDDOWN va)" by (simp add: same_path_2 PGROUNDDOWN_id)
  then have "pte_slot m 2 pt va = pte_slot m 2 pt (PGROUNDDOWN va)"
    unfolding same_path_def by (rule slot_path)
  then show ?thesis by (simp add: leaf_at_def)
qed

text \<open>A fresh page table maps nothing.\<close>

lemma uvmcreate_fresh:
  assumes "free_list s (p # ps)"
  shows "\<exists>s'. uvmcreate s = (p, s') \<and> pt_inv s' 2 p ps \<and> (\<forall>va. leaf (mem s') p va = 0) \<and>
    pgs (mem s') 2 p = {p} \<and> kend s' = kend s \<and> kmem.more s' = kmem.more s"
proof -
  note kc = kalloc_Cons[OF assms]
  let ?s1 = "snd (kalloc s)"
  let ?m = "memset (mem ?s1) p 0 4096"
  have p: "valid_page s p" "p \<noteq> 0" "p \<notin> set ps" and ps: "\<forall>q \<in> set ps. valid_page s q"
    using assms by (auto simp: free_list_def)
  have "entry ?m p i = 0" if "i < 512" for i
    unfolding entry_def by (rule load64_memset0) (use that in simp)
  note z = zero_page_tree[OF this]
  have "free_list (?s1\<lparr>mem := ?m\<rparr>) ps"
  proof (rule free_list_cong[OF kc(2)])
    show "same_page (mem ?s1) (mem (?s1\<lparr>mem := ?m\<rparr>)) q" if "q \<in> set ps" for q
      using p ps that memset_page_other[of p q] by (auto simp: valid_page_def)
  qed simp_all
  moreover have "valid_page (?s1\<lparr>mem := ?m\<rparr>) p" using p(1) kalloc_fields[of s] by (simp add: valid_page_def)
  ultimately have "pt_inv (?s1\<lparr>mem := ?m\<rparr>) 2 p ps" using z p(3) by (simp add: pt_inv_def)
  moreover have "uvmcreate s = (p, ?s1\<lparr>mem := ?m\<rparr>)"
    using kc(1) p(2) by (simp add: uvmcreate_def)
  ultimately show ?thesis using z kalloc_fields[of s] by auto
qed

lemma page_aligned_add: "page_aligned a \<Longrightarrow> page_aligned b \<Longrightarrow> page_aligned (a + b)"
  unfolding page_aligned_unat unat_word_ariths mod_eq_0_iff_dvd by (intro dvd_mod dvd_add) simp_all

lemma page_aligned_of_nat: "page_aligned (of_nat (k * 4096))"
proof -
  have "4096 dvd (k * 4096) mod 2 ^ 64" by (rule dvd_mod) simp_all
  then show ?thesis unfolding page_aligned_unat unsigned_of_nat take_bit_eq_mod mod_eq_0_iff_dvd by simp
qed

lemma mappages_spec:
  assumes "pt_inv s 2 pt ps" "page_aligned va" "page_aligned sz" "sz \<noteq> 0"
    and "unat va + unat sz \<le> unat MAXVA"
    and "\<And>vb. in_range va (unat sz div 4096) vb \<Longrightarrow> \<not> bit (leaf (mem s) pt vb) 0"
  shows "\<exists>r s' used rest. mappages pt va sz pa perm s = Inr (r, s') \<and> ps = used @ rest \<and>
    pt_inv s' 2 pt rest \<and> pt_frame s s' pt used \<and>
    mapped_range (mem s) (mem s') pt va (unat sz div 4096) pa perm r \<and>
    (r = 0 \<or> r = -1 \<and> rest = [] \<and> length used < 2 * (unat sz div 4096)) \<and> length used \<le> 2 * (unat sz div 4096)"
proof -
  obtain k where k: "unat sz = k * 4096"
    using assms(3) by (auto simp: page_aligned_unat elim!: dvdE[OF mod_0_imp_dvd] intro: that)
  have "unat sz \<noteq> 0" using assms(4) by (simp add: unat_eq_0)
  then have "k \<noteq> 0" using k by simp
  then obtain n where n: "k = Suc n" by (cases k) auto
  have "of_nat (unat sz) = sz" by simp
  then have "sz = of_nat (Suc n * 4096)" unfolding k n by (rule sym)
  then have lst: "va + sz - PGSIZE = va + of_nat (n * 4096)" by (simp add: PGSIZE_def)
  have "mappages pt va sz pa perm s = mappages_loop pt va (va + sz - PGSIZE) pa perm s"
    using assms(2-4) by (simp add: mappages_def page_aligned_def)
  moreover have "unat va + Suc n * 4096 \<le> unat MAXVA" "unat sz div 4096 = Suc n"
    using assms(5) k n by simp_all
  ultimately show ?thesis
    using mappages_loop_spec[OF assms(1,2) _ _ lst, of pa perm] assms(6) by simp
qed

lemma one_page_table:
  "\<exists>s. uvmcreate four_pages = (0x87FFC000, s) \<and> pt_inv s 2 0x87FFC000 [0x87FFD000, 0x87FFE000, 0x87FFF000] \<and>
    (\<forall>va. leaf (mem s) 0x87FFC000 va = 0)"
  using uvmcreate_fresh[OF four_pages_free] by blast

section \<open>Properties\<close>

text \<open>
  C1. \<^verbatim>\<open>mappages\<close> on an aligned range below \<^const>\<open>MAXVA\<close> with no valid entry neither panics
  nor loses memory: it keeps the page table a tree of distinct pages and the free list intact, takes
  page-table pages only from the free list, at most two per mapped page, changes no other page,
  and changes exactly the leaf entries of the pages it has mapped. It returns 0 with every page of the
  range mapped to the corresponding physical page, or -1 with a proper prefix mapped when the free
  list is exhausted, which needs fewer than two free pages for each page of the range.
\<close>

theorem mappages_maps:
  assumes "pt_inv s 2 pt ps" "va mod PGSIZE = 0" "sz mod PGSIZE = 0" "sz \<noteq> 0"
    and "unat va + unat sz \<le> unat MAXVA"
    and "\<forall>vb. in_range va (unat sz div 4096) vb \<longrightarrow> \<not> bit (leaf (mem s) pt vb) 0"
  shows "\<exists>r s' used rest. mappages pt va sz pa perm s = Inr (r, s') \<and> ps = used @ rest \<and>
    pt_inv s' 2 pt rest \<and> pt_frame s s' pt used \<and>
    mapped_range (mem s) (mem s') pt va (unat sz div 4096) pa perm r \<and>
    (r = 0 \<or> r = -1 \<and> rest = [] \<and> length used < 2 * (unat sz div 4096)) \<and> length used \<le> 2 * (unat sz div 4096)"
  by (rule mappages_spec[OF assms(1) _ _ assms(4,5)]) (use assms(2,3,6) in \<open>auto simp: page_aligned_def\<close>)

theorem mappages_maps_witness:
  "\<exists>r s' used rest. mappages 0x87FFC000 0x5000 0x3000 0x80100000 PTE_U (snd (uvmcreate four_pages)) = Inr (r, s') \<and>
    [0x87FFD000, 0x87FFE000, 0x87FFF000] = used @ rest \<and> pt_inv s' 2 0x87FFC000 rest \<and>
    (r = 0 \<or> r = -1 \<and> rest = [])"
proof -
  obtain s where s: "uvmcreate four_pages = (0x87FFC000, s)"
      "pt_inv s 2 0x87FFC000 [0x87FFD000, 0x87FFE000, 0x87FFF000]" "\<forall>va. leaf (mem s) 0x87FFC000 va = 0"
    using one_page_table by blast
  show ?thesis
    using mappages_maps[OF s(2), of "0x5000" "0x3000" "0x80100000" PTE_U] s(1,3)
    by (auto simp: PGSIZE_def MAXVA_def)
qed

text \<open>
  C2. Round trip: after \<^verbatim>\<open>mappages\<close> has mapped a range with user permission,
  \<^verbatim>\<open>walkaddr\<close> finds for every address of the range the physical page it was mapped to.
\<close>

theorem mappages_walkaddr:
  assumes "pt_inv s 2 pt ps" "va mod PGSIZE = 0" "sz mod PGSIZE = 0" "sz \<noteq> 0"
    and "unat va + unat sz \<le> unat MAXVA" "pa mod PGSIZE = 0" "PTE_FLAGS perm = perm" "perm AND PTE_U \<noteq> 0"
    and "\<forall>vb. in_range va (unat sz div 4096) vb \<longrightarrow> \<not> bit (leaf (mem s) pt vb) 0"
    and "mappages pt va sz pa perm s = Inr (0, s')" "in_range va (unat sz div 4096) vb"
  shows "walkaddr pt vb s' = Inr (pa + of_nat ((unat vb - unat va) div 4096 * 4096))"
proof -
  let ?d = "(unat vb - unat va) div 4096 * 4096"
  let ?f = "perm OR PTE_V"
  obtain rest where inv: "pt_inv s' 2 pt rest" and mr: "mapped_range (mem s) (mem s') pt va (unat sz div 4096) pa perm 0"
    using mappages_spec[OF assms(1) _ _ assms(4,5), of pa perm] assms(2,3,9,10) unfolding page_aligned_def by auto
  have vb: "vb < MAXVA" using assms(5,11) by (auto simp: in_range_def word_less_nat_alt)
  then have lf: "leaf (mem s') pt vb = PA2PTE (pa + of_nat ?d) OR ?f"
    using mapped_range_all[OF mr, of vb] assms(11) by (simp add: mapped_pte_def or.assoc)
  have al: "page_aligned (pa + of_nat ?d)"
    using assms(6) by (intro page_aligned_add page_aligned_of_nat) (simp add: page_aligned_def)
  have fl: "n < 10" if "bit ?f n" for n
    using that arg_cong[OF assms(7), of "\<lambda>w. bit w n"] by (auto simp: bit_facts bit_or_iff)
  have "bit (leaf (mem s') pt vb) 0" "bit (leaf (mem s') pt vb) 4"
    using assms(8) unfolding lf by (auto simp: bit_facts bit_or_iff)
  then show ?thesis
    using walkaddr_leaf[OF inv, of vb] vb PTE2PA_roundtrip(1)[OF al fl] unfolding lf by simp
qed

theorem mappages_walkaddr_witness:
  "\<exists>s'. mappages 0x87FFC000 0x5000 0x1000 0x80100000 PTE_U (snd (uvmcreate four_pages)) = Inr (0, s') \<and>
    walkaddr 0x87FFC000 0x5abc s' = Inr 0x80100000"
proof -
  obtain s where s: "uvmcreate four_pages = (0x87FFC000, s)"
      "pt_inv s 2 0x87FFC000 [0x87FFD000, 0x87FFE000, 0x87FFF000]" "\<forall>va. leaf (mem s) 0x87FFC000 va = 0"
    using one_page_table by blast
  have "page_aligned 0x5000" "page_aligned 0x1000" by (simp_all add: page_aligned_unat)
  from mappages_spec[OF s(2) this, of "0x80100000" PTE_U]
  obtain s' where m: "mappages 0x87FFC000 0x5000 0x1000 0x80100000 PTE_U s = Inr (0, s')"
    using s(3) by (auto simp: MAXVA_def)
  have f: "PTE_FLAGS PTE_U = PTE_U" "PTE_U AND PTE_U \<noteq> 0"
    by (simp_all add: PTE_FLAGS_def PTE_U_def)
  have "walkaddr 0x87FFC000 0x5abc s' = Inr 0x80100000"
    using mappages_walkaddr[OF s(2) _ _ _ _ _ f _ m, of "0x5abc"] s(3)
    by (simp add: PGSIZE_def MAXVA_def in_range_def)
  with m s(1) show ?thesis by simp
qed

end
