(* ===== verification/Xv6_State.thy ===== *)
theory Xv6_State
  imports Xv6_Pagetable
begin

text \<open>
  The kernel's tables that virtual memory and processes share: \<^verbatim>\<open>struct proc\<close>
  (\<^verbatim>\<open>kernel/proc.h\<close>), \<^verbatim>\<open>struct swap_slot\<close> (\<^verbatim>\<open>kernel/swap.h\<close>) and
  \<^verbatim>\<open>struct frame_entry\<close> (\<^verbatim>\<open>kernel/frametable.h\<close>). A pointer into one of the fixed
  tables is the index of its entry, the null pointer is \<^const>\<open>None\<close>; flags that only hold 0 or 1
  are Booleans. The state extends the memory of the page allocator, so that the operations on pages
  and page tables apply to it as they are.
\<close>

datatype procstate = UNUSED | USED | SLEEPING | RUNNABLE | RUNNING | ZOMBIE

text \<open>
  Sleep channels are addresses of kernel objects; distinct objects have distinct addresses, so a
  channel is the object.
\<close>

datatype lkid = BufLock nat | InodeLock nat

datatype chan =
    ProcChan nat
  | TicksChan
  | PipeReadChan nat
  | PipeWriteChan nat
  | SleeplockChan lkid
  | LogChan
  | ConsoleChan
  | UartChan
  | DiskChan nat

text \<open>Saved registers for kernel context switches: \<open>ra\<close>, \<open>sp\<close> and \<open>s0\<close> to \<open>s11\<close>.\<close>

record ctxt =
  c_ra :: u64
  c_sp :: u64
  c_s :: "u64 list"

record proc =
  p_mlfq_level :: int
  p_ticks_at_level :: int
  p_ticks_per_level :: "int list"
  p_times_scheduled :: int
  p_syscalls_at_level :: int
  p_state :: procstate
  p_chan :: "chan option"
  p_killed :: bool
  p_xstate :: int
  p_pid :: int
  p_parent :: "nat option"
  p_kstack :: u64
  p_sz :: u64
  p_pagetable :: u64
  p_trapframe :: u64
  p_context :: ctxt
  p_ofile :: "nat option list"
  p_cwd :: "nat option"
  p_name :: "u8 list"
  p_syscount :: int
  p_page_faults :: int
  p_pages_evicted :: int
  p_pages_swapped_in :: int
  p_pages_swapped_out :: int
  p_resident_pages :: int

record swap_slot =
  sl_used :: bool
  sl_pid :: int
  sl_va :: u64
  sl_data :: "u8 list"

record frame_entry =
  fr_used :: bool
  fr_pid :: int
  fr_owner :: "nat option"
  fr_va :: u64
  fr_pa :: u64
  fr_ref_bit :: int
  fr_swap_slot :: int

text \<open>
  \<open>curproc\<close> is the process running on this CPU, what \<^verbatim>\<open>myproc()\<close> returns. The addresses of
  the trampoline code, of the end of the kernel text and of \<^verbatim>\<open>forkret\<close> come from the linker.
\<close>

record vmst = kmem +
  swap_area :: "swap_slot list"
  ftable :: "frame_entry list"
  clock_hand :: nat
  procs :: "proc list"
  curproc :: "nat option"
  initproc :: "nat option"
  nextpid :: int
  trampoline_pa :: u64
  etext_pa :: u64
  forkret_pc :: u64

definition MAX_SWAP_SLOTS :: nat where "MAX_SWAP_SLOTS = 512"
definition MAXFRAMES :: nat where "MAXFRAMES = 128"

text \<open>Assignment to fields of \<^verbatim>\<open>proc[i]\<close>.\<close>

definition upd_proc :: "nat \<Rightarrow> (proc \<Rightarrow> proc) \<Rightarrow> 'a vmst_scheme \<Rightarrow> 'a vmst_scheme" where
  "upd_proc i f s = s\<lparr>procs := (procs s)[i := f (procs s ! i)]\<rparr>"

lemma upd_proc_fields [simp]:
  "mem (upd_proc i f s) = mem s" "freelist (upd_proc i f s) = freelist s" "kend (upd_proc i f s) = kend s"
  "swap_area (upd_proc i f s) = swap_area s" "ftable (upd_proc i f s) = ftable s"
  "clock_hand (upd_proc i f s) = clock_hand s" "curproc (upd_proc i f s) = curproc s"
  "initproc (upd_proc i f s) = initproc s" "nextpid (upd_proc i f s) = nextpid s"
  "length (procs (upd_proc i f s)) = length (procs s)"
  "trampoline_pa (upd_proc i f s) = trampoline_pa s" "etext_pa (upd_proc i f s) = etext_pa s"
  "forkret_pc (upd_proc i f s) = forkret_pc s" "vmst.more (upd_proc i f s) = vmst.more s"
  by (simp_all add: upd_proc_def)

lemma procs_upd_proc:
  "i < length (procs s) \<Longrightarrow> procs (upd_proc i f s) ! j = (if j = i then f (procs s ! i) else procs s ! j)"
  by (simp add: upd_proc_def nth_list_update)

text \<open>An operation on pages only leaves the tables alone.\<close>

lemma kmem_more_tables:
  fixes s s' :: "'a vmst_scheme"
  assumes "kmem.more s' = kmem.more s"
  shows "swap_area s' = swap_area s" "ftable s' = ftable s" "clock_hand s' = clock_hand s" "procs s' = procs s"
    "curproc s' = curproc s" "initproc s' = initproc s" "nextpid s' = nextpid s"
    "trampoline_pa s' = trampoline_pa s" "etext_pa s' = etext_pa s"
    "forkret_pc s' = forkret_pc s" "vmst.more s' = vmst.more s"
  using assms by (cases s; cases s'; simp)+

text \<open>The tables have the sizes they are declared with.\<close>

definition tables_ok :: "'a vmst_scheme \<Rightarrow> bool" where
  "tables_ok s =
     (length (swap_area s) = MAX_SWAP_SLOTS \<and> length (ftable s) = MAXFRAMES \<and> length (procs s) = NPROC \<and>
      clock_hand s < MAXFRAMES \<and> (\<forall>e \<in> set (swap_area s). length (sl_data e) = 4096))"

text \<open>The tables as the kernel finds them at boot, on which properties are evaluated.\<close>

definition free_proc :: proc where
  "free_proc =
     \<lparr>p_mlfq_level = 0, p_ticks_at_level = 0, p_ticks_per_level = [0, 0, 0, 0], p_times_scheduled = 0,
      p_syscalls_at_level = 0, p_state = UNUSED, p_chan = None, p_killed = False, p_xstate = 0, p_pid = 0,
      p_parent = None, p_kstack = 0, p_sz = 0, p_pagetable = 0, p_trapframe = 0,
      p_context = \<lparr>c_ra = 0, c_sp = 0, c_s = replicate 12 0\<rparr>, p_ofile = replicate 16 None, p_cwd = None,
      p_name = replicate 16 0, p_syscount = 0, p_page_faults = 0, p_pages_evicted = 0,
      p_pages_swapped_in = 0, p_pages_swapped_out = 0, p_resident_pages = 0\<rparr>"

definition free_slot :: swap_slot where
  "free_slot = \<lparr>sl_used = False, sl_pid = -1, sl_va = 0, sl_data = replicate 4096 0\<rparr>"

definition free_frame :: frame_entry where
  "free_frame = \<lparr>fr_used = False, fr_pid = -1, fr_owner = None, fr_va = 0, fr_pa = 0, fr_ref_bit = 0, fr_swap_slot = -1\<rparr>"

definition boot_vm :: "kmem \<Rightarrow> vmst" where
  "boot_vm k = kmem.extend k
     \<lparr>swap_area = replicate 512 free_slot, ftable = replicate 128 free_frame, clock_hand = 0,
      procs = replicate 64 free_proc, curproc = None, initproc = None, nextpid = 1,
      trampoline_pa = 0x80007000, etext_pa = 0x80008000, forkret_pc = 0x80001c20\<rparr>"

lemma boot_vm_fields [simp]:
  "mem (boot_vm k) = mem k" "freelist (boot_vm k) = freelist k" "kend (boot_vm k) = kend k"
  "swap_area (boot_vm k) = replicate 512 free_slot" "ftable (boot_vm k) = replicate 128 free_frame"
  "procs (boot_vm k) = replicate 64 free_proc" "clock_hand (boot_vm k) = 0" "curproc (boot_vm k) = None"
  "initproc (boot_vm k) = None" "nextpid (boot_vm k) = 1"
  by (simp_all add: boot_vm_def kmem.defs)

lemma boot_vm_tables: "tables_ok (boot_vm k)"
  by (simp add: tables_ok_def MAX_SWAP_SLOTS_def MAXFRAMES_def NPROC_def free_slot_def)

lemma first_idx_replicate: "first_idx P (replicate n x) = (if P x \<and> 0 < n then Some 0 else None)"
  by (induction n) auto

lemma count_if_replicate: "count_if P (replicate n x) = (if P x then n else 0)"
  by (simp add: count_if_def)

section \<open>Tables with free entries\<close>

text \<open>
  Many kernel tables are filled the same way: a scan from entry 0 takes the first free entry, and
  the request fails when there is none. The locale states that contract once.
\<close>

locale slot_table =
  fixes used :: "'e \<Rightarrow> bool"
    and tab :: "'s \<Rightarrow> 'e list"
    and put :: "'a \<Rightarrow> 's \<Rightarrow> nat option \<times> 's"
  assumes put_full: "first_idx (\<lambda>e. \<not> used e) (tab s) = None \<Longrightarrow> put a s = (None, s)"
    and put_free: "first_idx (\<lambda>e. \<not> used e) (tab s) = Some i \<Longrightarrow>
          \<exists>e s'. put a s = (Some i, s') \<and> tab s' = (tab s)[i := e] \<and> used e"
begin

lemma put_cases:
  obtains (full) "\<forall>e \<in> set (tab s). used e" "put a s = (None, s)"
    | (free) i e s' where "i < length (tab s)" "\<not> used (tab s ! i)" "\<forall>j < i. used (tab s ! j)"
        "put a s = (Some i, s')" "tab s' = (tab s)[i := e]" "used e"
proof (cases "first_idx (\<lambda>e. \<not> used e) (tab s)")
  case None
  with put_full[OF None, of a] show ?thesis by (intro full) (auto simp: first_idx_None_iff)
next
  case (Some i)
  then have i: "i < length (tab s)" "\<not> used (tab s ! i)" "\<forall>j < i. used (tab s ! j)"
    by (auto dest: first_idx_SomeD)
  from put_free[OF Some, of a] obtain e s' where
    "put a s = (Some i, s')" "tab s' = (tab s)[i := e]" "used e" by blast
  with i show ?thesis by (rule free)
qed

text \<open>The request fails exactly when every entry is in use.\<close>

lemma put_fails_iff: "fst (put a s) = None \<longleftrightarrow> count_if used (tab s) = length (tab s)"
  by (rule put_cases[of s a]) (auto simp: count_if_full)

text \<open>A success takes exactly one entry into use, one that was free, and leaves the others.\<close>

lemma put_counts:
  assumes "fst (put a s) = Some i"
  shows "count_if used (tab (snd (put a s))) = Suc (count_if used (tab s))"
proof (rule put_cases[of s a])
  fix k e s' assume "k < length (tab s)" "\<not> used (tab s ! k)" "put a s = (Some k, s')"
    "tab s' = (tab s)[k := e]" "used e"
  then show ?thesis using count_if_update[of k "tab s" used e] by simp
qed (use assms in simp)

lemma put_others:
  "fst (put a s) = Some i \<Longrightarrow> j \<noteq> i \<Longrightarrow> tab (snd (put a s)) ! j = tab s ! j"
  by (rule put_cases[of s a]) auto

lemma put_was_free: "fst (put a s) = Some i \<Longrightarrow> i < length (tab s) \<and> \<not> used (tab s ! i)"
  by (rule put_cases[of s a]) auto

lemma put_length [simp]: "length (tab (snd (put a s))) = length (tab s)"
  by (rule put_cases[of s a]) auto

end

end
