(* ===== verification/Xv6_Swap.thy ===== *)
theory Xv6_Swap
  imports Xv6_State
begin

text \<open>
  The in-memory swap area of \<^verbatim>\<open>kernel/swap.c\<close>: 512 slots of one page each. Each operation
  runs under \<^verbatim>\<open>swap_lock\<close>.
\<close>

section \<open>Operations\<close>

definition swap_init :: "'a vmst_scheme \<Rightarrow> 'a vmst_scheme" where
  "swap_init s = s\<lparr>swap_area := map (\<lambda>e. e\<lparr>sl_used := False, sl_pid := -1, sl_va := 0\<rparr>) (swap_area s)\<rparr>"

definition swap_out :: "u64 \<Rightarrow> int \<Rightarrow> u64 \<Rightarrow> 'a vmst_scheme \<Rightarrow> int \<times> 'a vmst_scheme" where
  "swap_out page pid va s =
     (case first_idx (\<lambda>e. \<not> sl_used e) (swap_area s) of
        Some i \<Rightarrow> (int i, s\<lparr>swap_area := (swap_area s)[i :=
                     (swap_area s ! i)\<lparr>sl_used := True, sl_pid := pid, sl_va := va,
                                       sl_data := load_bytes (mem s) page 4096\<rparr>]\<rparr>)
      | None \<Rightarrow> (-1, s))"

definition swap_in :: "int \<Rightarrow> u64 \<Rightarrow> 'a vmst_scheme \<Rightarrow> int \<times> 'a vmst_scheme" where
  "swap_in slot buf s =
     (if slot < 0 \<or> slot \<ge> int MAX_SWAP_SLOTS then (-1, s)
      else if \<not> sl_used (swap_area s ! nat slot) then (-1, s)
      else (0, s\<lparr>mem := store_bytes (mem s) buf (sl_data (swap_area s ! nat slot))\<rparr>))"

definition swap_free :: "int \<Rightarrow> 'a vmst_scheme \<Rightarrow> 'a vmst_scheme" where
  "swap_free slot s =
     (if slot < 0 \<or> slot \<ge> int MAX_SWAP_SLOTS then s
      else s\<lparr>swap_area := (swap_area s)[nat slot :=
               (swap_area s ! nat slot)\<lparr>sl_used := False, sl_pid := -1, sl_va := 0\<rparr>]\<rparr>)"

section \<open>Facts\<close>

definition slots_used :: "'a vmst_scheme \<Rightarrow> nat" where
  "slots_used s = count_if sl_used (swap_area s)"

definition swap_put :: "u64 \<times> int \<times> u64 \<Rightarrow> 'a vmst_scheme \<Rightarrow> nat option \<times> 'a vmst_scheme" where
  "swap_put = (\<lambda>(page, pid, va) s. case swap_out page pid va s of (r, s') \<Rightarrow>
     (if r < 0 then None else Some (nat r), s'))"

interpretation sw: slot_table sl_used swap_area swap_put
proof (unfold_locales, goal_cases)
  case (1 s a)
  then show ?case by (cases a) (simp add: swap_put_def swap_out_def)
next
  case (2 s i a)
  then show ?case by (cases a) (fastforce simp: swap_put_def swap_out_def)
qed

lemma swap_out_cases:
  assumes "swap_out page pid va s = (r, s')"
  obtains (full) "r = -1" "s' = s" "slots_used s = length (swap_area s)"
  | (ok) i where "r = int i" "i < length (swap_area s)" "\<not> sl_used (swap_area s ! i)"
      "s' = s\<lparr>swap_area := (swap_area s)[i :=
              (swap_area s ! i)\<lparr>sl_used := True, sl_pid := pid, sl_va := va,
                                sl_data := load_bytes (mem s) page 4096\<rparr>]\<rparr>"
proof (cases "first_idx (\<lambda>e. \<not> sl_used e) (swap_area s)")
  case None
  then have "slots_used s = length (swap_area s)"
    by (auto simp: slots_used_def count_if_full first_idx_None_iff)
  with None assms show ?thesis by (intro full) (auto simp: swap_out_def)
next
  case (Some i)
  with assms first_idx_SomeD[OF Some] show ?thesis by (intro ok[of i]) (auto simp: swap_out_def)
qed

lemma swap_out_succeeds:
  "slots_used s < length (swap_area s) \<Longrightarrow> \<exists>i. fst (swap_out page pid va s) = int i"
  using sw.put_fails_iff[of "(page, pid, va)" s]
  by (auto simp: slots_used_def swap_put_def swap_out_def split: option.splits)

lemma swap_out_fields [simp]:
  "mem (snd (swap_out page pid va s)) = mem s" "freelist (snd (swap_out page pid va s)) = freelist s"
  "kend (snd (swap_out page pid va s)) = kend s" "procs (snd (swap_out page pid va s)) = procs s"
  "ftable (snd (swap_out page pid va s)) = ftable s" "curproc (snd (swap_out page pid va s)) = curproc s"
  "length (swap_area (snd (swap_out page pid va s))) = length (swap_area s)"
  by (simp_all add: swap_out_def split: option.split)

lemma swap_free_fields [simp]:
  "mem (swap_free k s) = mem s" "freelist (swap_free k s) = freelist s"
  "kend (swap_free k s) = kend s" "procs (swap_free k s) = procs s"
  "ftable (swap_free k s) = ftable s" "curproc (swap_free k s) = curproc s"
  "length (swap_area (swap_free k s)) = length (swap_area s)"
  by (simp_all add: swap_free_def)

section \<open>Properties\<close>

text \<open>
  C5. Swap round trip: with a free slot, \<^verbatim>\<open>swap_out\<close> of a page returns a slot that was not in use,
  leaves every other slot and memory alone, and a later \<^verbatim>\<open>swap_in\<close> of that slot into any frame
  puts back exactly the bytes the page had, whatever has happened to memory in between.
\<close>

theorem swap_round_trip:
  fixes s :: "'a vmst_scheme"
  assumes "tables_ok s" "slots_used s < MAX_SWAP_SLOTS" "swap_out page pid va s = (r, s')"
  shows "0 \<le> r \<and> r < int MAX_SWAP_SLOTS \<and> \<not> sl_used (swap_area s ! nat r) \<and> mem s' = mem s \<and>
    (\<forall>j. j \<noteq> nat r \<longrightarrow> swap_area s' ! j = swap_area s ! j) \<and>
    (\<forall>t buf. swap_area t = swap_area s' \<longrightarrow> fst (swap_in r buf t) = 0 \<and>
       load_bytes (mem (snd (swap_in r buf (t :: 'a vmst_scheme)))) buf 4096 = load_bytes (mem s) page 4096)"
  using assms(3)
proof (cases rule: swap_out_cases)
  case full
  with assms(1,2) show ?thesis by (simp add: tables_ok_def)
next
  case (ok i)
  then have "i < MAX_SWAP_SLOTS" using assms(1) by (simp add: tables_ok_def)
  with ok show ?thesis
    using load_store_bytes[of "load_bytes (mem s) page 4096"] by (auto simp: swap_in_def MAX_SWAP_SLOTS_def)
qed

theorem swap_round_trip_witness:
  "fst (swap_out 0x87FFC000 7 0x4000 (boot_vm four_pages)) = 0 \<and>
   load_bytes (mem (snd (swap_in 0 0x80100000 (snd (swap_out 0x87FFC000 7 0x4000 (boot_vm four_pages)))))) 0x80100000 4096 =
   load_bytes (mem four_pages) 0x87FFC000 4096"
proof -
  let ?s = "boot_vm four_pages"
  let ?s' = "snd (swap_out 0x87FFC000 7 0x4000 ?s)"
  have so: "swap_out 0x87FFC000 7 0x4000 ?s = (0, ?s')"
    by (simp add: swap_out_def first_idx_replicate free_slot_def)
  have "slots_used ?s < MAX_SWAP_SLOTS"
    by (simp add: slots_used_def count_if_replicate MAX_SWAP_SLOTS_def free_slot_def)
  from swap_round_trip[OF boot_vm_tables this so] have
    "load_bytes (mem (snd (swap_in 0 0x80100000 ?s'))) 0x80100000 4096 = load_bytes (mem ?s) 0x87FFC000 4096"
    by blast
  then show ?thesis using arg_cong[OF so, of fst] by simp
qed

end
