(* ===== verification/Xv6_Frametable.thy ===== *)
theory Xv6_Frametable
  imports Xv6_Swap
begin

text \<open>
  The frame table and the clock algorithm of \<^verbatim>\<open>kernel/frametable.c\<close>: which user pages are
  resident, and which of them is evicted to the swap area when a frame is needed. The table's own
  lock brackets each operation; \<^verbatim>\<open>clock_evict\<close> drops it before it swaps the page out.
\<close>

section \<open>Operations\<close>

definition find_proc :: "int \<Rightarrow> 'a vmst_scheme \<Rightarrow> nat option" where
  "find_proc pid s = first_idx (\<lambda>p. p_pid p = pid) (procs s)"

definition frametable_init :: "'a vmst_scheme \<Rightarrow> 'a vmst_scheme" where
  "frametable_init s =
     s\<lparr>ftable := map (\<lambda>e. e\<lparr>fr_used := False, fr_pid := -1, fr_va := 0, fr_pa := 0,
                             fr_ref_bit := 0, fr_swap_slot := -1\<rparr>) (ftable s),
       clock_hand := 0\<rparr>"

definition frametable_add :: "u64 \<Rightarrow> int \<Rightarrow> u64 \<Rightarrow> 'a vmst_scheme \<Rightarrow> 'a vmst_scheme" where
  "frametable_add pa pid va s =
     (case first_idx (\<lambda>e. \<not> fr_used e) (ftable s) of
        Some i \<Rightarrow> s\<lparr>ftable := (ftable s)[i :=
                    (ftable s ! i)\<lparr>fr_used := True, fr_pid := pid, fr_va := va, fr_pa := pa,
                                   fr_ref_bit := 1, fr_swap_slot := -1\<rparr>]\<rparr>
      | None \<Rightarrow> s)"

text \<open>An entry taken out of use.\<close>

definition clear_frame :: "frame_entry \<Rightarrow> frame_entry" where
  "clear_frame e = e\<lparr>fr_used := False, fr_pid := -1, fr_va := 0, fr_pa := 0, fr_ref_bit := 0, fr_swap_slot := -1\<rparr>"

definition frametable_remove :: "u64 \<Rightarrow> 'a vmst_scheme \<Rightarrow> 'a vmst_scheme" where
  "frametable_remove pa s =
     (case first_idx (\<lambda>e. fr_used e \<and> fr_pa e = pa) (ftable s) of
        Some i \<Rightarrow> s\<lparr>ftable := (ftable s)[i := clear_frame (ftable s ! i)]\<rparr>
      | None \<Rightarrow> s)"

definition frametable_set_ref :: "u64 \<Rightarrow> 'a vmst_scheme \<Rightarrow> 'a vmst_scheme" where
  "frametable_set_ref pa s =
     (case first_idx (\<lambda>e. fr_used e \<and> fr_pa e = pa) (ftable s) of
        Some i \<Rightarrow> s\<lparr>ftable := (ftable s)[i := (ftable s ! i)\<lparr>fr_ref_bit := 1\<rparr>]\<rparr>
      | None \<Rightarrow> s)"

definition frametable_used :: "'a vmst_scheme \<Rightarrow> nat" where
  "frametable_used s = count_if fr_used (ftable s)"

definition mlfq_level_of :: "int \<Rightarrow> 'a vmst_scheme \<Rightarrow> int" where
  "mlfq_level_of pid s = (case find_proc pid s of Some i \<Rightarrow> p_mlfq_level (procs s ! i) | None \<Rightarrow> 0)"

text \<open>
  The sweep of \<^verbatim>\<open>clock_evict\<close>: \<open>n\<close> counts the passes that are left of
  \<^verbatim>\<open>2 * MAXFRAMES\<close>, \<open>lvl\<close> is \<^verbatim>\<open>mlfq_level_of\<close>, and the state is the table, the hand,
  \<^verbatim>\<open>victim_idx\<close> and \<^verbatim>\<open>victim_level\<close>.
\<close>

fun clock_sweep ::
  "nat \<Rightarrow> (int \<Rightarrow> int) \<Rightarrow> frame_entry list \<times> nat \<times> nat option \<times> int \<Rightarrow> frame_entry list \<times> nat \<times> nat option \<times> int" where
  "clock_sweep 0 lvl st = st"
| "clock_sweep (Suc n) lvl (ft, hand, vidx, vlevel) =
     (let pass = 2 * MAXFRAMES - Suc n;
          i = hand mod MAXFRAMES;
          hand' = (hand + 1) mod MAXFRAMES
      in if \<not> fr_used (ft ! i) then clock_sweep n lvl (ft, hand', vidx, vlevel)
         else if fr_ref_bit (ft ! i) = 1
           then clock_sweep n lvl (ft[i := (ft ! i)\<lparr>fr_ref_bit := 0\<rparr>], hand', vidx, vlevel)
         else let l = lvl (fr_pid (ft ! i));
                  (vidx', vlevel') = (if l > vlevel then (Some i, l) else (vidx, vlevel))
              in if vidx' \<noteq> None \<and> pass \<ge> MAXFRAMES then (ft, hand', vidx', vlevel')
                 else clock_sweep n lvl (ft, hand', vidx', vlevel'))"

definition clock_victim :: "'a vmst_scheme \<Rightarrow> nat option \<times> 'a vmst_scheme" where
  "clock_victim s =
     (case clock_sweep (2 * MAXFRAMES) (\<lambda>pid. mlfq_level_of pid s) (ftable s, clock_hand s, None, -1) of
        (ft, hand, vidx, vlevel) \<Rightarrow>
          ((case vidx of Some i \<Rightarrow> Some i | None \<Rightarrow> first_idx fr_used ft),
           s\<lparr>ftable := ft, clock_hand := hand\<rparr>))"

definition clock_evict :: "'a vmst_scheme \<Rightarrow> (u64 \<times> 'a vmst_scheme) res" where
  "clock_evict s =
     (case clock_victim s of
        (None, s1) \<Rightarrow> Inr (0, s1)
      | (Some i, s1) \<Rightarrow>
          let saved_pid = fr_pid (ftable s1 ! i);
              saved_va = fr_va (ftable s1 ! i);
              saved_pa = fr_pa (ftable s1 ! i);
              s2 = s1\<lparr>ftable := (ftable s1)[i := clear_frame (ftable s1 ! i)]\<rparr>
          in case swap_out saved_pa saved_pid saved_va s2 of (k, s3) \<Rightarrow>
               if k < 0 then Inl (Panic ''clock_evict: swap full'')
               else andthen
                 (case find_proc saved_pid s3 of
                    None \<Rightarrow> Inr s3
                  | Some j \<Rightarrow>
                      andthen (walk (p_pagetable (procs s3 ! j)) saved_va False s3) (\<lambda>(pte, s4).
                        let s5 = (if pte \<noteq> 0 \<and> load64 (mem s4) pte AND PTE_V \<noteq> 0
                                  then s4\<lparr>mem := store64 (mem s4) pte (push_bit 10 (of_int k) OR PTE_SWAPPED)\<rparr>
                                  else s4)
                        in Inr (upd_proc j (\<lambda>p. p\<lparr>p_pages_evicted := p_pages_evicted p + 1,
                                                    p_pages_swapped_out := p_pages_swapped_out p + 1,
                                                    p_resident_pages := p_resident_pages p - 1\<rparr>) s5)))
                 (\<lambda>s6. andthen (kfree saved_pa s6) (\<lambda>s7. Inr (saved_pa, s7))))"

section \<open>The clock sweep\<close>

text \<open>
  The first revolution visits every frame once from the hand on: it takes away the reference bit of
  the referenced frames and keeps the unreferenced one of the highest level. \<open>swept\<close> states this
  for the first \<open>k\<close> frames.
\<close>

definition visited :: "nat \<Rightarrow> nat \<Rightarrow> nat set" where
  "visited h k = (\<lambda>j. (h + j) mod MAXFRAMES) ` {..<k}"

definition unreferenced :: "frame_entry list \<Rightarrow> nat \<Rightarrow> bool" where
  "unreferenced ft i = (fr_used (ft ! i) \<and> fr_ref_bit (ft ! i) \<noteq> 1)"

definition second_chance :: "frame_entry \<Rightarrow> frame_entry" where
  "second_chance e = (if fr_used e \<and> fr_ref_bit e = 1 then e\<lparr>fr_ref_bit := 0\<rparr> else e)"

definition swept ::
  "(int \<Rightarrow> int) \<Rightarrow> frame_entry list \<Rightarrow> nat set \<Rightarrow> frame_entry list \<Rightarrow> nat option \<Rightarrow> int \<Rightarrow> bool" where
  "swept lvl ft V ft' vidx vl =
     (length ft' = length ft \<and>
      (\<forall>i < length ft. ft' ! i = (if i \<in> V then second_chance (ft ! i) else ft ! i)) \<and>
      (case vidx of
         None \<Rightarrow> vl = -1 \<and> (\<forall>j \<in> V. \<not> unreferenced ft j)
       | Some v \<Rightarrow> v \<in> V \<and> unreferenced ft v \<and> vl = lvl (fr_pid (ft ! v)) \<and>
           (\<forall>j \<in> V. unreferenced ft j \<longrightarrow> lvl (fr_pid (ft ! j)) \<le> vl)))"

lemma mod_shift_inj:
  assumes "(h + j) mod n = (h + k) mod n" "j < k" "k < (n :: nat)"
  shows False
proof -
  have "n dvd (h + k) - (h + j)" using assms(1) mod_eq_dvd_iff_nat[of "h + j" "h + k" n] assms(2) by simp
  then have "n dvd k - j" by simp
  with assms(2,3) show False by (auto dest!: dvd_imp_le)
qed

lemma visited_fresh: "k < MAXFRAMES \<Longrightarrow> (h + k) mod MAXFRAMES \<notin> visited h k"
  unfolding visited_def using mod_shift_inj[of h _ MAXFRAMES k] by fastforce

lemma visited_Suc: "visited h (Suc k) = insert ((h + k) mod MAXFRAMES) (visited h k)"
  by (simp add: visited_def lessThan_Suc)

lemma visited_all: "visited h MAXFRAMES = {..<MAXFRAMES}"
proof -
  have "inj_on (\<lambda>j. (h + j) mod MAXFRAMES) {..<MAXFRAMES}"
    by (rule linorder_inj_onI') (use mod_shift_inj[of h _ MAXFRAMES] in auto)
  then have "card (visited h MAXFRAMES) = MAXFRAMES" by (simp add: visited_def card_image)
  moreover have "visited h MAXFRAMES \<subseteq> {..<MAXFRAMES}" by (auto simp: visited_def MAXFRAMES_def)
  ultimately show ?thesis by (metis card_lessThan card_subset_eq finite_lessThan)
qed

lemma first_revolution:
  assumes "length ft = MAXFRAMES" "\<And>pid. lvl pid \<ge> 0" "k \<le> MAXFRAMES"
  shows "\<exists>ft' vidx vl. clock_sweep (2 * MAXFRAMES) lvl (ft, h, None, -1) =
      clock_sweep (2 * MAXFRAMES - k) lvl (ft', (if k = 0 then h else (h + k) mod MAXFRAMES), vidx, vl) \<and>
    swept lvl ft (visited h k) ft' vidx vl"
  using assms(3)
proof (induction k)
  case 0
  show ?case
    by (rule exI[of _ ft], rule exI[of _ None], rule exI[of _ "-1"]) (simp add: swept_def visited_def)
next
  case (Suc k)
  let ?N = MAXFRAMES and ?i = "(h + k) mod MAXFRAMES"
  let ?hd = "if k = 0 then h else (h + k) mod MAXFRAMES"
  obtain ft' vidx vl where IH: "clock_sweep (2 * ?N) lvl (ft, h, None, -1) =
      clock_sweep (2 * ?N - k) lvl (ft', ?hd, vidx, vl)" "swept lvl ft (visited h k) ft' vidx vl"
    using Suc by auto
  have i: "?i < length ft" using assms(1) by (simp add: MAXFRAMES_def)
  have fr: "?i \<notin> visited h k" using visited_fresh Suc.prems by simp
  have same: "ft' ! ?i = ft ! ?i" using IH(2) i fr by (simp add: swept_def)
  have sc: "2 * ?N - k = Suc (2 * ?N - Suc k)" and ps: "\<not> 2 * ?N - Suc (2 * ?N - Suc k) \<ge> ?N"
    using Suc.prems by simp_all
  have hd: "?hd mod ?N = ?i" "(?hd + 1) mod ?N = (h + Suc k) mod ?N"
    by (simp_all add: mod_Suc_eq)
  let ?e = "ft ! ?i" and ?V = "visited h (Suc k)"
  have goal: ?case if "clock_sweep (2 * ?N - k) lvl (ft', ?hd, vidx, vl) =
      clock_sweep (2 * ?N - Suc k) lvl (ft2, (h + Suc k) mod ?N, v2, l2)" "swept lvl ft ?V ft2 v2 l2" for ft2 v2 l2
    using that IH(1) by (intro exI[of _ ft2] exI[of _ v2] exI[of _ l2]) simp
  consider "\<not> fr_used ?e" | "fr_used ?e" "fr_ref_bit ?e = 1" | "fr_used ?e" "fr_ref_bit ?e \<noteq> 1" by blast
  then show ?case
  proof cases
    case 1
    show ?thesis
    proof (rule goal)
      show "clock_sweep (2 * ?N - k) lvl (ft', ?hd, vidx, vl) =
          clock_sweep (2 * ?N - Suc k) lvl (ft', (h + Suc k) mod ?N, vidx, vl)"
        unfolding sc clock_sweep.simps Let_def hd same using 1 by simp
      show "swept lvl ft ?V ft' vidx vl"
        using IH(2) 1 same unfolding swept_def visited_Suc
        by (auto simp: second_chance_def unreferenced_def split: option.splits)
    qed
  next
    case 2
    let ?ft = "ft'[?i := ?e\<lparr>fr_ref_bit := 0\<rparr>]"
    show ?thesis
    proof (rule goal)
      show "clock_sweep (2 * ?N - k) lvl (ft', ?hd, vidx, vl) =
          clock_sweep (2 * ?N - Suc k) lvl (?ft, (h + Suc k) mod ?N, vidx, vl)"
        unfolding sc clock_sweep.simps Let_def hd same using 2 by simp
      show "swept lvl ft ?V ?ft vidx vl"
        using IH(2) 2 i unfolding swept_def visited_Suc
        by (auto simp: second_chance_def unreferenced_def nth_list_update split: option.splits)
    qed
  next
    case 3
    let ?l = "lvl (fr_pid ?e)"
    let ?v = "if ?l > vl then Some ?i else vidx" and ?vl = "if ?l > vl then ?l else vl"
    show ?thesis
    proof (rule goal)
      show "clock_sweep (2 * ?N - k) lvl (ft', ?hd, vidx, vl) =
          clock_sweep (2 * ?N - Suc k) lvl (ft', (h + Suc k) mod ?N, ?v, ?vl)"
        unfolding sc clock_sweep.simps Let_def hd same using 3 ps by simp
      show "swept lvl ft ?V ft' ?v ?vl"
        using IH(2) 3 same assms(2)[of "fr_pid ?e"] unfolding swept_def visited_Suc
        by (auto simp: second_chance_def unreferenced_def split: option.splits)
    qed
  qed
qed

text \<open>
  After it no frame is referenced, and the second revolution looks at the first used frame only.
\<close>

definition first_from :: "frame_entry list \<Rightarrow> nat \<Rightarrow> nat option" where
  "first_from ft h =
     map_option (\<lambda>k. (h + k) mod MAXFRAMES) (first_idx (\<lambda>k. fr_used (ft ! ((h + k) mod MAXFRAMES))) [0..<MAXFRAMES])"

lemma skip_unused:
  assumes "k \<le> MAXFRAMES" "\<And>j. j < k \<Longrightarrow> \<not> fr_used (ft ! ((h + j) mod MAXFRAMES))"
  shows "clock_sweep MAXFRAMES lvl (ft, h, vidx, vl) =
    clock_sweep (MAXFRAMES - k) lvl (ft, (if k = 0 then h else (h + k) mod MAXFRAMES), vidx, vl)"
  using assms
proof (induction k)
  case 0
  then show ?case by simp
next
  case (Suc k)
  let ?hd = "if k = 0 then h else (h + k) mod MAXFRAMES"
  have hd: "?hd mod MAXFRAMES = (h + k) mod MAXFRAMES" "(?hd + 1) mod MAXFRAMES = (h + Suc k) mod MAXFRAMES"
    by (simp_all add: mod_Suc_eq)
  have "MAXFRAMES - k = Suc (MAXFRAMES - Suc k)" using Suc.prems(1) by simp
  then have "clock_sweep (MAXFRAMES - k) lvl (ft, ?hd, vidx, vl) =
      clock_sweep (MAXFRAMES - Suc k) lvl (ft, (h + Suc k) mod MAXFRAMES, vidx, vl)"
    using Suc.prems(2)[of k] by (simp add: Let_def hd del: One_nat_def)
  with Suc show ?case by simp
qed

lemma second_revolution:
  assumes "length ft = MAXFRAMES" "\<And>i. i < MAXFRAMES \<Longrightarrow> fr_used (ft ! i) \<Longrightarrow> fr_ref_bit (ft ! i) \<noteq> 1"
    and "\<And>pid. lvl pid \<ge> 0" "vidx = None \<Longrightarrow> vl = -1"
    and "clock_sweep MAXFRAMES lvl (ft, h, vidx, vl) = (ft', hand', vidx', vl')"
  shows "ft' = ft \<and> hand' < MAXFRAMES \<and>
    vidx' = (case first_from ft h of None \<Rightarrow> vidx
             | Some f \<Rightarrow> if lvl (fr_pid (ft ! f)) > vl then Some f else vidx)"
proof (cases "first_from ft h")
  case None
  then have "\<not> fr_used (ft ! ((h + j) mod MAXFRAMES))" if "j < MAXFRAMES" for j
    using that by (auto simp: first_from_def first_idx_None_iff)
  from skip_unused[OF order_refl this] assms(5) None show ?thesis by (auto simp: MAXFRAMES_def)
next
  case (Some f)
  then obtain k where k: "first_idx (\<lambda>k. fr_used (ft ! ((h + k) mod MAXFRAMES))) [0..<MAXFRAMES] = Some k"
      "f = (h + k) mod MAXFRAMES" by (auto simp: first_from_def)
  have kN: "k < MAXFRAMES" "fr_used (ft ! f)" "\<And>j. j < k \<Longrightarrow> \<not> fr_used (ft ! ((h + j) mod MAXFRAMES))"
    using first_idx_SomeD[OF k(1)] k(2) by auto
  have f: "f < MAXFRAMES" using k(2) by (simp add: MAXFRAMES_def)
  let ?hd = "if k = 0 then h else (h + k) mod MAXFRAMES"
  have "clock_sweep MAXFRAMES lvl (ft, h, vidx, vl) = clock_sweep (MAXFRAMES - k) lvl (ft, ?hd, vidx, vl)"
    using kN by (intro skip_unused) auto
  moreover have "MAXFRAMES - k = Suc (MAXFRAMES - Suc k)" using kN by simp
  moreover have "?hd mod MAXFRAMES = f" using k(2) by simp
  ultimately show ?thesis
    using assms(2)[OF f kN(2)] assms(3)[of "fr_pid (ft ! f)"] assms(4,5) kN(1,2) Some
    by (cases vidx) (auto simp: Let_def MAXFRAMES_def split: if_splits)
qed

lemma second_chance_simps [simp]:
  "fr_used (second_chance e) = fr_used e" "fr_pid (second_chance e) = fr_pid e"
  "fr_va (second_chance e) = fr_va e" "fr_pa (second_chance e) = fr_pa e"
  "fr_used e \<Longrightarrow> fr_ref_bit (second_chance e) \<noteq> 1"
  by (auto simp: second_chance_def)

lemma first_from_second_chance:
  "length ft = MAXFRAMES \<Longrightarrow> first_from (map second_chance ft) h = first_from ft h"
  by (simp add: first_from_def MAXFRAMES_def)

lemma first_from_less: "first_from ft h = Some f \<Longrightarrow> f < MAXFRAMES \<and> fr_used (ft ! f)"
  by (auto simp: first_from_def MAXFRAMES_def dest!: first_idx_SomeD)

lemma first_from_cases:
  assumes "length ft = MAXFRAMES"
  obtains (none) "first_from ft h = None" "\<forall>i < MAXFRAMES. \<not> fr_used (ft ! i)"
    | (some) f where "first_from ft h = Some f" "f < MAXFRAMES" "fr_used (ft ! f)"
proof (cases "first_from ft h")
  case None
  then have nu: "\<not> fr_used (ft ! ((h + j) mod MAXFRAMES))" if "j < MAXFRAMES" for j
    using that by (auto simp: first_from_def first_idx_None_iff)
  have "\<not> fr_used (ft ! i)" if "i < MAXFRAMES" for i
  proof -
    have "i \<in> visited h MAXFRAMES" using that by (simp add: visited_all)
    then obtain j where "j < MAXFRAMES" "i = (h + j) mod MAXFRAMES" by (auto simp: visited_def)
    with nu show ?thesis by simp
  qed
  with None show ?thesis by (intro none) simp_all
next
  case (Some f)
  with first_from_less show ?thesis by (intro some[of f]) auto
qed

definition levels_ok :: "'a vmst_scheme \<Rightarrow> bool" where
  "levels_ok s = (\<forall>p \<in> set (procs s). 0 \<le> p_mlfq_level p \<and> p_mlfq_level p < 4)"

lemma mlfq_level_of_nonneg: "levels_ok s \<Longrightarrow> mlfq_level_of pid s \<ge> 0"
  unfolding mlfq_level_of_def levels_ok_def find_proc_def
  by (auto split: option.split dest!: first_idx_less)

abbreviation frame_level :: "'a vmst_scheme \<Rightarrow> nat \<Rightarrow> int" where
  "frame_level s i \<equiv> mlfq_level_of (fr_pid (ftable s ! i)) s"

text \<open>
  The victim, exactly: the unreferenced frame that the first revolution kept, unless the first used
  frame after the hand has a strictly higher level.
\<close>

lemma clock_victim_exact:
  assumes "tables_ok s" "levels_ok s"
  shows "\<exists>best bl h. swept (\<lambda>pid. mlfq_level_of pid s) (ftable s) {..<MAXFRAMES} (map second_chance (ftable s)) best bl \<and>
    h < MAXFRAMES \<and>
    clock_victim s =
      ((case first_from (ftable s) (clock_hand s) of None \<Rightarrow> None
        | Some f \<Rightarrow> if frame_level s f > bl then Some f else best),
       s\<lparr>ftable := map second_chance (ftable s), clock_hand := h\<rparr>)"
proof -
  let ?lvl = "\<lambda>pid. mlfq_level_of pid s" and ?ft = "ftable s" and ?h = "clock_hand s"
  let ?ft2 = "map second_chance ?ft"
  have len: "length ?ft = MAXFRAMES" and hd: "(?h + MAXFRAMES) mod MAXFRAMES = ?h"
    using assms(1) by (simp_all add: tables_ok_def)
  have nn: "\<And>pid. ?lvl pid \<ge> 0" using mlfq_level_of_nonneg[OF assms(2)] .
  have N0: "MAXFRAMES \<noteq> 0" by (simp add: MAXFRAMES_def)
  obtain ft1 best bl where fr: "clock_sweep (2 * MAXFRAMES) ?lvl (?ft, ?h, None, -1) =
      clock_sweep MAXFRAMES ?lvl (ft1, ?h, best, bl)" "swept ?lvl ?ft {..<MAXFRAMES} ft1 best bl"
    using first_revolution[where lvl = ?lvl and h = ?h, OF len nn order_refl] N0 hd unfolding visited_all by auto
  have ft1: "ft1 = ?ft2"
    using fr(2) len by (intro nth_equalityI) (auto simp: swept_def)
  obtain ft3 h3 v3 l3 where sw: "clock_sweep MAXFRAMES ?lvl (?ft2, ?h, best, bl) = (ft3, h3, v3, l3)"
    by (metis prod_cases4)
  have "ft3 = ?ft2 \<and> h3 < MAXFRAMES \<and> v3 = (case first_from ?ft2 ?h of None \<Rightarrow> best
      | Some f \<Rightarrow> if ?lvl (fr_pid (?ft2 ! f)) > bl then Some f else best)"
  proof (rule second_revolution[where lvl = ?lvl, OF _ _ nn _ sw])
    show "best = None \<Longrightarrow> bl = -1" using fr(2) by (simp add: swept_def)
    show "fr_ref_bit (?ft2 ! i) \<noteq> 1" if "i < MAXFRAMES" "fr_used (?ft2 ! i)" for i
      using that len by simp
  qed (use len in simp)
  moreover have "fr_pid (?ft2 ! f) = fr_pid (?ft ! f)" if "first_from ?ft ?h = Some f" for f
    using first_from_less[OF that] len by simp
  ultimately have r: "ft3 = ?ft2" "h3 < MAXFRAMES" "v3 = (case first_from ?ft ?h of None \<Rightarrow> best
      | Some f \<Rightarrow> if frame_level s f > bl then Some f else best)"
    unfolding first_from_second_chance[OF len] by (simp_all split: option.splits)
  have cs: "clock_sweep (2 * MAXFRAMES) ?lvl (?ft, ?h, None, -1) = (?ft2, h3, v3, l3)"
    using fr(1) sw unfolding ft1 r(1) by simp
  have "(case v3 of Some i \<Rightarrow> Some i | None \<Rightarrow> first_idx fr_used ?ft2) =
     (case first_from ?ft ?h of None \<Rightarrow> None | Some f \<Rightarrow> if frame_level s f > bl then Some f else best)"
    using len
  proof (cases rule: first_from_cases[of ?ft ?h])
    case none
    then have "best = None" using fr(2) by (auto simp: swept_def unreferenced_def split: option.splits)
    moreover have "first_idx fr_used ?ft2 = None"
      using none(2) len by (auto simp: first_idx_None_iff in_set_conv_nth)
    ultimately show ?thesis using none(1) r(3) by simp
  next
    case (some f)
    have "best = None \<Longrightarrow> bl = -1" using fr(2) by (simp add: swept_def)
    then show ?thesis using r(3) some(1) nn[of "fr_pid (?ft ! f)"] by (cases best) auto
  qed
  then have "clock_victim s = ((case first_from ?ft ?h of None \<Rightarrow> None | Some f \<Rightarrow> if frame_level s f > bl then Some f else best),
      s\<lparr>ftable := ?ft2, clock_hand := h3\<rparr>)"
    unfolding clock_victim_def cs by simp
  with fr(2) r(2) show ?thesis unfolding ft1 by blast
qed

section \<open>Entering and removing frames\<close>

definition frame_put :: "u64 \<times> int \<times> u64 \<Rightarrow> 'a vmst_scheme \<Rightarrow> nat option \<times> 'a vmst_scheme" where
  "frame_put = (\<lambda>(pa, pid, va) s. (first_idx (\<lambda>e. \<not> fr_used e) (ftable s), frametable_add pa pid va s))"

interpretation fr: slot_table fr_used ftable frame_put
proof (unfold_locales, goal_cases)
  case (1 s a)
  then show ?case by (cases a) (simp add: frame_put_def frametable_add_def)
next
  case (2 s i a)
  then show ?case by (cases a) (fastforce simp: frame_put_def frametable_add_def)
qed

lemma frametable_add_used:
  "frametable_used s < length (ftable s) \<Longrightarrow> frametable_used (frametable_add pa pid va s) = Suc (frametable_used s)"
  using fr.put_fails_iff[of "(pa, pid, va)" s] fr.put_counts[of "(pa, pid, va)" s]
  by (fastforce simp: frametable_used_def frame_put_def)

lemma frametable_add_full:
  "frametable_used s = length (ftable s) \<Longrightarrow> frametable_add pa pid va s = s"
proof -
  assume "frametable_used s = length (ftable s)"
  then have "first_idx (\<lambda>e. \<not> fr_used e) (ftable s) = None"
    by (simp add: frametable_used_def count_if_full first_idx_None_iff)
  then show ?thesis by (simp add: frametable_add_def)
qed

lemma frametable_add_fields [simp]:
  "mem (frametable_add pa pid va s) = mem s" "freelist (frametable_add pa pid va s) = freelist s"
  "kend (frametable_add pa pid va s) = kend s" "procs (frametable_add pa pid va s) = procs s"
  "swap_area (frametable_add pa pid va s) = swap_area s" "curproc (frametable_add pa pid va s) = curproc s"
  "clock_hand (frametable_add pa pid va s) = clock_hand s"
  "length (ftable (frametable_add pa pid va s)) = length (ftable s)"
  by (simp_all add: frametable_add_def split: option.split)

lemma frametable_remove_fields [simp]:
  "mem (frametable_remove pa s) = mem s" "freelist (frametable_remove pa s) = freelist s"
  "kend (frametable_remove pa s) = kend s" "procs (frametable_remove pa s) = procs s"
  "swap_area (frametable_remove pa s) = swap_area s" "curproc (frametable_remove pa s) = curproc s"
  "clock_hand (frametable_remove pa s) = clock_hand s"
  "length (ftable (frametable_remove pa s)) = length (ftable s)"
  by (simp_all add: frametable_remove_def split: option.split)

lemma kfree_vm_fields:
  assumes "kfree p s = Inr s'"
  shows "procs s' = procs s" "swap_area s' = swap_area s" "ftable s' = ftable s" "clock_hand s' = clock_hand s"
    "curproc s' = curproc s" "initproc s' = initproc s" "nextpid s' = nextpid s"
    "trampoline_pa s' = trampoline_pa s" "etext_pa s' = etext_pa s" "kend s' = kend s"
  using assms by (auto simp: kfree_def Let_def split: if_splits)

section \<open>The effect of an eviction\<close>

text \<open>
  What \<open>clock_evict\<close> does to the page of frame \<open>i\<close>: the page's bytes are in a swap slot that was
  free, the owner's leaf entry names that slot, no other leaf entry has changed, and the page is free.
\<close>

definition evicted :: "'a vmst_scheme \<Rightarrow> 'a vmst_scheme \<Rightarrow> nat \<Rightarrow> u64 \<Rightarrow> u64 list \<Rightarrow> nat \<Rightarrow> bool" where
  "evicted s s' i pt ps k =
     (let e = ftable s ! i in
      k < MAX_SWAP_SLOTS \<and> \<not> sl_used (swap_area s ! k) \<and>
      swap_area s' = (swap_area s)[k := \<lparr>sl_used = True, sl_pid = fr_pid e, sl_va = fr_va e,
                                        sl_data = load_bytes (mem s) (fr_pa e) 4096\<rparr>] \<and>
      leaf (mem s') pt (fr_va e) = swap_pte k \<and>
      (\<forall>vb < MAXVA. PGROUNDDOWN vb \<noteq> PGROUNDDOWN (fr_va e) \<longrightarrow> leaf (mem s') pt vb = leaf (mem s) pt vb) \<and>
      pt_inv s' 2 pt (fr_pa e # ps) \<and> pgs (mem s') 2 pt = pgs (mem s) 2 pt \<and>
      ftable s' = (map second_chance (ftable s))[i := clear_frame (second_chance e)])"

text \<open>The frame \<open>i\<close> is a page of process \<open>j\<close>, mapped where the table says.\<close>

definition frame_ok :: "'a vmst_scheme \<Rightarrow> nat \<Rightarrow> nat \<Rightarrow> u64 list \<Rightarrow> bool" where
  "frame_ok s i j ps =
     (let e = ftable s ! i; pt = p_pagetable (procs s ! j) in
      find_proc (fr_pid e) s = Some j \<and> pt_inv s 2 pt ps \<and> fr_va e < MAXVA \<and>
      bit (leaf (mem s) pt (fr_va e)) 0 \<and> valid_page s (fr_pa e) \<and>
      fr_pa e \<notin> set ps \<and> fr_pa e \<notin> pgs (mem s) 2 pt)"

lemma slot_all_fields:
  "(e :: swap_slot)\<lparr>sl_used := a, sl_pid := b, sl_va := c, sl_data := d\<rparr> =
   \<lparr>sl_used = a, sl_pid = b, sl_va = c, sl_data = d\<rparr>"
  by (cases e) simp

lemma walk_valid_leaf:
  assumes "pt_inv s 2 pt ps" "va < MAXVA" "leaf (mem s) pt va \<noteq> 0"
  obtains a where "walk pt va False s = Inr (a, s)" "a \<noteq> 0" "pte_slot (mem s) 2 pt va = Some a"
    "load64 (mem s) a = leaf (mem s) pt va"
proof (cases "pte_slot (mem s) 2 pt va")
  case None
  with assms(3) show ?thesis by (simp add: leaf_at_def)
next
  case (Some a)
  with assms slot_nonzero[OF assms(1) Some] show ?thesis
    by (intro that[of a]) (simp_all add: walk_lookup leaf_at_slot)
qed

lemma clock_evict_effect:
  assumes "tables_ok s" "slots_used s < MAX_SWAP_SLOTS"
    and v: "clock_victim s = (Some i, s\<lparr>ftable := map second_chance (ftable s), clock_hand := h\<rparr>)" "i < MAXFRAMES"
    and ok: "frame_ok s i j ps" and pt: "pt = p_pagetable (procs s ! j)"
  shows "\<exists>k s'. clock_evict s = Inr (fr_pa (ftable s ! i), s') \<and> evicted s s' i pt ps k \<and>
    procs s' = procs (upd_proc j (\<lambda>p. p\<lparr>p_pages_evicted := p_pages_evicted p + 1,
        p_pages_swapped_out := p_pages_swapped_out p + 1, p_resident_pages := p_resident_pages p - 1\<rparr>) s) \<and>
    curproc s' = curproc s \<and> kend s' = kend s"
proof -
  let ?e = "ftable s ! i"
  define s2 where "s2 = s\<lparr>ftable := (map second_chance (ftable s))[i := clear_frame (second_chance ?e)], clock_hand := h\<rparr>"
  let ?pa = "fr_pa ?e" and ?va = "fr_va ?e" and ?pid = "fr_pid ?e"
  have len: "i < length (ftable s)" using assms(1) v(2) by (simp add: tables_ok_def)
  have o: "find_proc ?pid s = Some j" "pt_inv s 2 pt ps" "?va < MAXVA" "bit (leaf (mem s) pt ?va) 0"
      "valid_page s ?pa" "?pa \<notin> set ps" "?pa \<notin> pgs (mem s) 2 pt"
    using ok by (simp_all add: frame_ok_def Let_def pt)
  obtain r s3 where so: "swap_out ?pa ?pid ?va s2 = (r, s3)" by fastforce
  from so obtain k where k: "r = int k" "k < MAX_SWAP_SLOTS" "\<not> sl_used (swap_area s ! k)"
      "s3 = s2\<lparr>swap_area := (swap_area s)[k := \<lparr>sl_used = True, sl_pid = ?pid, sl_va = ?va,
                                        sl_data = load_bytes (mem s) ?pa 4096\<rparr>]\<rparr>"
  proof (cases rule: swap_out_cases)
    case full
    then show ?thesis using assms(1,2) by (simp add: slots_used_def s2_def tables_ok_def)
  next
    case (ok k)
    then show ?thesis using assms(1) by (intro that[of k]) (simp_all add: s2_def tables_ok_def slot_all_fields)
  qed
  have inv3: "pt_inv s3 2 pt ps" using o(2) by (subst pt_inv_cong[of _ s]) (simp_all add: k s2_def)
  have lf3: "leaf (mem s3) pt vb = leaf (mem s) pt vb" for vb by (simp add: k s2_def)
  obtain a where a: "walk pt ?va False s3 = Inr (a, s3)" "a \<noteq> 0" "pte_slot (mem s3) 2 pt ?va = Some a"
      "load64 (mem s3) a = leaf (mem s3) pt ?va"
    by (rule walk_valid_leaf[OF inv3 o(3)]) (use o(4) lf3 in auto)
  define s5 where "s5 = s3\<lparr>mem := store64 (mem s3) a (swap_pte k)\<rparr>"
  let ?f = "\<lambda>p. p\<lparr>p_pages_evicted := p_pages_evicted p + 1,
        p_pages_swapped_out := p_pages_swapped_out p + 1, p_resident_pages := p_resident_pages p - 1\<rparr>"
  have st: "pt_inv s5 2 pt ps" "leaf_set s3 s5 2 pt ?va (swap_pte k)"
    unfolding s5_def using store_leaf[OF inv3 a(3), of "swap_pte k"] by blast+
  then have pg: "pgs (mem s5) 2 pt = pgs (mem s) 2 pt" by (simp add: leaf_set_def k s2_def)
  let ?s6 = "upd_proc j ?f s5"
  have "pt_inv ?s6 2 pt ps" using st(1) by (subst pt_inv_cong[of _ s5]) simp_all
  moreover have "valid_page ?s6 ?pa" using o(5) by (simp add: valid_page_def s5_def k s2_def)
  ultimately obtain s7 where s7: "kfree ?pa ?s6 = Inr s7" "pt_inv s7 2 pt (?pa # ps)"
      "pgs (mem s7) 2 pt = pgs (mem s5) 2 pt" "\<And>vb. leaf (mem s7) pt vb = leaf (mem s5) pt vb"
    using pt_inv_kfree[of ?s6 2 pt ps ?pa] o(6,7) pg by auto
  have fp: "find_proc ?pid s3 = Some j" "p_pagetable (procs s3 ! j) = pt"
    using o(1) by (simp_all add: find_proc_def k s2_def pt)
  define s1 where "s1 = s\<lparr>ftable := map second_chance (ftable s), clock_hand := h\<rparr>"
  have s1: "clock_victim s = (Some i, s1)" "fr_pid (ftable s1 ! i) = ?pid" "fr_va (ftable s1 ! i) = ?va"
      "fr_pa (ftable s1 ! i) = ?pa" "s1\<lparr>ftable := (ftable s1)[i := clear_frame (ftable s1 ! i)]\<rparr> = s2"
    using v(1) len by (simp_all add: s1_def s2_def)
  have pte: "load64 (mem s3) a AND PTE_V \<noteq> 0" using o(4) a(4) lf3 by (simp add: flag_test)
  have ce: "clock_evict s = Inr (?pa, s7)"
    using s7(1) a(2) pte
    by (simp add: clock_evict_def s1 so k(1) fp a(1) s5_def swap_pte_def)
  have lf: "leaf (mem s7) pt vb = (if same_path 2 ?va vb then swap_pte k else leaf (mem s) pt vb)" for vb
    using st(2) lf3 s7(4) by (simp add: leaf_set_def)
  note kf = kfree_vm_fields[OF s7(1)]
  have "evicted s s7 i pt ps k"
    unfolding evicted_def Let_def
    using k s7(2,3) pg lf same_path_2[OF o(3)] kf(2,3) by (auto simp: s5_def s2_def same_path_def)
  moreover have "procs s7 = procs (upd_proc j ?f s)" "curproc s7 = curproc s" "kend s7 = kend s"
    using kf(1,5,10) by (simp_all add: upd_proc_def s5_def k s2_def)
  ultimately show ?thesis using ce by blast
qed

section \<open>An example\<close>

text \<open>
  A process 5 with one resident page at \<^verbatim>\<open>0x5000\<close>, built with the kernel's own operations.
\<close>

definition example_vm :: vmst where
  "example_vm =
     (let (pa, s1) = kalloc (boot_vm four_pages); (pt, s2) = uvmcreate s1
      in case mappages pt 0x5000 0x1000 pa (PTE_R OR PTE_W OR PTE_U) s2 of
           Inr (_, s3) \<Rightarrow> s3\<lparr>procs := (procs s3)[0 := free_proc\<lparr>p_pid := 5, p_state := RUNNABLE, p_sz := 0x8000, p_pagetable := pt\<rparr>],
                              ftable := (ftable s3)[0 := free_frame\<lparr>fr_used := True, fr_pid := 5, fr_va := 0x5000, fr_pa := pa, fr_ref_bit := 1\<rparr>],
                              curproc := Some 0\<rparr>
         | Inl _ \<Rightarrow> s2)"

definition example_proc :: proc where
  "example_proc = free_proc\<lparr>p_pid := 5, p_state := RUNNABLE, p_sz := 0x8000, p_pagetable := 0x87FFD000\<rparr>"

definition example_frame :: frame_entry where
  "example_frame = free_frame\<lparr>fr_used := True, fr_pid := 5, fr_va := 0x5000, fr_pa := 0x87FFC000, fr_ref_bit := 1\<rparr>"

lemma example_vm_state:
  "procs example_vm = (replicate 64 free_proc)[0 := example_proc]"
  "ftable example_vm = (replicate 128 free_frame)[0 := example_frame]"
  "swap_area example_vm = replicate 512 free_slot" "clock_hand example_vm = 0" "curproc example_vm = Some 0"
  "kend example_vm = 0x80021000" "\<exists>rest. pt_inv example_vm 2 0x87FFD000 rest \<and> set rest \<subseteq> {0x87FFE000, 0x87FFF000}"
  "pgs (mem example_vm) 2 0x87FFD000 \<subseteq> {0x87FFD000, 0x87FFE000, 0x87FFF000}"
  "leaf (mem example_vm) 0x87FFD000 0x5000 = PA2PTE 0x87FFC000 OR (PTE_R OR PTE_W OR PTE_U) OR PTE_V"
  "\<And>va. page_aligned va \<Longrightarrow> va < MAXVA \<Longrightarrow> va \<noteq> 0x5000 \<Longrightarrow> leaf (mem example_vm) 0x87FFD000 va = 0"
proof -
  let ?b = "boot_vm four_pages" and ?perm = "PTE_R OR PTE_W OR PTE_U"
  have fl: "free_list ?b [0x87FFC000, 0x87FFD000, 0x87FFE000, 0x87FFF000]"
    using four_pages_free by (simp add: free_list_def valid_page_def)
  define s1 where "s1 = snd (kalloc ?b)"
  have k1: "kalloc ?b = (0x87FFC000, s1)" "free_list s1 [0x87FFD000, 0x87FFE000, 0x87FFF000]"
      "kend s1 = kend ?b" "kmem.more s1 = kmem.more ?b"
    using kalloc_Cons[OF fl] kalloc_fields[of ?b] by (simp_all add: s1_def)
  obtain s2 where s2: "uvmcreate s1 = (0x87FFD000, s2)" "pt_inv s2 2 0x87FFD000 [0x87FFE000, 0x87FFF000]"
      "\<forall>va. leaf (mem s2) 0x87FFD000 va = 0" "pgs (mem s2) 2 0x87FFD000 = {0x87FFD000}"
      "kend s2 = kend s1" "kmem.more s2 = kmem.more s1"
    using uvmcreate_fresh[OF k1(2)] by blast
  have al: "page_aligned 0x5000" "page_aligned 0x1000" by (simp_all add: page_aligned_unat)
  obtain r s3 used rest where s3: "mappages 0x87FFD000 0x5000 0x1000 0x87FFC000 ?perm s2 = Inr (r, s3)"
      "[0x87FFE000, 0x87FFF000] = used @ rest" "pt_inv s3 2 0x87FFD000 rest" "pt_frame s2 s3 0x87FFD000 used"
      "mapped_range (mem s2) (mem s3) 0x87FFD000 0x5000 1 0x87FFC000 ?perm r" "r = 0 \<or> rest = [] \<and> length used < 2"
    using mappages_spec[OF s2(2) al, of "0x87FFC000" ?perm] s2(3) by (auto simp: MAXVA_def)
  have "r = 0" using s3(6) arg_cong[OF s3(2), of length] by auto
  note s3 = s3[unfolded this]
  have sub: "set used \<subseteq> {0x87FFE000, 0x87FFF000}" "set rest \<subseteq> {0x87FFE000, 0x87FFF000}"
    using arg_cong[OF s3(2), of set] by auto
  have ex: "example_vm = s3\<lparr>procs := (procs s3)[0 := example_proc],
      ftable := (ftable s3)[0 := example_frame], curproc := Some 0\<rparr>"
    using k1(1) s2(1) s3(1) by (simp add: example_vm_def example_proc_def example_frame_def)
  have m3: "kmem.more s3 = kmem.more ?b" "kend s3 = kend ?b"
    using s3(4) s2(5,6) k1(3,4) by (simp_all add: pt_frame_def)
  note t = kmem_more_tables[OF m3(1)]
  show "procs example_vm = (replicate 64 free_proc)[0 := example_proc]"
    "ftable example_vm = (replicate 128 free_frame)[0 := example_frame]"
    "swap_area example_vm = replicate 512 free_slot" "clock_hand example_vm = 0" "curproc example_vm = Some 0"
    "kend example_vm = 0x80021000"
    using t m3(2) by (simp_all add: ex four_pages_def)
  have "pt_inv example_vm 2 0x87FFD000 rest" using s3(3) by (subst pt_inv_cong[of _ s3]) (simp_all add: ex)
  then show "\<exists>rest. pt_inv example_vm 2 0x87FFD000 rest \<and> set rest \<subseteq> {0x87FFE000, 0x87FFF000}"
    using sub(2) by blast
  show "pgs (mem example_vm) 2 0x87FFD000 \<subseteq> {0x87FFD000, 0x87FFE000, 0x87FFF000}"
    using s3(4) s2(4) sub(1) by (auto simp: pt_frame_def ex)
  have "in_range 0x5000 1 0x5000" "(0x5000 :: u64) < MAXVA" by (simp_all add: in_range_def MAXVA_def)
  then show "leaf (mem example_vm) 0x87FFD000 0x5000 = PA2PTE 0x87FFC000 OR ?perm OR PTE_V"
    using mapped_range_all[OF s3(5), of "0x5000"] by (simp add: ex mapped_pte_def)
  fix va :: u64
  assume va: "page_aligned va" "va < MAXVA" "va \<noteq> 0x5000"
  have "\<not> in_range 0x5000 1 va"
  proof
    assume "in_range 0x5000 1 va"
    then have "unat va = 0x5000" using va(1) by (auto simp: in_range_def page_aligned_unat)
    then show False using va(3) by (simp add: word_unat_eq_iff)
  qed
  then show "leaf (mem example_vm) 0x87FFD000 va = 0"
    using mapped_range_all[OF s3(5) va(2)] s2(3) by (simp add: ex)
qed

lemma example_vm_ok:
  "tables_ok example_vm" "levels_ok example_vm" "slots_used example_vm < MAX_SWAP_SLOTS"
  "\<exists>rest. frame_ok example_vm 0 0 rest \<and> set rest \<subseteq> {0x87FFE000, 0x87FFF000}"
proof -
  show "tables_ok example_vm"
    by (simp add: tables_ok_def example_vm_state MAX_SWAP_SLOTS_def MAXFRAMES_def NPROC_def free_slot_def)
  show "levels_ok example_vm"
    by (auto simp: levels_ok_def example_vm_state free_proc_def example_proc_def dest!: subsetD[OF set_update_subset_insert])
  show "slots_used example_vm < MAX_SWAP_SLOTS"
    by (simp add: slots_used_def example_vm_state MAX_SWAP_SLOTS_def count_if_replicate free_slot_def)
  obtain rest where r: "pt_inv example_vm 2 0x87FFD000 rest" "set rest \<subseteq> {0x87FFE000, 0x87FFF000}"
    using example_vm_state by blast
  have "find_proc 5 example_vm = Some 0"
    unfolding find_proc_def example_vm_state by (rule first_idx_SomeI) (simp_all add: example_proc_def)
  moreover have "0x87FFC000 \<notin> pgs (mem example_vm) 2 0x87FFD000" using example_vm_state(8) by auto
  ultimately have "frame_ok example_vm 0 0 rest"
    using r
    by (auto simp: frame_ok_def Let_def example_vm_state example_frame_def example_proc_def valid_page_def
        page_aligned_unat layout_defs bit_or_iff bit_facts)
  then show "\<exists>rest. frame_ok example_vm 0 0 rest \<and> set rest \<subseteq> {0x87FFE000, 0x87FFF000}" using r(2) by blast
qed

lemma clock_victim_less:
  assumes "tables_ok s" "levels_ok s" "clock_victim s = (Some i, s1)"
  shows "i < MAXFRAMES"
proof -
  obtain best bl where "swept (\<lambda>pid. mlfq_level_of pid s) (ftable s) {..<MAXFRAMES} (map second_chance (ftable s)) best bl"
      "Some i = (case first_from (ftable s) (clock_hand s) of None \<Rightarrow> None
        | Some f \<Rightarrow> if frame_level s f > bl then Some f else best)"
    using clock_victim_exact[OF assms(1,2)] assms(3) by auto
  then show ?thesis using first_from_less[of "ftable s" "clock_hand s"]
    by (auto simp: swept_def split: option.splits if_splits)
qed

lemma example_victim: "fst (clock_victim example_vm) = Some 0"
proof -
  have ff: "first_from (ftable example_vm) (clock_hand example_vm) = Some 0"
  proof -
    have "first_idx (\<lambda>k. fr_used (ftable example_vm ! ((clock_hand example_vm + k) mod MAXFRAMES))) [0..<MAXFRAMES] = Some 0"
      by (rule first_idx_SomeI) (simp_all add: example_vm_state MAXFRAMES_def example_frame_def)
    then show ?thesis by (simp add: first_from_def example_vm_state)
  qed
  have un: "\<not> unreferenced (ftable example_vm) j" if "j < MAXFRAMES" for j
    using that by (auto simp: unreferenced_def example_vm_state nth_list_update example_frame_def free_frame_def MAXFRAMES_def)
  obtain best bl where e: "swept (\<lambda>pid. mlfq_level_of pid example_vm) (ftable example_vm) {..<MAXFRAMES} (map second_chance (ftable example_vm)) best bl"
      "fst (clock_victim example_vm) = (if frame_level example_vm 0 > bl then Some 0 else best)"
    using clock_victim_exact[OF example_vm_ok(1,2)] ff by auto
  have "best = None" "bl = -1" using e(1) un by (auto simp: swept_def split: option.splits)
  then show ?thesis using e(2) mlfq_level_of_nonneg[OF example_vm_ok(2), of "fr_pid (ftable example_vm ! 0)"] by simp
qed

text \<open>
  A referenced frame can be evicted although an unreferenced one exists: here frame 0 was referenced
  and frame 1 was not, and frame 0 is the victim because its process runs at level 3.
\<close>

definition tie_vm :: vmst where
  "tie_vm = (boot_vm four_pages)\<lparr>
     procs := (replicate 64 free_proc)[0 := free_proc\<lparr>p_pid := 5, p_mlfq_level := 3\<rparr>, 1 := free_proc\<lparr>p_pid := 6\<rparr>],
     ftable := (replicate 128 free_frame)[0 := free_frame\<lparr>fr_used := True, fr_pid := 5, fr_ref_bit := 1\<rparr>,
                                          1 := free_frame\<lparr>fr_used := True, fr_pid := 6\<rparr>]\<rparr>"

lemma clock_evicts_referenced:
  "fr_ref_bit (ftable tie_vm ! 0) = 1" "unreferenced (ftable tie_vm) 1" "fst (clock_victim tie_vm) = Some 0"
proof -
  show "fr_ref_bit (ftable tie_vm ! 0) = 1" by (simp add: tie_vm_def)
  show u1: "unreferenced (ftable tie_vm) 1" by (simp add: tie_vm_def unreferenced_def free_frame_def)
  have ok: "tables_ok tie_vm" "levels_ok tie_vm"
    by (auto simp: tie_vm_def tables_ok_def levels_ok_def MAX_SWAP_SLOTS_def MAXFRAMES_def NPROC_def free_slot_def
        free_proc_def dest!: subsetD[OF set_update_subset_insert])
  have fp: "find_proc 5 tie_vm = Some 0" "find_proc 6 tie_vm = Some 1"
    unfolding find_proc_def tie_vm_def by (rule first_idx_SomeI; simp add: free_proc_def)+
  then have lv: "frame_level tie_vm 0 = 3" "frame_level tie_vm 1 = 0"
    by (simp_all add: mlfq_level_of_def) (simp_all add: tie_vm_def mlfq_level_of_def free_proc_def)
  have un: "unreferenced (ftable tie_vm) j \<Longrightarrow> j = 1" if "j < MAXFRAMES" for j
    using that by (auto simp: unreferenced_def tie_vm_def nth_list_update free_frame_def MAXFRAMES_def split: if_splits)
  have "first_idx (\<lambda>k. fr_used (ftable tie_vm ! ((clock_hand tie_vm + k) mod MAXFRAMES))) [0..<MAXFRAMES] = Some 0"
    by (rule first_idx_SomeI) (simp_all add: tie_vm_def MAXFRAMES_def)
  then have ff: "first_from (ftable tie_vm) (clock_hand tie_vm) = Some 0" by (simp add: first_from_def tie_vm_def)
  obtain best bl where e: "swept (\<lambda>pid. mlfq_level_of pid tie_vm) (ftable tie_vm) {..<MAXFRAMES} (map second_chance (ftable tie_vm)) best bl"
      "fst (clock_victim tie_vm) = (if frame_level tie_vm 0 > bl then Some 0 else best)"
    using clock_victim_exact[OF ok] ff by auto
  have "bl = 0" using e(1) u1 un lv by (auto simp: swept_def MAXFRAMES_def split: option.splits)
  then show "fst (clock_victim tie_vm) = Some 0" using e(2) lv by simp
qed

section \<open>Properties\<close>



text \<open>
  C7. Eviction saves the page: when a swap slot is free and the victim's frame entry is right,
  \<^verbatim>\<open>clock_evict\<close> does not panic, stores the page's bytes in a slot that was free and leaves the
  other slots alone, makes the owner's leaf entry name that slot, changes no other leaf entry of the
  owner, gives the page back to the allocator, and keeps the owner's page table well formed.
\<close>

theorem clock_evict_saves_page:
  assumes "tables_ok s" "levels_ok s" "slots_used s < MAX_SWAP_SLOTS" "fst (clock_victim s) = Some i"
    and "frame_ok s i j ps" "pt = p_pagetable (procs s ! j)"
  shows "\<exists>k s'. clock_evict s = Inr (fr_pa (ftable s ! i), s') \<and> evicted s s' i pt ps k"
proof -
  obtain s1 where s1: "clock_victim s = (Some i, s1)" using assms(4) by (metis prod.collapse)
  obtain h where h: "s1 = s\<lparr>ftable := map second_chance (ftable s), clock_hand := h\<rparr>"
    using clock_victim_exact[OF assms(1,2)] s1 by auto
  have "i < MAXFRAMES" using clock_victim_less[OF assms(1,2) s1] .
  with clock_evict_effect[OF assms(1,3) _ _ assms(5,6)] s1 h show ?thesis by blast
qed

theorem clock_evict_saves_page_witness:
  "\<exists>k s' ps. clock_evict example_vm = Inr (0x87FFC000, s') \<and> evicted example_vm s' 0 0x87FFD000 ps k"
proof -
  obtain ps where "frame_ok example_vm 0 0 ps" using example_vm_ok(4) by blast
  from clock_evict_saves_page[OF example_vm_ok(1-3) example_victim this refl] show ?thesis
    by (auto simp: example_vm_state example_proc_def example_frame_def)
qed

end
