(* ===== verification/Xv6_Vm.thy ===== *)
theory Xv6_Vm
  imports Xv6_Frametable
begin

text \<open>
  User virtual memory, the rest of \<^verbatim>\<open>kernel/vm.c\<close>: unmapping, growing and shrinking, copying
  and freeing an address space, the copies between user and kernel memory, and the page faults that
  allocate lazily or bring a page back from swap.

  The kernel side of \<^verbatim>\<open>copyout\<close>, \<^verbatim>\<open>copyin\<close> and \<^verbatim>\<open>copyinstr\<close> is a list of bytes,
  since it is a kernel object of its own. A null dereference traps into the kernel, which panics
  with \<^verbatim>\<open>kerneltrap\<close>.
\<close>

section \<open>Unmapping and resizing\<close>

definition uvmunmap_page :: "u64 \<Rightarrow> u64 \<Rightarrow> bool \<Rightarrow> 'a vmst_scheme \<Rightarrow> 'a vmst_scheme res" where
  "uvmunmap_page pagetable a do_free s =
     andthen (walk pagetable a False s) (\<lambda>(pte, s).
       if pte = 0 then Inr s
       else let v = load64 (mem s) pte in
         if v AND PTE_V = 0 then
           if v AND PTE_SWAPPED \<noteq> 0
             then let s1 = swap_free (PTE_SWAP_SLOT v) s in Inr (s1\<lparr>mem := store64 (mem s1) pte 0\<rparr>)
           else if v = 0 then Inr s
           else Inl (Panic ''uvmunmap: not mapped'')
         else if PTE_FLAGS v = PTE_V then Inl (Panic ''uvmunmap: not a leaf'')
         else andthen (if do_free then let pa = PTE2PA v in kfree pa (frametable_remove pa s) else Inr s)
                (\<lambda>s2. Inr (s2\<lparr>mem := store64 (mem s2) pte 0\<rparr>)))"

lemma uvmunmap_page_below: "uvmunmap_page pt a f s = Inr s' \<Longrightarrow> a < MAXVA"
  by (auto simp: uvmunmap_page_def walk_def split: if_splits)

lemma PGSIZE_step: "a < MAXVA \<Longrightarrow> unat (a + PGSIZE) = unat a + 4096"
  by (simp add: word_less_nat_alt PGSIZE_def MAXVA_def unat_word_ariths)

lemma PGSIZE_measure: "a < MAXVA \<Longrightarrow> unat MAXVA - unat (a + PGSIZE) < unat MAXVA - unat a"
  by (simp add: PGSIZE_step word_less_nat_alt)

text \<open>The loop ends: past \<^const>\<open>MAXVA\<close> the walk panics.\<close>

function uvmunmap_loop :: "u64 \<Rightarrow> u64 \<Rightarrow> u64 \<Rightarrow> bool \<Rightarrow> 'a vmst_scheme \<Rightarrow> 'a vmst_scheme res" where
  "uvmunmap_loop pagetable a e do_free s =
     (if a < e
      then andthen (uvmunmap_page pagetable a do_free s)
             (\<lambda>s1. uvmunmap_loop pagetable (a + PGSIZE) e do_free s1)
      else Inr s)"
  by pat_completeness auto
termination
  by (relation "measure (\<lambda>(pt, a, e, f, s). unat MAXVA - unat a)")
    (auto dest!: uvmunmap_page_below intro: PGSIZE_measure)

declare uvmunmap_loop.simps [simp del]

definition uvmunmap :: "u64 \<Rightarrow> u64 \<Rightarrow> u64 \<Rightarrow> bool \<Rightarrow> 'a vmst_scheme \<Rightarrow> 'a vmst_scheme res" where
  "uvmunmap pagetable va npages do_free s =
     (if va mod PGSIZE \<noteq> 0 then Inl (Panic ''uvmunmap: not aligned'')
      else uvmunmap_loop pagetable va (va + npages * PGSIZE) do_free s)"

text \<open>The page count goes through a C \<^verbatim>\<open>int\<close>.\<close>

definition uvmdealloc :: "u64 \<Rightarrow> u64 \<Rightarrow> u64 \<Rightarrow> 'a vmst_scheme \<Rightarrow> (u64 \<times> 'a vmst_scheme) res" where
  "uvmdealloc pagetable oldsz newsz s =
     (if newsz \<ge> oldsz then Inr (oldsz, s)
      else andthen
        (if PGROUNDUP newsz < PGROUNDUP oldsz
         then let npages = (ucast ((PGROUNDUP oldsz - PGROUNDUP newsz) div PGSIZE) :: u32)
              in uvmunmap pagetable (PGROUNDUP newsz) (scast npages) True s
         else Inr s)
        (\<lambda>s1. Inr (newsz, s1)))"

lemma mappages_below: "mappages pt a sz pa perm s = Inr r \<Longrightarrow> a < MAXVA"
  by (auto simp: mappages_def mappages_loop.simps[of pt a] walk_def split: if_splits)

function uvmalloc_loop :: "u64 \<Rightarrow> u64 \<Rightarrow> u64 \<Rightarrow> u64 \<Rightarrow> u64 \<Rightarrow> 'a vmst_scheme \<Rightarrow> (u64 \<times> 'a vmst_scheme) res" where
  "uvmalloc_loop pagetable a oldsz newsz xperm s =
     (if a < newsz
      then case kalloc s of (m, s1) \<Rightarrow>
        if m = 0
        then andthen (uvmdealloc pagetable a oldsz s1) (\<lambda>(_, s2). Inr (0, s2))
        else andthen (mappages pagetable a PGSIZE m (PTE_R OR PTE_U OR xperm) (s1\<lparr>mem := memset (mem s1) m 0 4096\<rparr>))
          (\<lambda>(r, s2). if r \<noteq> 0
             then andthen (kfree m s2) (\<lambda>s3. andthen (uvmdealloc pagetable a oldsz s3) (\<lambda>(_, s4). Inr (0, s4)))
             else uvmalloc_loop pagetable (a + PGSIZE) oldsz newsz xperm s2)
      else Inr (newsz, s))"
  by pat_completeness auto
termination
  by (relation "measure (\<lambda>(pt, a, oldsz, newsz, x, s). unat MAXVA - unat a)")
    (auto dest!: mappages_below intro: PGSIZE_measure)

declare uvmalloc_loop.simps [simp del]

definition uvmalloc :: "u64 \<Rightarrow> u64 \<Rightarrow> u64 \<Rightarrow> u64 \<Rightarrow> 'a vmst_scheme \<Rightarrow> (u64 \<times> 'a vmst_scheme) res" where
  "uvmalloc pagetable oldsz newsz xperm s =
     (if newsz < oldsz then Inr (oldsz, s)
      else let oldsz' = PGROUNDUP oldsz in uvmalloc_loop pagetable oldsz' oldsz' newsz xperm s)"

section \<open>Freeing and copying an address space\<close>

text \<open>
  The code recurses as deep as the entries lead it; the model carries a depth. A page table has
  three levels, so depth 3 is enough for one.
\<close>

fun freewalk :: "nat \<Rightarrow> u64 \<Rightarrow> 'a kmem_scheme \<Rightarrow> 'a kmem_scheme res" where
  "freewalk 0 pagetable s = Inl OutOfFuel"
| "freewalk (Suc d) pagetable s =
     andthen
       (for_each (\<lambda>i s.
          let pte = load64 (mem s) (pagetable + of_nat (8 * i)) in
          if pte AND PTE_V \<noteq> 0 \<and> pte AND (PTE_R OR PTE_W OR PTE_X) = 0
          then andthen (freewalk d (PTE2PA pte) s)
                 (\<lambda>s1. Inr (s1\<lparr>mem := store64 (mem s1) (pagetable + of_nat (8 * i)) 0\<rparr>))
          else if pte AND PTE_V \<noteq> 0 then Inl (Panic ''freewalk: leaf'')
          else Inr s) [0..<512] s)
       (\<lambda>s. kfree pagetable s)"

definition uvmfree :: "u64 \<Rightarrow> u64 \<Rightarrow> 'a vmst_scheme \<Rightarrow> 'a vmst_scheme res" where
  "uvmfree pagetable sz s =
     andthen (if sz > 0 then uvmunmap pagetable 0 (PGROUNDUP sz div PGSIZE) True s else Inr s)
       (\<lambda>s1. freewalk 3 pagetable s1)"

definition uvmcopy_err :: "u64 \<Rightarrow> u64 \<Rightarrow> 'a vmst_scheme \<Rightarrow> (int \<times> 'a vmst_scheme) res" where
  "uvmcopy_err new i s = andthen (uvmunmap new 0 (i div PGSIZE) True s) (\<lambda>s1. Inr (-1, s1))"

lemma walk_below: "walk pt a al s = Inr r \<Longrightarrow> a < MAXVA"
  by (auto simp: walk_def split: if_splits)

function uvmcopy_loop :: "u64 \<Rightarrow> u64 \<Rightarrow> u64 \<Rightarrow> u64 \<Rightarrow> 'a vmst_scheme \<Rightarrow> (int \<times> 'a vmst_scheme) res" where
  "uvmcopy_loop old new i sz s =
     (if i < sz
      then andthen (walk old i False s) (\<lambda>(pte, s).
        if pte = 0 then uvmcopy_loop old new (i + PGSIZE) sz s
        else let v = load64 (mem s) pte in
          if v AND PTE_V = 0 then uvmcopy_loop old new (i + PGSIZE) sz s
          else case kalloc s of (m, s1) \<Rightarrow>
            if m = 0 then uvmcopy_err new i s1
            else andthen (mappages new i PGSIZE m (PTE_FLAGS v) (s1\<lparr>mem := memmove (mem s1) m (PTE2PA v) 4096\<rparr>))
              (\<lambda>(r, s2). if r \<noteq> 0 then andthen (kfree m s2) (\<lambda>s3. uvmcopy_err new i s3)
                        else uvmcopy_loop old new (i + PGSIZE) sz s2))
      else Inr (0, s))"
  by pat_completeness auto
termination
  by (relation "measure (\<lambda>(old, new, i, sz, s). unat MAXVA - unat i)")
    (auto dest!: walk_below intro: PGSIZE_measure)

declare uvmcopy_loop.simps [simp del]

definition uvmcopy :: "u64 \<Rightarrow> u64 \<Rightarrow> u64 \<Rightarrow> 'a vmst_scheme \<Rightarrow> (int \<times> 'a vmst_scheme) res" where
  "uvmcopy old new sz s = uvmcopy_loop old new 0 sz s"

section \<open>Page faults\<close>

definition kalloc_or_evict :: "'a vmst_scheme \<Rightarrow> (u64 \<times> 'a vmst_scheme) res" where
  "kalloc_or_evict s =
     andthen (if frametable_used s \<ge> MAXFRAMES then clock_evict s else Inr (1, s)) (\<lambda>(freed, s1).
       if freed = 0 then Inr (0, s1)
       else case kalloc s1 of (m, s2) \<Rightarrow>
         if m = 0
         then andthen (clock_evict s2) (\<lambda>(freed, s3). if freed = 0 then Inr (0, s3) else Inr (kalloc s3))
         else Inr (m, s2))"

definition vmfault_alloc :: "u64 \<Rightarrow> u64 \<Rightarrow> 'a vmst_scheme \<Rightarrow> (u64 \<times> 'a vmst_scheme) res" where
  "vmfault_alloc pagetable va s =
     (case curproc s of
        None \<Rightarrow> Inl (Panic ''kerneltrap'')
      | Some p \<Rightarrow>
          if va \<ge> p_sz (procs s ! p) then Inr (0, s)
          else let va = PGROUNDDOWN va in
            andthen (ismapped pagetable va s) (\<lambda>mapped.
              if mapped then Inr (0, s)
              else andthen (kalloc_or_evict s) (\<lambda>(m, s1).
                if m = 0 then Inr (0, s1)
                else andthen (mappages (p_pagetable (procs s1 ! p)) va PGSIZE m (PTE_W OR PTE_U OR PTE_R)
                                (s1\<lparr>mem := memset (mem s1) m 0 4096\<rparr>)) (\<lambda>(r, s2).
                  if r \<noteq> 0 then andthen (kfree m s2) (\<lambda>s3. Inr (0, s3))
                  else Inr (m, frametable_add m (p_pid (procs s2 ! p)) va s2)))))"

text \<open>The two ways a fault is served: bringing a page back from swap, and a fresh page of zeros.\<close>

definition fault_swapped :: "u64 \<Rightarrow> nat \<Rightarrow> u64 \<Rightarrow> int \<Rightarrow> 'a vmst_scheme \<Rightarrow> (int \<times> 'a vmst_scheme) res" where
  "fault_swapped pagetable p page_va k s =
     andthen (kalloc_or_evict s) (\<lambda>(m, s1).
       if m = 0 then Inr (0, s1)
       else case swap_in k m s1 of (r, s2) \<Rightarrow>
         if r < 0 then andthen (kfree m s2) (\<lambda>s3. Inr (0, s3))
         else andthen (mappages pagetable page_va PGSIZE m (PTE_W OR PTE_R OR PTE_X OR PTE_U) (swap_free k s2))
           (\<lambda>(r, s3). if r < 0 then andthen (kfree m s3) (\<lambda>s4. Inr (0, s4))
              else Inr (1, upd_proc p (\<lambda>q. q\<lparr>p_page_faults := p_page_faults q + 1,
                                              p_pages_swapped_in := p_pages_swapped_in q + 1\<rparr>)
                             (frametable_add m (p_pid (procs s3 ! p)) page_va s3))))"

definition fault_lazy :: "u64 \<Rightarrow> nat \<Rightarrow> u64 \<Rightarrow> 'a vmst_scheme \<Rightarrow> (int \<times> 'a vmst_scheme) res" where
  "fault_lazy pagetable p page_va s =
     andthen (kalloc_or_evict s) (\<lambda>(m, s1).
       if m = 0 then Inr (0, s1)
       else andthen (mappages pagetable page_va PGSIZE m (PTE_W OR PTE_R OR PTE_X OR PTE_U)
                       (s1\<lparr>mem := memset (mem s1) m 0 4096\<rparr>))
         (\<lambda>(r, s2). if r < 0 then andthen (kfree m s2) (\<lambda>s3. Inr (0, s3))
            else Inr (1, upd_proc p (\<lambda>q. q\<lparr>p_page_faults := p_page_faults q + 1,
                                            p_resident_pages := p_resident_pages q + 1\<rparr>)
                           (frametable_add m (p_pid (procs s2 ! p)) page_va s2))))"

definition vmfault :: "u64 \<Rightarrow> u64 \<Rightarrow> 'a vmst_scheme \<Rightarrow> (int \<times> 'a vmst_scheme) res" where
  "vmfault pagetable va s =
     (case curproc s of
        None \<Rightarrow> Inr (0, s)
      | Some p \<Rightarrow>
          let page_va = PGROUNDDOWN va in
          if page_va \<ge> p_sz (procs s ! p) then Inr (0, s)
          else andthen (walk pagetable page_va False s) (\<lambda>(pte, s).
            let v = load64 (mem s) pte in
            if pte \<noteq> 0 \<and> v AND PTE_V = 0 \<and> v AND PTE_SWAPPED \<noteq> 0
            then fault_swapped pagetable p page_va (PTE_SWAP_SLOT v) s
            else fault_lazy pagetable p page_va s))"

section \<open>Copies between user and kernel memory\<close>

text \<open>
  The number of bytes of one round: what is left of the page, at most what is left to copy. It is
  positive, so the loops end.
\<close>

definition chunk :: "u64 \<Rightarrow> nat \<Rightarrow> nat" where
  "chunk va len = min (unat (PGSIZE - (va - PGROUNDDOWN va))) len"

lemma page_offset: "unat (va - PGROUNDDOWN va) = unat va mod 4096"
  unfolding unat_sub[OF PGROUNDDOWN_le] unat_PGROUNDDOWN by (simp add: minus_div_mult_eq_mod)

lemma chunk_eq: "chunk va len = min (4096 - unat va mod 4096) len"
proof -
  have "va - PGROUNDDOWN va \<le> PGSIZE"
    unfolding word_le_nat_alt page_offset by (simp add: PGSIZE_def less_imp_le)
  then have "unat (PGSIZE - (va - PGROUNDDOWN va)) = 4096 - unat va mod 4096"
    by (simp add: unat_sub page_offset) (simp add: PGSIZE_def)
  then show ?thesis by (simp add: chunk_def)
qed

lemma chunk_pos: "0 < len \<Longrightarrow> 0 < chunk va len"
  by (simp add: chunk_eq)

lemma chunk_le: "chunk va len \<le> len"
  by (simp add: chunk_def)

text \<open>Finding, or faulting in, the page of an address.\<close>

definition user_page :: "u64 \<Rightarrow> u64 \<Rightarrow> 'a vmst_scheme \<Rightarrow> (u64 \<times> 'a vmst_scheme) res" where
  "user_page pagetable va0 s =
     andthen (walkaddr pagetable va0 s) (\<lambda>pa0.
       if pa0 = 0 then vmfault_alloc pagetable va0 s else Inr (pa0, s))"

function copyout :: "u64 \<Rightarrow> u64 \<Rightarrow> u8 list \<Rightarrow> 'a vmst_scheme \<Rightarrow> (int \<times> 'a vmst_scheme) res" where
  "copyout pagetable dstva src s =
     (if src = [] then Inr (0, s)
      else let va0 = PGROUNDDOWN dstva in
        if va0 \<ge> MAXVA then Inr (-1, s)
        else andthen (user_page pagetable va0 s) (\<lambda>(pa0, s1).
          if pa0 = 0 then Inr (-1, s1)
          else andthen (walk pagetable va0 False s1) (\<lambda>(pte, s2).
            if pte = 0 then Inl (Panic ''kerneltrap'')
            else if load64 (mem s2) pte AND PTE_W = 0 then Inr (-1, s2)
            else let n = chunk dstva (length src)
                 in copyout pagetable (va0 + PGSIZE) (drop n src)
                      (s2\<lparr>mem := store_bytes (mem s2) (pa0 + (dstva - va0)) (take n src)\<rparr>))))"
  by pat_completeness auto
termination
  by (relation "measure (\<lambda>(pt, va, src, s). length src)") (auto intro!: diff_less chunk_pos)

declare copyout.simps [simp del]

function copyin_loop :: "u64 \<Rightarrow> u64 \<Rightarrow> nat \<Rightarrow> u8 list \<Rightarrow> 'a vmst_scheme \<Rightarrow> (int \<times> u8 list \<times> 'a vmst_scheme) res" where
  "copyin_loop pagetable srcva len dst s =
     (if len = 0 then Inr (0, dst, s)
      else let va0 = PGROUNDDOWN srcva in
        andthen (user_page pagetable va0 s) (\<lambda>(pa0, s1).
          if pa0 = 0 then Inr (-1, dst, s1)
          else let n = chunk srcva len
               in copyin_loop pagetable (va0 + PGSIZE) (len - n)
                    (dst @ load_bytes (mem s1) (pa0 + (srcva - va0)) n) s1))"
  by pat_completeness auto
termination
  by (relation "measure (\<lambda>(pt, va, len, dst, s). len)") (auto intro!: diff_less chunk_pos)

declare copyin_loop.simps [simp del]

definition copyin :: "u64 \<Rightarrow> u64 \<Rightarrow> nat \<Rightarrow> 'a vmst_scheme \<Rightarrow> (int \<times> u8 list \<times> 'a vmst_scheme) res" where
  "copyin pagetable srcva len s = copyin_loop pagetable srcva len [] s"

text \<open>The inner loop of \<^verbatim>\<open>copyinstr\<close>: at most \<open>n\<close> bytes from \<open>p\<close>, up to and including a 0.\<close>

fun copy_until_nul :: "memory \<Rightarrow> u64 \<Rightarrow> nat \<Rightarrow> u8 list \<times> bool" where
  "copy_until_nul m p 0 = ([], False)"
| "copy_until_nul m p (Suc n) =
     (if m p = 0 then ([0], True)
      else case copy_until_nul m (p + 1) n of (bs, got) \<Rightarrow> (m p # bs, got))"

function copyinstr_loop :: "u64 \<Rightarrow> u64 \<Rightarrow> nat \<Rightarrow> u8 list \<Rightarrow> 'a vmst_scheme \<Rightarrow> (int \<times> u8 list) res" where
  "copyinstr_loop pagetable srcva maxlen dst s =
     (if maxlen = 0 then Inr (-1, dst)
      else let va0 = PGROUNDDOWN srcva in
        andthen (walkaddr pagetable va0 s) (\<lambda>pa0.
          if pa0 = 0 then Inr (-1, dst)
          else let n = chunk srcva maxlen in
            case copy_until_nul (mem s) (pa0 + (srcva - va0)) n of (bs, got_null) \<Rightarrow>
              if got_null then Inr (0, dst @ bs)
              else copyinstr_loop pagetable (va0 + PGSIZE) (maxlen - n) (dst @ bs) s))"
  by pat_completeness auto
termination
  by (relation "measure (\<lambda>(pt, va, mx, dst, s). mx)") (auto intro!: diff_less chunk_pos)

declare copyinstr_loop.simps [simp del]

definition copyinstr :: "u64 \<Rightarrow> u64 \<Rightarrow> nat \<Rightarrow> 'a vmst_scheme \<Rightarrow> (int \<times> u8 list) res" where
  "copyinstr pagetable srcva maxlen s = copyinstr_loop pagetable srcva maxlen [] s"

section \<open>The kernel's page table\<close>

definition proc_mapstacks :: "u64 \<Rightarrow> 'a kmem_scheme \<Rightarrow> 'a kmem_scheme res" where
  "proc_mapstacks kpgtbl s =
     for_each (\<lambda>i s. case kalloc s of (pa, s1) \<Rightarrow>
         if pa = 0 then Inl (Panic ''kalloc'')
         else kvmmap kpgtbl (KSTACK (of_nat i)) pa PGSIZE (PTE_R OR PTE_W) s1) [0..<NPROC] s"

definition kvmmake :: "'a vmst_scheme \<Rightarrow> (u64 \<times> 'a vmst_scheme) res" where
  "kvmmake s =
     (case kalloc s of (kpgtbl, s0) \<Rightarrow>
        let s1 = s0\<lparr>mem := memset (mem s0) kpgtbl 0 4096\<rparr>; etext = etext_pa s in
        andthen (kvmmap kpgtbl UART0 UART0 PGSIZE (PTE_R OR PTE_W) s1) (\<lambda>s2.
        andthen (kvmmap kpgtbl VIRTIO0 VIRTIO0 PGSIZE (PTE_R OR PTE_W) s2) (\<lambda>s3.
        andthen (kvmmap kpgtbl PLIC PLIC 0x4000000 (PTE_R OR PTE_W) s3) (\<lambda>s4.
        andthen (kvmmap kpgtbl KERNBASE KERNBASE (etext - KERNBASE) (PTE_R OR PTE_X) s4) (\<lambda>s5.
        andthen (kvmmap kpgtbl etext etext (PHYSTOP - etext) (PTE_R OR PTE_W) s5) (\<lambda>s6.
        andthen (kvmmap kpgtbl TRAMPOLINE (trampoline_pa s) PGSIZE (PTE_R OR PTE_X) s6) (\<lambda>s7.
        andthen (proc_mapstacks kpgtbl s7) (\<lambda>s8. Inr (kpgtbl, s8)))))))))"

end
