(* ===== verification/Xv6_Uvm.thy ===== *)
theory Xv6_Uvm
  imports Xv6_Vm
begin

text \<open>
  The address-space invariant and what unmapping, growing, shrinking and the page faults do to it.
  An address space is well formed when its page table is, every user page it maps is an allocated
  page that is neither free nor a page-table page, no two user pages share a frame, and an invalid
  entry is empty or names a swap slot.
\<close>

section \<open>The invariant\<close>

definition upage :: "u64 \<Rightarrow> bool" where
  "upage va = (page_aligned va \<and> va < TRAPFRAME)"

definition user_leaf_ok :: "'a kmem_scheme \<Rightarrow> u64 \<Rightarrow> u64 list \<Rightarrow> u64 \<Rightarrow> bool" where
  "user_leaf_ok s pt ps v =
     (if bit v 0
      then PTE_FLAGS v \<noteq> PTE_V \<and> valid_page s (PTE2PA v) \<and> PTE2PA v \<notin> set ps \<and> PTE2PA v \<notin> pgs (mem s) 2 pt
      else v = 0 \<or> bit v 8)"

definition as_ok :: "'a kmem_scheme \<Rightarrow> u64 \<Rightarrow> u64 list \<Rightarrow> bool" where
  "as_ok s pt ps =
     (pt_inv s 2 pt ps \<and> (\<forall>va. upage va \<longrightarrow> user_leaf_ok s pt ps (leaf (mem s) pt va)) \<and>
      (\<forall>va vb. upage va \<longrightarrow> upage vb \<longrightarrow> va \<noteq> vb \<longrightarrow> bit (leaf (mem s) pt va) 0 \<longrightarrow> bit (leaf (mem s) pt vb) 0 \<longrightarrow>
         PTE2PA (leaf (mem s) pt va) \<noteq> PTE2PA (leaf (mem s) pt vb)))"

lemma upage_MAXVA: "upage va \<Longrightarrow> va < MAXVA"
  by (simp add: upage_def layout_defs word_less_nat_alt)

lemma as_ok_pt: "as_ok s pt ps \<Longrightarrow> pt_inv s 2 pt ps"
  by (simp add: as_ok_def)

lemma as_ok_leaf: "as_ok s pt ps \<Longrightarrow> upage va \<Longrightarrow> user_leaf_ok s pt ps (leaf (mem s) pt va)"
  by (simp add: as_ok_def)

lemma same_path_aligned:
  "page_aligned va \<Longrightarrow> page_aligned vb \<Longrightarrow> va < MAXVA \<Longrightarrow> vb < MAXVA \<Longrightarrow> same_path 2 va vb \<longleftrightarrow> va = vb"
  by (simp add: same_path_2 PGROUNDDOWN_id)

section \<open>Unmapping\<close>

text \<open>
  The pages \<open>R\<close> have been unmapped and their frames freed: the leaf entries in \<open>R\<close> are empty, the
  others as before, exactly the frames that were mapped in \<open>R\<close> have joined the free list, and the
  contents of all other pages are unchanged.
\<close>

definition frames_of :: "memory \<Rightarrow> u64 \<Rightarrow> u64 set \<Rightarrow> u64 set" where
  "frames_of m pt R = {PTE2PA (leaf m pt va) | va. va \<in> R \<and> bit (leaf m pt va) 0}"

definition unmapped :: "'a vmst_scheme \<Rightarrow> 'a vmst_scheme \<Rightarrow> u64 \<Rightarrow> u64 list \<Rightarrow> u64 list \<Rightarrow> u64 set \<Rightarrow> bool" where
  "unmapped s s' pt ps ps' R =
     (as_ok s' pt ps' \<and> pgs (mem s') 2 pt = pgs (mem s) 2 pt \<and>
      (\<forall>va. page_aligned va \<longrightarrow> va < MAXVA \<longrightarrow> leaf (mem s') pt va = (if va \<in> R then 0 else leaf (mem s) pt va)) \<and>
      set ps' = set ps \<union> frames_of (mem s) pt R \<and>
      (\<forall>q. page_aligned q \<longrightarrow> q \<notin> pgs (mem s) 2 pt \<longrightarrow> q \<notin> frames_of (mem s) pt R \<longrightarrow> same_page (mem s) (mem s') q) \<and>
      kend s' = kend s \<and> procs s' = procs s \<and> curproc s' = curproc s)"

lemma unmapped_leaf:
  "unmapped s s' pt ps ps' R \<Longrightarrow> page_aligned va \<Longrightarrow> va < MAXVA \<Longrightarrow>
   leaf (mem s') pt va = (if va \<in> R then 0 else leaf (mem s) pt va)"
  by (simp add: unmapped_def)

lemma unmapped_refl:
  "as_ok s pt ps \<Longrightarrow> (\<And>va. va \<in> R \<Longrightarrow> leaf (mem s) pt va = 0) \<Longrightarrow> unmapped s s pt ps ps R"
  by (auto simp: unmapped_def frames_of_def)

lemma unmapped_trans:
  assumes "unmapped s s1 pt ps ps1 R1" "unmapped s1 s2 pt ps1 ps2 R2" "R1 \<inter> R2 = {}" "R1 \<union> R2 \<subseteq> {va. upage va}"
  shows "unmapped s s2 pt ps ps2 (R1 \<union> R2)"
proof -
  have lf: "leaf (mem s1) pt va = leaf (mem s) pt va" if "va \<in> R2" for va
  proof -
    have "upage va" "va \<notin> R1" using assms(3,4) that by auto
    then show ?thesis using unmapped_leaf[OF assms(1), of va] upage_MAXVA by (simp add: upage_def)
  qed
  have fr: "frames_of (mem s1) pt R2 = frames_of (mem s) pt R2"
    using lf unfolding frames_of_def by (metis (no_types, lifting))
  have "frames_of (mem s) pt (R1 \<union> R2) = frames_of (mem s) pt R1 \<union> frames_of (mem s) pt R2"
    by (auto simp: frames_of_def)
  with assms(1,2) fr show ?thesis
    unfolding unmapped_def by (auto intro: same_page_trans)
qed

lemma unmap_store:
  assumes inv: "pt_inv s 2 pt ps" and sl: "pte_slot (mem s) 2 pt va = Some a" and va: "upage va"
    and ok: "\<And>vb. upage vb \<Longrightarrow> vb \<noteq> va \<Longrightarrow> user_leaf_ok s pt ps (leaf (mem s) pt vb)"
    and inj: "\<And>vb vc. upage vb \<Longrightarrow> upage vc \<Longrightarrow> vb \<noteq> va \<Longrightarrow> vc \<noteq> va \<Longrightarrow> vb \<noteq> vc \<Longrightarrow>
        bit (leaf (mem s) pt vb) 0 \<Longrightarrow> bit (leaf (mem s) pt vc) 0 \<Longrightarrow>
        PTE2PA (leaf (mem s) pt vb) \<noteq> PTE2PA (leaf (mem s) pt vc)"
    and s': "s' = s\<lparr>mem := store64 (mem s) a 0\<rparr>"
  shows "as_ok s' pt ps" "pgs (mem s') 2 pt = pgs (mem s) 2 pt"
    "\<And>vb. page_aligned vb \<Longrightarrow> vb < MAXVA \<Longrightarrow> leaf (mem s') pt vb = (if vb = va then 0 else leaf (mem s) pt vb)"
    "\<And>q. page_aligned q \<Longrightarrow> q \<notin> pgs (mem s) 2 pt \<Longrightarrow> same_page (mem s) (mem s') q"
proof -
  have st: "pt_inv s' 2 pt ps" "leaf_set s s' 2 pt va 0"
    using store_leaf[OF inv sl, of 0] by (simp_all add: s')
  have vm: "page_aligned va" "va < MAXVA" using va upage_MAXVA by (simp_all add: upage_def)
  show pg: "pgs (mem s') 2 pt = pgs (mem s) 2 pt" using st(2) by (simp add: leaf_set_def)
  show lf: "leaf (mem s') pt vb = (if vb = va then 0 else leaf (mem s) pt vb)"
    if "page_aligned vb" "vb < MAXVA" for vb
    using st(2) same_path_aligned[OF vm(1) that(1) vm(2) that(2)] by (auto simp: leaf_set_def)
  have lu: "leaf (mem s') pt vb = (if vb = va then 0 else leaf (mem s) pt vb)" if "upage vb" for vb
    using lf that upage_MAXVA[OF that] by (simp add: upage_def)
  show "same_page (mem s) (mem s') q" if "page_aligned q" "q \<notin> pgs (mem s) 2 pt" for q
    using st(2) that by (simp add: leaf_set_def)
  have "user_leaf_ok s' pt ps (leaf (mem s') pt vb)" if "upage vb" for vb
    using ok[OF that] lu[OF that] pg by (auto simp: user_leaf_ok_def s' valid_page_def)
  moreover have "PTE2PA (leaf (mem s') pt vb) \<noteq> PTE2PA (leaf (mem s') pt vc)"
    if "upage vb" "upage vc" "vb \<noteq> vc" "bit (leaf (mem s') pt vb) 0" "bit (leaf (mem s') pt vc) 0" for vb vc
    using inj[OF that(1,2) _ _ that(3)] lu[OF that(1)] lu[OF that(2)] that(4,5) by (auto split: if_splits)
  ultimately show "as_ok s' pt ps" using st(1) unfolding as_ok_def by blast
qed

text \<open>One page of \<^verbatim>\<open>uvmunmap\<close> with \<^verbatim>\<open>do_free\<close>.\<close>

lemma unmap_page:
  assumes as: "as_ok s pt ps" and va: "upage va"
  shows "\<exists>s' ps'. uvmunmap_page pt va True s = Inr s' \<and> unmapped s s' pt ps ps' {va}"
proof (cases "pte_slot (mem s) 2 pt va")
  case None
  then have "uvmunmap_page pt va True s = Inr s" "leaf (mem s) pt va = 0"
    using upage_MAXVA[OF va] by (simp_all add: uvmunmap_page_def walk_lookup leaf_at_def)
  then show ?thesis using unmapped_refl[OF as, of "{va}"] by auto
next
  case (Some a)
  let ?v = "leaf (mem s) pt va"
  note inv = as_ok_pt[OF as]
  have ul: "user_leaf_ok s pt ps ?v" by (rule as_ok_leaf[OF as va])
  have wk: "walk pt va False s = Inr (a, s)" "a \<noteq> 0" "load64 (mem s) a = ?v"
    using Some slot_nonzero[OF inv Some] upage_MAXVA[OF va] by (simp_all add: walk_lookup leaf_at_slot)
  show ?thesis
  proof (cases "bit ?v 0")
    case inval: False
    show ?thesis
    proof (cases "bit ?v 8")
      case False
      then have "?v = 0" using ul inval by (simp add: user_leaf_ok_def)
      then have "uvmunmap_page pt va True s = Inr s" using wk by (simp add: uvmunmap_page_def)
      then show ?thesis using unmapped_refl[OF as, of "{va}"] \<open>?v = 0\<close> by auto
    next
      case True
      define s1 where "s1 = swap_free (PTE_SWAP_SLOT ?v) s"
      define s' where "s' = s1\<lparr>mem := store64 (mem s1) a 0\<rparr>"
      have "uvmunmap_page pt va True s = Inr s'"
        using wk inval True by (simp add: uvmunmap_page_def flag_test s'_def s1_def Let_def)
      moreover have "unmapped s s' pt ps ps {va}"
      proof -
        have inv1: "pt_inv s1 2 pt ps" using inv by (subst pt_inv_cong[of _ s]) (simp_all add: s1_def)
        have sl1: "pte_slot (mem s1) 2 pt va = Some a" using Some by (simp add: s1_def)
        have ok1: "user_leaf_ok s1 pt ps (leaf (mem s1) pt vb)" if "upage vb" for vb
          using as_ok_leaf[OF as that] by (auto simp: user_leaf_ok_def s1_def valid_page_def split: if_splits)
        have "frames_of (mem s) pt {va} = {}" using inval by (simp add: frames_of_def)
        then show ?thesis
          using unmap_store[OF inv1 sl1 va ok1 _ s'_def] as
          unfolding unmapped_def as_ok_def s1_def s'_def by simp
      qed
      ultimately show ?thesis by blast
    qed
  next
    case val: True
    let ?pa = "PTE2PA ?v"
    define s1 where "s1 = frametable_remove ?pa s"
    have u: "PTE_FLAGS ?v \<noteq> PTE_V" "valid_page s ?pa" "?pa \<notin> set ps" "?pa \<notin> pgs (mem s) 2 pt"
      using ul val by (simp_all add: user_leaf_ok_def)
    have "pt_inv s1 2 pt ps" using inv by (subst pt_inv_cong[of _ s]) (simp_all add: s1_def)
    moreover have "valid_page s1 ?pa" using u(2) by (simp add: valid_page_def s1_def)
    ultimately obtain s2 where s2: "kfree ?pa s1 = Inr s2" "pt_inv s2 2 pt (?pa # ps)"
        "pgs (mem s2) 2 pt = pgs (mem s) 2 pt" "\<And>vb. leaf (mem s2) pt vb = leaf (mem s) pt vb"
        "\<And>vb. pte_slot (mem s2) 2 pt vb = pte_slot (mem s) 2 pt vb"
        "\<And>q. page_aligned q \<Longrightarrow> q \<noteq> ?pa \<Longrightarrow> same_page (mem s) (mem s2) q" "kend s2 = kend s"
      using pt_inv_kfree[of s1 2 pt ps ?pa] u(3,4) by (auto simp: s1_def)
    define s' where "s' = s2\<lparr>mem := store64 (mem s2) a 0\<rparr>"
    have run: "uvmunmap_page pt va True s = Inr s'"
      using wk val u(1) s2(1) by (simp add: uvmunmap_page_def flag_test s'_def s1_def Let_def)
    have oth: "user_leaf_ok s2 pt (?pa # ps) (leaf (mem s2) pt vb)" if "upage vb" "vb \<noteq> va" for vb
    proof -
      have "PTE2PA (leaf (mem s) pt vb) \<noteq> ?pa" if "bit (leaf (mem s) pt vb) 0"
        using as va \<open>upage vb\<close> \<open>vb \<noteq> va\<close> val that unfolding as_ok_def by blast
      then show ?thesis using as_ok_leaf[OF as that(1)] s2(3,4,7) by (auto simp: user_leaf_ok_def valid_page_def)
    qed
    have sl2: "pte_slot (mem s2) 2 pt va = Some a" using s2(5) Some by simp
    have inj2: "PTE2PA (leaf (mem s2) pt vb) \<noteq> PTE2PA (leaf (mem s2) pt vc)"
      if "upage vb" "upage vc" "vb \<noteq> vc" "bit (leaf (mem s2) pt vb) 0" "bit (leaf (mem s2) pt vc) 0" for vb vc
      using as that unfolding as_ok_def s2(4) by blast
    note us = unmap_store[OF s2(2) sl2 va oth inj2 s'_def]
    have fr: "frames_of (mem s) pt {va} = {?pa}" using val by (auto simp: frames_of_def)
    have "same_page (mem s) (mem s') q" if "page_aligned q" "q \<notin> pgs (mem s) 2 pt" "q \<noteq> ?pa" for q
      using same_page_trans[OF s2(6)[OF that(1,3)] us(4)] that s2(3) by simp
    moreover have "procs s' = procs s" "curproc s' = curproc s"
      using kfree_vm_fields[OF s2(1)] by (simp_all add: s'_def s1_def)
    ultimately have "unmapped s s' pt ps (?pa # ps) {va}"
      using us(1-3) s2(3,4,7) fr unfolding unmapped_def by (auto simp: s'_def)
    with run show ?thesis by blast
  qed
qed

definition page_range :: "u64 \<Rightarrow> u64 \<Rightarrow> u64 set" where
  "page_range a e = {va. page_aligned va \<and> a \<le> va \<and> va < e}"

lemma page_succ:
  assumes "page_aligned a" "a < MAXVA"
  shows "page_aligned (a + PGSIZE)" "a < a + PGSIZE"
    and "\<And>va. page_aligned va \<Longrightarrow> a < va \<longleftrightarrow> a + PGSIZE \<le> va"
proof -
  note u = PGSIZE_step[OF assms(2)]
  show "page_aligned (a + PGSIZE)" using assms(1) u by (simp add: page_aligned_unat)
  show "a < a + PGSIZE" by (simp add: word_less_nat_alt u)
  fix va assume "page_aligned va"
  then have "unat a < unat va \<Longrightarrow> unat a + 4096 \<le> unat va"
    using assms(1) by (intro aligned_gap) (simp_all add: page_aligned_unat)
  then show "a < va \<longleftrightarrow> a + PGSIZE \<le> va" by (auto simp: word_less_nat_alt word_le_nat_alt u)
qed

lemma page_range_Cons:
  assumes "page_aligned a" "a < MAXVA" "a < e"
  shows "page_range a e = {a} \<union> page_range (a + PGSIZE) e" "a \<notin> page_range (a + PGSIZE) e"
proof -
  note ps = page_succ[OF assms(1,2)]
  show "page_range a e = {a} \<union> page_range (a + PGSIZE) e"
    unfolding page_range_def using ps(3) assms by (auto simp: order.order_iff_strict)
  show "a \<notin> page_range (a + PGSIZE) e" using ps(2) by (simp add: page_range_def not_le[symmetric])
qed

lemma unmap_loop:
  assumes "as_ok s pt ps" "page_aligned a" "e \<le> TRAPFRAME"
  shows "\<exists>s' ps'. uvmunmap_loop pt a e True s = Inr s' \<and> unmapped s s' pt ps ps' (page_range a e)"
  using assms(1,2)
proof (induction "unat MAXVA - unat a" arbitrary: a s ps rule: less_induct)
  case less
  show ?case
  proof (cases "a < e")
    case False
    then have "page_range a e = {}" by (auto simp: page_range_def)
    then show ?thesis using False less.prems(1) unmapped_refl[of s pt ps "{}"] by (auto simp: uvmunmap_loop.simps)
  next
    case True
    then have ua: "upage a" using assms(3) less.prems(2) by (simp add: upage_def)
    note mv = upage_MAXVA[OF ua]
    obtain s1 ps1 where s1: "uvmunmap_page pt a True s = Inr s1" "unmapped s s1 pt ps ps1 {a}"
      using unmap_page[OF less.prems(1) ua] by blast
    have "as_ok s1 pt ps1" using s1(2) by (simp add: unmapped_def)
    then obtain s2 ps2 where s2: "uvmunmap_loop pt (a + PGSIZE) e True s1 = Inr s2"
        "unmapped s1 s2 pt ps1 ps2 (page_range (a + PGSIZE) e)"
      using less.hyps[OF PGSIZE_measure[OF mv] _ page_succ(1)[OF less.prems(2) mv]] by blast
    have "page_range (a + PGSIZE) e \<subseteq> {va. upage va}"
      using assms(3) by (auto simp: page_range_def upage_def)
    then have "unmapped s s2 pt ps ps2 (page_range a e)"
      unfolding page_range_Cons(1)[OF less.prems(2) mv True]
      using page_range_Cons(2)[OF less.prems(2) mv True] ua by (intro unmapped_trans[OF s1(2) s2(2)]) auto
    then show ?thesis using True s1(1) s2(1) by (auto simp: uvmunmap_loop.simps[of pt a])
  qed
qed

section \<open>Mapping a fresh page\<close>

text \<open>
  Mapping the page \<open>m\<close> just taken from the allocator and filled by the caller. The frame conditions
  say that pages outside the page table and the free list keep their contents.
\<close>

definition kept :: "'a kmem_scheme \<Rightarrow> 'a kmem_scheme \<Rightarrow> u64 \<Rightarrow> u64 list \<Rightarrow> bool" where
  "kept s s' pt ps =
     (kend s' = kend s \<and> (\<forall>q. page_aligned q \<longrightarrow> q \<notin> pgs (mem s) 2 pt \<longrightarrow> q \<notin> set ps \<longrightarrow> same_page (mem s) (mem s') q))"

lemma kept_trans:
  assumes "kept s0 s pt ps0" "kept s t pt ps" "pgs (mem s) 2 pt \<union> set ps \<subseteq> pgs (mem s0) 2 pt \<union> set ps0"
  shows "kept s0 t pt ps0"
proof -
  have "same_page (mem s0) (mem t) q" if "page_aligned q" "q \<notin> pgs (mem s0) 2 pt" "q \<notin> set ps0" for q
  proof -
    have "q \<notin> pgs (mem s) 2 pt" "q \<notin> set ps" using that assms(3) by auto
    then have "same_page (mem s0) (mem s) q" "same_page (mem s) (mem t) q"
      using assms(1,2) that by (simp_all add: kept_def)
    then show ?thesis by (rule same_page_trans)
  qed
  then show ?thesis using assms(1,2) by (simp add: kept_def)
qed

lemma fresh_page_state:
  assumes as: "as_ok s pt (m # ps)" and kal: "kalloc s = (m, s1)"
    and fill: "\<And>q. page_aligned q \<Longrightarrow> q \<noteq> m \<Longrightarrow> same_page (mem s1) m1 q"
    and t: "t = s1\<lparr>mem := m1\<rparr>"
  shows "pt_inv t 2 pt ps" "pgs (mem t) 2 pt = pgs (mem s) 2 pt" "\<And>va. leaf (mem t) pt va = leaf (mem s) pt va"
    "\<And>q. page_aligned q \<Longrightarrow> q \<noteq> m \<Longrightarrow> same_page (mem s) (mem t) q" "kend t = kend s" "kmem.more t = kmem.more s"
    "m \<notin> pgs (mem s) 2 pt" "m \<notin> set ps" "valid_page s m"
proof -
  note inv = as_ok_pt[OF as]
  have fl: "free_list s (m # ps)" using inv by (simp add: pt_inv_def)
  show m: "m \<notin> pgs (mem s) 2 pt" "m \<notin> set ps" "valid_page s m"
    using inv fl by (auto simp: pt_inv_def free_list_def)
  show keep: "same_page (mem s) (mem t) q" if "page_aligned q" "q \<noteq> m" for q
    using same_page_trans[OF kalloc_frame[OF fl kal that] fill[OF that]] by (simp add: t)
  show kf: "kend t = kend s" "kmem.more t = kmem.more s" using kalloc_fields[of s] kal by (simp_all add: t)
  have pk: "same_page (mem s) (mem t) q" if "q \<in> pgs (mem s) 2 pt" for q
    using keep pt_inv_aligned[OF inv that] m(1) that by metis
  note ts = tree_same[OF pk]
  show "pgs (mem t) 2 pt = pgs (mem s) 2 pt" using ts by blast
  show "leaf (mem t) pt va = leaf (mem s) pt va" for va by (rule leaf_at_same[OF pk])
  have fl1: "free_list s1 ps" using kalloc_Cons(2)[OF fl] kal by simp
  have "free_list t ps"
  proof (rule free_list_cong[OF fl1])
    show "same_page (mem s1) (mem t) q" if "q \<in> set ps" for q
    proof -
      have "page_aligned q" "q \<noteq> m" using fl that m(2) by (auto simp: free_list_def valid_page_def)
      then show ?thesis using fill by (simp add: t)
    qed
  qed (simp_all add: t)
  then show "pt_inv t 2 pt ps" using inv ts kf by (auto simp: pt_inv_def valid_page_def)
qed

lemma pte_flags_new:
  assumes "page_aligned m" "PTE_FLAGS f = f" "bit f 1"
  shows "PTE2PA (PA2PTE m OR f OR PTE_V) = m" "PTE_FLAGS (PA2PTE m OR f OR PTE_V) = f OR PTE_V"
    "bit (PA2PTE m OR f OR PTE_V) 0" "f OR PTE_V \<noteq> PTE_V"
proof -
  have fl: "n < 10" if "bit (f OR PTE_V) n" for n
    using that arg_cong[OF assms(2), of "\<lambda>w. bit w n"] by (auto simp: bit_facts bit_or_iff)
  show "PTE2PA (PA2PTE m OR f OR PTE_V) = m" "PTE_FLAGS (PA2PTE m OR f OR PTE_V) = f OR PTE_V"
    using PTE2PA_roundtrip[OF assms(1) fl] by (simp_all add: or.assoc)
  show "bit (PA2PTE m OR f OR PTE_V) 0" by (simp add: bit_or_iff bit_facts)
  have "bit (f OR PTE_V) 1" "\<not> bit PTE_V 1" using assms(3) by (simp_all add: bit_or_iff bit_facts)
  then show "f OR PTE_V \<noteq> PTE_V" by auto
qed

lemma map_fresh:
  assumes as: "as_ok s pt (m # ps)" and kal: "kalloc s = (m, s1)"
    and fill: "\<And>q. page_aligned q \<Longrightarrow> q \<noteq> m \<Longrightarrow> same_page (mem s1) m1 q"
    and va: "upage va" and free: "\<not> bit (leaf (mem s) pt va) 0" and f: "PTE_FLAGS f = f" "bit f 1"
  obtains (full) s2 s3 where "mappages pt va PGSIZE m f (s1\<lparr>mem := m1\<rparr>) = Inr (-1, s2)" "kfree m s2 = Inr s3"
      "as_ok s3 pt [m]" "\<And>vb. page_aligned vb \<Longrightarrow> vb < MAXVA \<Longrightarrow> leaf (mem s3) pt vb = leaf (mem s) pt vb"
      "kept s s3 pt (m # ps)" "kmem.more s3 = kmem.more s" "pgs (mem s3) 2 pt \<subseteq> pgs (mem s) 2 pt \<union> set ps"
      "length ps < 2"
  | (ok) s2 rest where "mappages pt va PGSIZE m f (s1\<lparr>mem := m1\<rparr>) = Inr (0, s2)" "as_ok s2 pt rest"
      "\<And>vb. page_aligned vb \<Longrightarrow> vb < MAXVA \<Longrightarrow>
         leaf (mem s2) pt vb = (if vb = va then PA2PTE m OR f OR PTE_V else leaf (mem s) pt vb)"
      "kept s s2 pt (m # ps)" "same_page m1 (mem s2) m" "kmem.more s2 = kmem.more s"
      "pgs (mem s2) 2 pt \<subseteq> pgs (mem s) 2 pt \<union> set ps" "set rest \<subseteq> set ps" "PTE2PA (PA2PTE m OR f OR PTE_V) = m"
proof -
  define t where "t = s1\<lparr>mem := m1\<rparr>"
  note inv = as_ok_pt[OF as]
  have tf: "pt_inv t 2 pt ps" "pgs (mem t) 2 pt = pgs (mem s) 2 pt" "\<And>va. leaf (mem t) pt va = leaf (mem s) pt va"
      "\<And>q. page_aligned q \<Longrightarrow> q \<noteq> m \<Longrightarrow> same_page (mem s) (mem t) q" "kend t = kend s" "kmem.more t = kmem.more s"
      "m \<notin> pgs (mem s) 2 pt" "m \<notin> set ps" "valid_page s m"
    using fresh_page_state[OF as kal fill t_def] by blast+
  have am: "page_aligned m" using tf(9) by (simp add: valid_page_def)
  have av: "page_aligned va" "va < MAXVA" using va upage_MAXVA by (simp_all add: upage_def)
  have pz: "page_aligned PGSIZE" "PGSIZE \<noteq> 0" "unat PGSIZE div 4096 = 1"
    by (simp_all add: page_aligned_unat PGSIZE_def)
  have rg: "in_range va 1 vb \<longleftrightarrow> vb = va" if "page_aligned vb" "vb < MAXVA" for vb
    using same_path_range[OF av that(2)] same_path_aligned[OF av(1) that(1) av(2) that(2)] by auto
  have top: "unat va + unat PGSIZE \<le> unat MAXVA"
    using va by (simp add: upage_def PGSIZE_def layout_defs word_less_nat_alt)
  have nv: "\<not> bit (leaf (mem t) pt vb) 0" if "in_range va (unat PGSIZE div 4096) vb" for vb
  proof -
    have r: "in_range va 1 vb" using that pz(3) by simp
    then have mv: "vb < MAXVA" using top by (simp add: in_range_def word_less_nat_alt PGSIZE_def)
    have "same_path 2 va vb" using r same_path_range[OF av mv] by simp
    then have "leaf (mem t) pt vb = leaf (mem t) pt va"
      unfolding same_path_def leaf_at_def by (metis slot_path)
    then show ?thesis using free tf(3) by simp
  qed
  obtain r s2 used rest where mp: "mappages pt va PGSIZE m f t = Inr (r, s2)" "ps = used @ rest"
      "pt_inv s2 2 pt rest" "pt_frame t s2 pt used" "mapped_range (mem t) (mem s2) pt va 1 m f r"
      "r = 0 \<or> r = -1 \<and> rest = [] \<and> length used < 2"
    using mappages_spec[OF tf(1) av(1) pz(1,2) top nv, of m f] pz(3) by auto
  have pf: "kend s2 = kend s" "kmem.more s2 = kmem.more s" "pgs (mem s2) 2 pt = pgs (mem s) 2 pt \<union> set used"
    "\<And>q. page_aligned q \<Longrightarrow> q \<notin> pgs (mem s) 2 pt \<Longrightarrow> q \<notin> set used \<Longrightarrow> same_page (mem t) (mem s2) q"
    using mp(4) tf by (simp_all add: pt_frame_def)
  have kp: "same_page (mem s) (mem s2) q" if "page_aligned q" "q \<notin> pgs (mem s) 2 pt" "q \<notin> set (m # ps)" for q
    using same_page_trans[OF tf(4) pf(4)] that mp(2) by auto
  obtain k where k: "k \<le> 1" "r = 0 \<longleftrightarrow> k = 1"
      "\<And>vb. vb < MAXVA \<Longrightarrow> leaf (mem s2) pt vb = (if in_range va k vb then mapped_pte va m f vb else leaf (mem s) pt vb)"
    using mp(5) tf(3) by (auto simp: mapped_range_def)
  have lo: "user_leaf_ok s2 pt (m # rest) (leaf (mem s) pt vb)" if "upage vb" for vb
    using as_ok_leaf[OF as that] pf mp(2) by (auto simp: user_leaf_ok_def valid_page_def split: if_splits)
  have mn: "m \<notin> pgs (mem s2) 2 pt" "m \<notin> set rest" "valid_page s2 m"
    using tf(7,8,9) pf mp(2) by (auto simp: valid_page_def)
  show thesis
  proof (cases "r = 0")
    case True
    then have lf: "leaf (mem s2) pt vb = (if vb = va then PA2PTE m OR f OR PTE_V else leaf (mem s) pt vb)"
      if "page_aligned vb" "vb < MAXVA" for vb using k(2) k(3)[OF that(2)] rg[OF that] by (simp add: mapped_pte_def)
    have lu: "leaf (mem s2) pt vb = (if vb = va then PA2PTE m OR f OR PTE_V else leaf (mem s) pt vb)"
      if "upage vb" for vb using lf that upage_MAXVA[OF that] by (simp add: upage_def)
    note pn = pte_flags_new[OF am f]
    have "user_leaf_ok s2 pt rest (leaf (mem s2) pt vb)" if "upage vb" for vb
      using lu[OF that] lo[OF that] pn mn by (auto simp: user_leaf_ok_def split: if_splits)
    moreover have "PTE2PA (leaf (mem s2) pt vb) \<noteq> PTE2PA (leaf (mem s2) pt vc)"
      if h: "upage vb" "upage vc" "vb \<noteq> vc" "bit (leaf (mem s2) pt vb) 0" "bit (leaf (mem s2) pt vc) 0" for vb vc
    proof -
      have "PTE2PA (leaf (mem s) pt vd) \<noteq> m" if "upage vd" "bit (leaf (mem s) pt vd) 0" for vd
        using lo[OF that(1)] that(2) by (auto simp: user_leaf_ok_def)
      moreover have "PTE2PA (leaf (mem s) pt vb) \<noteq> PTE2PA (leaf (mem s) pt vc)"
        if "bit (leaf (mem s) pt vb) 0" "bit (leaf (mem s) pt vc) 0"
        using as h(1-3) that unfolding as_ok_def by blast
      ultimately show ?thesis
        using h pn(1) lu[OF h(1)] lu[OF h(2)] by (cases "vb = va"; cases "vc = va") auto
    qed
    ultimately have "as_ok s2 pt rest" using mp(3) unfolding as_ok_def by blast
    moreover have "same_page m1 (mem s2) m" using pf(4)[OF am tf(7)] tf(8) mp(2) by (simp add: t_def)
    moreover have "kept s s2 pt (m # ps)" using kp pf(1) by (simp add: kept_def)
    ultimately show ?thesis
      using True mp(1,2) lf pf(2,3) pn(1) by (intro ok[of s2 rest]) (auto simp: t_def)
  next
    case False
    then have r: "r = -1" "rest = []" "length ps < 2" using mp(2,6) by auto
    obtain s3 where s3: "kfree m s2 = Inr s3" "pt_inv s3 2 pt [m]" "pgs (mem s3) 2 pt = pgs (mem s2) 2 pt"
        "\<And>va. leaf (mem s3) pt va = leaf (mem s2) pt va"
        "\<And>q. page_aligned q \<Longrightarrow> q \<noteq> m \<Longrightarrow> same_page (mem s2) (mem s3) q" "kend s3 = kend s2"
      using pt_inv_kfree[OF mp(3) mn(3,2,1)] r(2) by auto
    have lf: "leaf (mem s3) pt vb = leaf (mem s) pt vb" if "vb < MAXVA" for vb
      using k r(1) k(3)[OF that] s3(4) by (auto simp: in_range_def split: if_splits)
    have more: "kmem.more s3 = kmem.more s" using kfree_fields(2)[OF s3(1)] pf(2) by simp
    have "user_leaf_ok s3 pt [m] (leaf (mem s3) pt vb)" if "upage vb" for vb
      using lo[OF that] lf[OF upage_MAXVA[OF that]] s3(3,6) by (auto simp: user_leaf_ok_def valid_page_def split: if_splits)
    moreover have "PTE2PA (leaf (mem s3) pt vb) \<noteq> PTE2PA (leaf (mem s3) pt vc)"
      if "upage vb" "upage vc" "vb \<noteq> vc" "bit (leaf (mem s3) pt vb) 0" "bit (leaf (mem s3) pt vc) 0" for vb vc
      using as that unfolding as_ok_def lf[OF upage_MAXVA[OF that(1)]] lf[OF upage_MAXVA[OF that(2)]] by blast
    ultimately have "as_ok s3 pt [m]" using s3(2) unfolding as_ok_def by blast
    moreover have "kept s s3 pt (m # ps)"
      using same_page_trans[OF kp s3(5)] s3(6) pf(1) by (auto simp: kept_def)
    ultimately show ?thesis
      using mp(1,2) r s3(1,3) lf more pf(3) by (intro full[of s2 s3]) (auto simp: t_def)
  qed
qed

section \<open>Growing and shrinking\<close>

lemma int_page_count:
  assumes "unat n < 2 ^ 31"
  shows "scast (ucast (n :: u64) :: u32) = n"
proof -
  have lo: "\<not> bit n k" if "31 \<le> k" for k
  proof
    assume "bit n k"
    then have "bit (unat n) k" by (simp add: bit_unsigned_iff)
    then have "2 ^ k \<le> unat n" by (metis bit_iff_odd div_less dvd_0_right not_le)
    moreover have "(2 :: nat) ^ 31 \<le> 2 ^ k" using that by (rule power_increasing) simp
    ultimately show False using assms by simp
  qed
  show ?thesis
    by (rule bit_word_eqI) (use lo in \<open>auto simp: bit_signed_iff bit_unsigned_iff min_def not_le\<close>)
qed

lemma TRAPFRAME_nat: "unat TRAPFRAME = 0x3FFFFFE000"
  by (simp add: layout_defs)

lemma PGROUNDUP_nat: "sz \<le> TRAPFRAME \<Longrightarrow> unat (PGROUNDUP sz) = (unat sz + 4095) div 4096 * 4096"
  by (simp add: unat_PGROUNDUP word_le_nat_alt TRAPFRAME_nat)

lemma PGROUNDUP_mono: "a \<le> b \<Longrightarrow> b \<le> TRAPFRAME \<Longrightarrow> PGROUNDUP a \<le> PGROUNDUP b"
  using PGROUNDUP_nat[of a] PGROUNDUP_nat[of b] by (auto simp: word_le_nat_alt intro!: div_le_mono)

lemma PGROUNDUP_TRAPFRAME: "sz \<le> TRAPFRAME \<Longrightarrow> PGROUNDUP sz \<le> TRAPFRAME"
  using PGROUNDUP_mono[of sz TRAPFRAME] PGROUNDUP_nat[of TRAPFRAME] by (simp add: word_le_nat_alt TRAPFRAME_nat)

lemma unat_mult_PGSIZE: "unat n * 4096 < 18446744073709551616 \<Longrightarrow> unat (n * PGSIZE) = unat n * 4096"
  by (simp add: unat_word_ariths PGSIZE_def)

lemma uvmdealloc_spec:
  assumes as: "as_ok s pt ps" and sz: "oldsz \<le> TRAPFRAME"
  shows "\<exists>s' ps'. uvmdealloc pt oldsz newsz s = Inr (min oldsz newsz, s') \<and>
    unmapped s s' pt ps ps' (if newsz < oldsz then page_range (PGROUNDUP newsz) (PGROUNDUP oldsz) else {})"
proof (cases "newsz < oldsz")
  case False
  then show ?thesis using unmapped_refl[OF as, of "{}"] by (auto simp: uvmdealloc_def min_def)
next
  case True
  let ?a = "PGROUNDUP newsz" and ?e = "PGROUNDUP oldsz"
  have le: "newsz \<le> TRAPFRAME" "?a \<le> ?e" "?e \<le> TRAPFRAME"
    using True sz PGROUNDUP_mono[of newsz oldsz] PGROUNDUP_TRAPFRAME by auto
  have al: "page_aligned ?a" "page_aligned ?e" by (simp_all add: PGROUNDUP_aligned)
  show ?thesis
  proof (cases "?a < ?e")
    case False
    then have "page_range ?a ?e = {}" by (auto simp: page_range_def)
    then show ?thesis using True False unmapped_refl[OF as, of "{}"] by (auto simp: uvmdealloc_def min_def)
  next
    case lt: True
    let ?n = "(?e - ?a) div PGSIZE"
    have un: "unat ?n = (unat ?e - unat ?a) div 4096"
      using le(2) by (simp add: unat_div_distrib unat_sub PGSIZE_def)
    have "unat ?n < 2 ^ 31" unfolding un using le(3) by (simp add: word_le_nat_alt TRAPFRAME_nat)
    note pc = int_page_count[OF this]
    have "4096 dvd unat ?e - unat ?a"
      using al by (intro dvd_diff_nat) (simp_all add: page_aligned_unat mod_eq_0_iff_dvd)
    then have mul: "unat ?n * 4096 = unat ?e - unat ?a" unfolding un by simp
    have "unat (?n * PGSIZE) = unat ?e - unat ?a"
      unfolding mul[symmetric] by (rule unat_mult_PGSIZE) (use mul unat_u64_less[of ?e] in simp)
    then have "unat (?a + ?n * PGSIZE) = unat ?e"
      using le(2) unat_u64_less[of ?e] by (subst unat_word_ariths(1)) (simp add: word_le_nat_alt)
    then have e: "?a + ?n * PGSIZE = ?e" by (rule u64_eqI)
    obtain s' ps' where "uvmunmap_loop pt ?a ?e True s = Inr s'" "unmapped s s' pt ps ps' (page_range ?a ?e)"
      using unmap_loop[OF as al(1) le(3)] by blast
    then show ?thesis
      using True lt al(1) pc e by (auto simp: uvmdealloc_def uvmunmap_def page_aligned_def min_def Let_def)
  qed
qed

text \<open>A page of zeros.\<close>

definition zero_page :: "memory \<Rightarrow> u64 \<Rightarrow> bool" where
  "zero_page m p = (\<forall>i < 4096. m (p + of_nat i) = 0)"

lemma zero_page_memset: "zero_page (memset m p 0 4096) p"
  by (auto simp: zero_page_def memset_eq unat_of_nat_u64)

lemma zero_page_same: "page_aligned p \<Longrightarrow> same_page m m' p \<Longrightarrow> zero_page m p \<Longrightarrow> zero_page m' p"
  by (auto simp: zero_page_def same_page_def dest: in_page_self)

text \<open>
  The pages from \<open>lo\<close> to \<open>a\<close> have been added to the address space of \<open>s0\<close>, each a fresh page of
  zeros mapped with the flags \<open>f\<close>.
\<close>

definition fresh_leaf :: "memory \<Rightarrow> u64 \<Rightarrow> u64 \<Rightarrow> bool" where
  "fresh_leaf m f v = (\<exists>p. page_aligned p \<and> v = PA2PTE p OR f OR PTE_V \<and> zero_page m p)"

definition alloc_inv ::
  "'a vmst_scheme \<Rightarrow> u64 list \<Rightarrow> 'a vmst_scheme \<Rightarrow> u64 list \<Rightarrow> u64 \<Rightarrow> u64 \<Rightarrow> u64 \<Rightarrow> u64 \<Rightarrow> bool" where
  "alloc_inv s0 ps0 s ps pt lo a f =
     (as_ok s pt ps \<and> kept s0 s pt ps0 \<and> procs s = procs s0 \<and> curproc s = curproc s0 \<and>
      (\<forall>va. page_aligned va \<longrightarrow> va < MAXVA \<longrightarrow>
         (if va \<in> page_range lo a then fresh_leaf (mem s) f (leaf (mem s) pt va)
          else leaf (mem s) pt va = leaf (mem s0) pt va)) \<and>
      pgs (mem s) 2 pt \<union> set ps \<union> frames_of (mem s) pt (page_range lo a) \<subseteq> pgs (mem s0) 2 pt \<union> set ps0)"

lemma alloc_inv_leaf:
  "alloc_inv s0 ps0 s ps pt lo a f \<Longrightarrow> page_aligned va \<Longrightarrow> va < MAXVA \<Longrightarrow>
   (if va \<in> page_range lo a then fresh_leaf (mem s) f (leaf (mem s) pt va) else leaf (mem s) pt va = leaf (mem s0) pt va)"
  by (simp add: alloc_inv_def)

lemma alloc_inv_step:
  assumes inv: "alloc_inv s0 ps0 s (m # ps) pt lo a f" and a: "upage a" "lo \<le> a" and lf0: "leaf (mem s0) pt a = 0"
    and f: "PTE_FLAGS f = f" "bit f 1" and kal: "kalloc s = (m, s1)"
  obtains (full) s2 s3 where "mappages pt a PGSIZE m f (s1\<lparr>mem := memset (mem s1) m 0 4096\<rparr>) = Inr (-1, s2)"
      "kfree m s2 = Inr s3" "alloc_inv s0 ps0 s3 [m] pt lo a f"
  | (ok) s2 rest where "mappages pt a PGSIZE m f (s1\<lparr>mem := memset (mem s1) m 0 4096\<rparr>) = Inr (0, s2)"
      "alloc_inv s0 ps0 s2 rest pt lo (a + PGSIZE) f"
proof -
  let ?m1 = "memset (mem s1) m 0 4096" and ?R = "page_range lo a"
  have as: "as_ok s pt (m # ps)" and kp: "kept s0 s pt ps0" and pc: "procs s = procs s0" "curproc s = curproc s0"
    and sub: "pgs (mem s) 2 pt \<union> set (m # ps) \<union> frames_of (mem s) pt ?R \<subseteq> pgs (mem s0) 2 pt \<union> set ps0"
    using inv by (simp_all add: alloc_inv_def)
  have al: "page_aligned a" "a < MAXVA" using a(1) upage_MAXVA by (simp_all add: upage_def)
  have aR: "a \<notin> ?R" by (simp add: page_range_def)
  have R2: "page_range lo (a + PGSIZE) = insert a ?R"
  proof -
    have "va < a + PGSIZE \<longleftrightarrow> va = a \<or> va < a" if "page_aligned va" for va
      using page_succ(3)[OF al that] by (metis not_le order.order_iff_strict)
    then show ?thesis using al(1) a(2) by (auto simp: page_range_def)
  qed
  have am: "page_aligned m" "m \<notin> pgs (mem s) 2 pt"
    using as_ok_pt[OF as] by (auto simp: pt_inv_def free_list_def valid_page_def)
  have fill: "same_page (mem s1) ?m1 q" if "page_aligned q" "q \<noteq> m" for q
    using memset_page_other[OF am(1) that(1)] that(2) by blast
  have la: "\<not> bit (leaf (mem s) pt a) 0" using alloc_inv_leaf[OF inv al] aR lf0 by simp
  have keepR: "fresh_leaf (mem t) f (leaf (mem s) pt va)"
    if "va \<in> ?R" "kept s t pt (m # ps)" for va t
  proof -
    note vaR = that(1)
    have va: "upage va" using vaR a(1) by (auto simp: page_range_def upage_def)
    obtain p where p: "page_aligned p" "leaf (mem s) pt va = PA2PTE p OR f OR PTE_V" "zero_page (mem s) p"
      using alloc_inv_leaf[OF inv, of va] va upage_MAXVA[OF va] vaR unfolding upage_def fresh_leaf_def by auto
    have "PTE2PA (leaf (mem s) pt va) = p" "bit (leaf (mem s) pt va) 0"
      using pte_flags_new(1,3)[OF p(1) f] p(2) by simp_all
    then have "same_page (mem s) (mem t) p"
      using as_ok_leaf[OF as va] that(2) p(1) by (auto simp: user_leaf_ok_def kept_def)
    with p show ?thesis unfolding fresh_leaf_def using zero_page_same by blast
  qed
  have kp2: "kept s0 t pt ps0" if "kept s t pt (m # ps)" for t
    using kept_trans[OF kp that] sub by blast
  have frR: "frames_of (mem t) pt ?R = frames_of (mem s) pt ?R"
    if "\<And>vb. page_aligned vb \<Longrightarrow> vb < MAXVA \<Longrightarrow> vb \<noteq> a \<Longrightarrow> leaf (mem t) pt vb = leaf (mem s) pt vb" for t
  proof -
    have "leaf (mem t) pt vb = leaf (mem s) pt vb" if "vb \<in> ?R" for vb
      using \<open>\<And>vb. page_aligned vb \<Longrightarrow> vb < MAXVA \<Longrightarrow> vb \<noteq> a \<Longrightarrow> leaf (mem t) pt vb = leaf (mem s) pt vb\<close>
        that aR al(2) by (auto simp: page_range_def)
    then show ?thesis unfolding frames_of_def by (metis (no_types, lifting))
  qed
  show thesis
  proof (rule map_fresh[where ?m1.0 = ?m1, OF as kal _ a(1) la f], goal_cases)
    case (1 q)
    then show ?case by (rule fill)
  next
    case full: (2 s2 s3)
    have "frames_of (mem s3) pt ?R = frames_of (mem s) pt ?R" by (rule frR) (rule full(4))
    then have "alloc_inv s0 ps0 s3 [m] pt lo a f"
      unfolding alloc_inv_def
      using full(3) kp2[OF full(5)] kmem_more_tables[OF full(6)] pc sub full(7) keepR[OF _ full(5)]
        alloc_inv_leaf[OF inv] full(4) by auto
    with full(1,2) show ?thesis by (rule that(1))
  next
    case ok: (3 s2 rest)
    have "frames_of (mem s2) pt ?R = frames_of (mem s) pt ?R" by (rule frR) (simp add: ok(3))
    then have fr: "frames_of (mem s2) pt (page_range lo (a + PGSIZE)) \<subseteq> insert m (frames_of (mem s) pt ?R)"
      using ok(3)[OF al] ok(9) unfolding R2 frames_of_def by auto
    have "fresh_leaf (mem s2) f (PA2PTE m OR f OR PTE_V)"
      unfolding fresh_leaf_def using am(1) zero_page_same[OF am(1) ok(5) zero_page_memset] by blast
    then have "alloc_inv s0 ps0 s2 rest pt lo (a + PGSIZE) f"
      unfolding alloc_inv_def R2
      using ok(2) kp2[OF ok(4)] kmem_more_tables[OF ok(6)] pc sub ok(7,8) keepR[OF _ ok(4)]
        alloc_inv_leaf[OF inv] ok(3) fr[unfolded R2] by auto
    with ok(1) show ?thesis by (rule that(2))
  qed
qed

text \<open>Undoing a partial growth restores every leaf entry.\<close>

lemma alloc_undo:
  assumes inv: "alloc_inv s0 ps0 s ps pt lo a f" and a: "page_aligned lo" "page_aligned a" "a \<le> TRAPFRAME"
    and lf0: "\<And>va. va \<in> page_range lo a \<Longrightarrow> leaf (mem s0) pt va = 0"
  shows "\<exists>r s' ps'. uvmdealloc pt a lo s = Inr (r, s') \<and> as_ok s' pt ps' \<and> kept s0 s' pt ps0 \<and>
    procs s' = procs s0 \<and> curproc s' = curproc s0 \<and>
    (\<forall>va. page_aligned va \<longrightarrow> va < MAXVA \<longrightarrow> leaf (mem s') pt va = leaf (mem s0) pt va)"
proof -
  have as: "as_ok s pt ps" using inv by (simp add: alloc_inv_def)
  have up: "PGROUNDUP lo = lo" "PGROUNDUP a = a" if "lo < a"
    using a that PGROUNDUP_bounds[of lo] PGROUNDUP_bounds[of a]
    by (auto simp: word_less_nat_alt word_le_nat_alt TRAPFRAME_nat intro!: antisym)
  let ?R = "if lo < a then page_range lo a else {}"
  obtain s' ps' where d: "uvmdealloc pt a lo s = Inr (min a lo, s')" "unmapped s s' pt ps ps' ?R"
    using uvmdealloc_spec[OF as a(3), of lo] up by (auto split: if_splits)
  have R: "?R = page_range lo a" by (auto simp: page_range_def)
  have "leaf (mem s') pt va = leaf (mem s0) pt va" if "page_aligned va" "va < MAXVA" for va
    using unmapped_leaf[OF d(2) that] alloc_inv_leaf[OF inv that] lf0[of va] unfolding R by (auto split: if_splits)
  moreover have "kept s0 s' pt ps0"
  proof -
    have "same_page (mem s0) (mem s') q" if "page_aligned q" "q \<notin> pgs (mem s0) 2 pt" "q \<notin> set ps0" for q
    proof -
      have sub: "q \<notin> pgs (mem s) 2 pt" "q \<notin> frames_of (mem s) pt (page_range lo a)"
        using inv that unfolding alloc_inv_def by blast+
      have "same_page (mem s0) (mem s) q" using inv that by (simp add: alloc_inv_def kept_def)
      moreover have "same_page (mem s) (mem s') q" using d(2) that(1) sub unfolding R unmapped_def by blast
      ultimately show ?thesis by (rule same_page_trans)
    qed
    then show ?thesis using inv d(2) by (simp add: kept_def alloc_inv_def unmapped_def)
  qed
  ultimately show ?thesis
    using d inv by (intro exI[of _ "min a lo"] exI[of _ s'] exI[of _ ps']) (simp add: unmapped_def alloc_inv_def)
qed

definition grown_by ::
  "'a vmst_scheme \<Rightarrow> 'a vmst_scheme \<Rightarrow> u64 \<Rightarrow> u64 list \<Rightarrow> u64 \<Rightarrow> u64 \<Rightarrow> u64 \<Rightarrow> bool" where
  "grown_by s s' pt ps lo hi f =
     ((\<exists>ps'. as_ok s' pt ps') \<and> kept s s' pt ps \<and> procs s' = procs s \<and> curproc s' = curproc s \<and>
      (\<forall>va. page_aligned va \<longrightarrow> va < MAXVA \<longrightarrow>
         (if va \<in> page_range lo hi then fresh_leaf (mem s') f (leaf (mem s') pt va)
          else leaf (mem s') pt va = leaf (mem s) pt va)))"

lemma uvmalloc_loop_spec:
  assumes "alloc_inv s0 ps0 s ps pt lo a f" "page_aligned lo" "page_aligned a" "lo \<le> a" "a \<le> TRAPFRAME"
    and hi: "hi \<le> TRAPFRAME" "\<And>va. va \<in> page_range lo a \<Longrightarrow> va < hi"
    and lf0: "\<And>va. va \<in> page_range lo hi \<Longrightarrow> leaf (mem s0) pt va = 0"
    and f: "f = PTE_R OR PTE_U OR xperm" "PTE_FLAGS f = f" "bit f 1"
  shows "\<exists>r s'. uvmalloc_loop pt a lo hi xperm s = Inr (r, s') \<and>
    (r = hi \<and> grown_by s0 s' pt ps0 lo hi f \<or> r = 0 \<and> grown_by s0 s' pt ps0 0 0 f)"
  using assms(1,3,4,5) hi(2)
proof (induction "unat MAXVA - unat a" arbitrary: a s ps rule: less_induct)
  case less
  have undo: "\<exists>r s'. uvmdealloc pt a lo t = Inr (r, s') \<and> grown_by s0 s' pt ps0 0 0 f"
    if "alloc_inv s0 ps0 t qs pt lo a f" for t qs
  proof -
    have "leaf (mem s0) pt va = 0" if "va \<in> page_range lo a" for va
      using lf0[of va] less.prems(5)[OF that] that by (auto simp: page_range_def)
    from alloc_undo[OF that assms(2) less.prems(2,4) this] show ?thesis
      unfolding grown_by_def by (fastforce simp: page_range_def)
  qed
  show ?case
  proof (cases "a < hi")
    case False
    then have "page_range lo a = page_range lo hi" using less.prems(5) by (auto simp: page_range_def)
    then have "grown_by s0 s pt ps0 lo hi f"
      using less.prems(1) by (auto simp: grown_by_def alloc_inv_def)
    then show ?thesis using False by (auto simp: uvmalloc_loop.simps)
  next
    case True
    have ua: "upage a" using True hi(1) less.prems(2) by (simp add: upage_def)
    note mv = upage_MAXVA[OF ua]
    have l0: "leaf (mem s0) pt a = 0" using lf0[of a] True less.prems(2,3) by (simp add: page_range_def)
    have fl: "free_list s ps" using less.prems(1) by (simp add: alloc_inv_def as_ok_def pt_inv_def)
    show ?thesis
    proof (cases ps)
      case Nil
      then have "kalloc s = (0, s)" using kalloc_Nil fl by simp
      then show ?thesis using undo[OF less.prems(1)] True by (auto simp: uvmalloc_loop.simps[of pt a])
    next
      case (Cons m qs)
      obtain s1 where kal: "kalloc s = (m, s1)" using kalloc_Cons(1)[OF fl[unfolded Cons]] by blast
      have m0: "m \<noteq> 0" using fl Cons by (simp add: free_list_def)
      from less.prems(1)[unfolded Cons] ua less.prems(3) l0 f(2,3) kal show ?thesis
      proof (cases rule: alloc_inv_step)
        case (full s2 s3)
        then show ?thesis using undo[OF full(3)] True kal m0 f(1) by (auto simp: uvmalloc_loop.simps[of pt a])
      next
        case (ok s2 rest)
        have "a + PGSIZE \<le> TRAPFRAME"
          using page_succ(3)[OF less.prems(2) mv, of TRAPFRAME] ua by (simp add: upage_def page_aligned_unat TRAPFRAME_nat)
        moreover have "va < hi" if "va \<in> page_range lo (a + PGSIZE)" for va
        proof -
          have "va \<le> a" using that page_succ(3)[OF less.prems(2) mv, of va] by (auto simp: page_range_def not_less[symmetric])
          then show ?thesis using True by simp
        qed
        ultimately have "\<exists>r s'. uvmalloc_loop pt (a + PGSIZE) lo hi xperm s2 = Inr (r, s') \<and>
            (r = hi \<and> grown_by s0 s' pt ps0 lo hi f \<or> r = 0 \<and> grown_by s0 s' pt ps0 0 0 f)"
          using less.prems(3) page_succ(1,2)[OF less.prems(2) mv]
          by (intro less.hyps[OF PGSIZE_measure[OF mv] ok(2)]) auto
        then show ?thesis using ok(1) True kal m0 f(1) by (auto simp: uvmalloc_loop.simps[of pt a])
      qed
    qed
  qed
qed

section \<open>Page faults\<close>

lemma kalloc_or_evict_plain:
  assumes "frametable_used s < MAXFRAMES" "free_list s (m # ps)"
  shows "kalloc_or_evict s = Inr (kalloc s)"
proof -
  obtain s1 where "kalloc s = (m, s1)" "m \<noteq> 0"
    using kalloc_Cons(1)[OF assms(2)] assms(2) by (auto simp: free_list_def)
  then show ?thesis using assms(1) by (simp add: kalloc_or_evict_def)
qed

lemma walk_existing: "pte_slot (mem s) l pt va = Some a \<Longrightarrow> walk_loop l pt va True s = (a, s)"
proof (induction l arbitrary: pt)
  case 0
  then show ?case by (simp add: PX_px)
next
  case (Suc l)
  then show ?case by (auto simp: PX_px entry_def Let_def flag_test split: if_splits)
qed

lemma mappages_existing:
  assumes "pte_slot (mem s) 2 pt va = Some a" "a \<noteq> 0" "page_aligned va" "va < MAXVA" "\<not> bit (leaf (mem s) pt va) 0"
  shows "mappages pt va PGSIZE m f s = Inr (0, s\<lparr>mem := store64 (mem s) a (PA2PTE m OR f OR PTE_V)\<rparr>)"
proof -
  have "walk pt va True s = Inr (a, s)" using assms walk_existing[OF assms(1)] by (simp add: walk_def)
  moreover have "load64 (mem s) a AND PTE_V = 0" using assms(5) leaf_at_slot[OF assms(1)] by (simp add: flag_test)
  moreover have "page_aligned PGSIZE" by (simp add: page_aligned_unat PGSIZE_def)
  ultimately show ?thesis
    using assms(2,3) by (simp add: mappages_def page_aligned_def mappages_loop.simps PGSIZE_def)
qed

text \<open>The state after a page has been entered for process \<open>p\<close>.\<close>

lemma as_ok_cong:
  "mem s' = mem s \<Longrightarrow> freelist s' = freelist s \<Longrightarrow> kend s' = kend s \<Longrightarrow> as_ok s' pt ps = as_ok s pt ps"
  by (simp add: as_ok_def user_leaf_ok_def valid_page_def pt_inv_cong[of s' s])

definition fault_flags :: u64 where
  "fault_flags = PTE_W OR PTE_R OR PTE_X OR PTE_U"

lemma fault_flags: "PTE_FLAGS fault_flags = fault_flags" "bit fault_flags 1" "bit fault_flags 4" "bit fault_flags 2"
  by (simp_all add: fault_flags_def PTE_FLAGS_def PTE_W_def PTE_R_def PTE_X_def PTE_U_def)

text \<open>
  A page fault with memory at hand: the address space stays well formed, and either the page of the
  faulting address is now mapped and no other entry has changed, or nothing is mapped that was not.
  \<open>Q\<close> says what the new page holds.
\<close>

definition faulted :: "'a vmst_scheme \<Rightarrow> 'a vmst_scheme \<Rightarrow> u64 \<Rightarrow> u64 \<Rightarrow> int \<Rightarrow> (memory \<Rightarrow> u64 \<Rightarrow> bool) \<Rightarrow> bool" where
  "faulted s s' pt va r Q =
     ((\<exists>ps. as_ok s' pt ps) \<and>
      (if r = 1
       then (\<exists>m. page_aligned m \<and> leaf (mem s') pt va = PA2PTE m OR fault_flags OR PTE_V \<and> Q (mem s') m) \<and>
            (\<forall>vb. page_aligned vb \<longrightarrow> vb < MAXVA \<longrightarrow> vb \<noteq> va \<longrightarrow> leaf (mem s') pt vb = leaf (mem s) pt vb)
       else r = 0 \<and> (\<forall>vb. page_aligned vb \<longrightarrow> vb < MAXVA \<longrightarrow> leaf (mem s') pt vb = leaf (mem s) pt vb)))"

lemma fault_lazy_spec:
  assumes as: "as_ok s pt (m # ps)" and va: "upage va" and free: "\<not> bit (leaf (mem s) pt va) 0"
    and room: "frametable_used s < MAXFRAMES"
  shows "\<exists>r s'. fault_lazy pt j va s = Inr (r, s') \<and> faulted s s' pt va r zero_page"
proof -
  have fl: "free_list s (m # ps)" using as by (simp add: as_ok_def pt_inv_def)
  obtain s1 where kal: "kalloc s = (m, s1)" using kalloc_Cons(1)[OF fl] by blast
  have m: "m \<noteq> 0" "page_aligned m" using fl by (auto simp: free_list_def valid_page_def)
  have ke: "kalloc_or_evict s = Inr (m, s1)" using kalloc_or_evict_plain[OF room fl] kal by simp
  let ?m1 = "memset (mem s1) m 0 4096"
  show ?thesis
  proof (rule map_fresh[where ?m1.0 = ?m1, OF as kal _ va free fault_flags(1,2)], goal_cases)
    case (1 q)
    then show ?case using memset_page_other[OF m(2) 1(1)] by blast
  next
    case (2 s2 s3)
    then show ?thesis
      using ke m(1) unfolding fault_lazy_def fault_flags_def[symmetric] faulted_def by auto
  next
    case (3 s2 rest)
    let ?s' = "upd_proc j (\<lambda>q. q\<lparr>p_page_faults := p_page_faults q + 1, p_resident_pages := p_resident_pages q + 1\<rparr>)
        (frametable_add m (p_pid (procs s2 ! j)) va s2)"
    have "as_ok ?s' pt rest" using 3(2) by (subst as_ok_cong[of _ s2]) simp_all
    moreover have "zero_page (mem s2) m" using zero_page_same[OF m(2) 3(5) zero_page_memset] .
    moreover have "fault_lazy pt j va s = Inr (1, ?s')"
      using ke m(1) 3(1) by (simp add: fault_lazy_def fault_flags_def[symmetric])
    ultimately show ?thesis
      using 3(3) va upage_MAXVA[OF va] m(2) by (auto simp: faulted_def upage_def)
  qed
qed

lemma store_bytes_page_other:
  assumes "page_aligned p" "page_aligned q" "p \<noteq> q" "length bs \<le> 4096"
  shows "same_page m (store_bytes m p bs) q"
  unfolding same_page_def
proof (intro allI impI)
  fix x assume x: "in_page q x"
  have "\<not> unat (x - p) < length bs"
    using in_page_disjoint[OF assms(1,2) _ x] assms(3,4) by (auto simp: in_page_def)
  then show "m x = store_bytes m p bs x" by (simp add: store_bytes_def)
qed

lemma load_bytes_same: "same_page m m' p \<Longrightarrow> n \<le> 4096 \<Longrightarrow> load_bytes m p n = load_bytes m' p n"
  by (auto simp: load_bytes_def same_page_def intro!: nth_equalityI)

lemma kalloc_swap_free: "kalloc s = (m, s1) \<Longrightarrow> kalloc (swap_free k s) = (m, swap_free k s1)"
  by (auto simp: kalloc_def swap_free_def Let_def split: if_splits)

lemma fault_swapped_spec:
  assumes as: "as_ok s pt (m # ps)" and va: "upage va" and lf: "leaf (mem s) pt va = swap_pte k"
    and k: "k < MAX_SWAP_SLOTS" "sl_used (swap_area s ! k)" "length (sl_data (swap_area s ! k)) = 4096" "k < length (swap_area s)"
    and room: "frametable_used s < MAXFRAMES"
  shows "\<exists>s'. fault_swapped pt j va (int k) s = Inr (1, s') \<and>
    faulted s s' pt va 1 (\<lambda>m p. load_bytes m p 4096 = sl_data (swap_area s ! k)) \<and> \<not> sl_used (swap_area s' ! k)"
proof -
  let ?d = "sl_data (swap_area s ! k)"
  have fl: "free_list s (m # ps)" using as by (simp add: as_ok_def pt_inv_def)
  obtain s1 where kal: "kalloc s = (m, s1)" using kalloc_Cons(1)[OF fl] by blast
  have m: "m \<noteq> 0" "page_aligned m" using fl by (auto simp: free_list_def valid_page_def)
  have ke: "kalloc_or_evict s = Inr (m, s1)" using kalloc_or_evict_plain[OF room fl] kal by simp
  have sw: "swap_area s1 = swap_area s" using kal by (auto simp: kalloc_def Let_def split: if_splits)
  let ?m1 = "store_bytes (mem s1) m ?d"
  let ?z = "swap_free (int k) s" and ?z1 = "swap_free (int k) s1"
  have si: "swap_in (int k) m s1 = (0, s1\<lparr>mem := ?m1\<rparr>)" using k sw by (simp add: swap_in_def)
  have zt: "swap_free (int k) (s1\<lparr>mem := ?m1\<rparr>) = ?z1\<lparr>mem := ?m1\<rparr>" by (simp add: swap_free_def)
  have asz: "as_ok ?z pt (m # ps)" using as by (subst as_ok_cong[of _ s]) simp_all
  have fz: "\<not> bit (leaf (mem ?z) pt va) 0" using lf by (simp add: bit_facts)
  have fill: "same_page (mem ?z1) ?m1 q" if "page_aligned q" "q \<noteq> m" for q
    using store_bytes_page_other[of m q ?d "mem s1"] m(2) that k(3) by simp
  have un: "\<not> sl_used (swap_area ?z1 ! k)" using k(1,4) sw by (simp add: swap_free_def)
  show ?thesis
  proof (rule map_fresh[where ?m1.0 = ?m1, OF asz kalloc_swap_free[OF kal] _ va fz fault_flags(1,2)], goal_cases)
    case (1 q)
    then show ?case by (rule fill)
  next
    case (2 s2 s3)
    have "leaf (mem (?z1\<lparr>mem := ?m1\<rparr>)) pt va = swap_pte k" "pt_inv (?z1\<lparr>mem := ?m1\<rparr>) 2 pt ps"
      using fresh_page_state(1,3)[OF asz kalloc_swap_free[OF kal] fill refl] lf by simp_all
    note t = this
    have nz: "leaf (mem (?z1\<lparr>mem := ?m1\<rparr>)) pt va \<noteq> 0" "\<not> bit (leaf (mem (?z1\<lparr>mem := ?m1\<rparr>)) pt va) 0"
      unfolding t(1) using bit_swap_pte[of k 8] bit_swap_pte[of k 0] by auto
    obtain a where a: "a \<noteq> 0" "pte_slot (mem (?z1\<lparr>mem := ?m1\<rparr>)) 2 pt va = Some a"
      by (rule walk_valid_leaf[OF t(2) upage_MAXVA[OF va] nz(1)])
    have "page_aligned va" using va by (simp add: upage_def)
    from mappages_existing[OF a(2,1) this upage_MAXVA[OF va] nz(2), of m fault_flags] 2(1) show ?thesis by simp
  next
    case (3 s2 rest)
    let ?s' = "upd_proc j (\<lambda>q. q\<lparr>p_page_faults := p_page_faults q + 1, p_pages_swapped_in := p_pages_swapped_in q + 1\<rparr>)
        (frametable_add m (p_pid (procs s2 ! j)) va s2)"
    have "as_ok ?s' pt rest" using 3(2) by (subst as_ok_cong[of _ s2]) simp_all
    moreover have "load_bytes (mem s2) m 4096 = ?d"
      using load_bytes_same[OF 3(5), of 4096] load_store_bytes[of ?d "mem s1" m] k(3) by simp
    moreover have "fault_swapped pt j va (int k) s = Inr (1, ?s')"
      using ke m(1) si zt 3(1) by (simp add: fault_swapped_def fault_flags_def[symmetric])
    moreover have "\<not> sl_used (swap_area ?s' ! k)"
      using un kmem_more_tables(1)[OF 3(6)] sw k(1,4) by (simp add: swap_free_def)
    ultimately show ?thesis
      using 3(3) va upage_MAXVA[OF va] m(2) lf by (auto simp: faulted_def upage_def)
  qed
qed

text \<open>An eviction leaves a well-formed address space in which the page is swapped out.\<close>

lemma evicted_as_ok:
  assumes as: "as_ok s pt ps" and ev: "evicted s s' i pt ps k" and va: "upage (fr_va (ftable s ! i))"
    and pa: "PTE2PA (leaf (mem s) pt (fr_va (ftable s ! i))) = fr_pa (ftable s ! i)"
    and val: "bit (leaf (mem s) pt (fr_va (ftable s ! i))) 0" and kend: "kend s' = kend s"
  shows "as_ok s' pt (fr_pa (ftable s ! i) # ps)"
proof -
  let ?va = "fr_va (ftable s ! i)" and ?pa = "fr_pa (ftable s ! i)"
  have ev': "leaf (mem s') pt ?va = swap_pte k" "pt_inv s' 2 pt (?pa # ps)" "pgs (mem s') 2 pt = pgs (mem s) 2 pt"
    "\<And>vb. vb < MAXVA \<Longrightarrow> PGROUNDDOWN vb \<noteq> PGROUNDDOWN ?va \<Longrightarrow> leaf (mem s') pt vb = leaf (mem s) pt vb"
    using ev by (auto simp: evicted_def Let_def)
  have lf: "leaf (mem s') pt vb = (if vb = ?va then swap_pte k else leaf (mem s) pt vb)" if "upage vb" for vb
  proof -
    have "PGROUNDDOWN vb = vb" "PGROUNDDOWN ?va = ?va" using that va by (simp_all add: upage_def PGROUNDDOWN_id)
    then show ?thesis using ev'(1) ev'(4)[OF upage_MAXVA[OF that]] by auto
  qed
  have sp: "\<not> bit (swap_pte k) 0" "bit (swap_pte k) 8" using bit_swap_pte[of k 0] bit_swap_pte[of k 8] by auto
  have "user_leaf_ok s' pt (?pa # ps) (leaf (mem s') pt vb)" if "upage vb" for vb
  proof (cases "vb = ?va")
    case True
    then show ?thesis using lf[OF that] sp by (simp add: user_leaf_ok_def)
  next
    case False
    then have "bit (leaf (mem s) pt vb) 0 \<Longrightarrow> PTE2PA (leaf (mem s) pt vb) \<noteq> ?pa"
      using as that va val pa unfolding as_ok_def by metis
    then show ?thesis using as_ok_leaf[OF as that] lf[OF that] False ev'(3) kend
      by (auto simp: user_leaf_ok_def valid_page_def split: if_splits)
  qed
  moreover have "PTE2PA (leaf (mem s') pt vb) \<noteq> PTE2PA (leaf (mem s') pt vc)"
    if "upage vb" "upage vc" "vb \<noteq> vc" "bit (leaf (mem s') pt vb) 0" "bit (leaf (mem s') pt vc) 0" for vb vc
  proof -
    have "vb \<noteq> ?va" "vc \<noteq> ?va" using that lf[OF that(1)] lf[OF that(2)] sp(1) by auto
    then show ?thesis using as that lf[OF that(1)] lf[OF that(2)] unfolding as_ok_def by simp
  qed
  ultimately show ?thesis using ev'(2) unfolding as_ok_def by blast
qed

lemma evicted_room:
  assumes "tables_ok s" "evicted s s' i pt ps k" "i < MAXFRAMES"
  shows "frametable_used s' < MAXFRAMES"
proof -
  have len: "length (ftable s') = MAXFRAMES" and cl: "\<not> fr_used (ftable s' ! i)"
    using assms(1-3) by (simp_all add: evicted_def Let_def tables_ok_def clear_frame_def)
  then have "count_if fr_used (ftable s') \<noteq> length (ftable s')"
    using assms(3) unfolding count_if_full by (metis nth_mem)
  then show ?thesis using count_if_le[of fr_used "ftable s'"] len by (simp add: frametable_used_def)
qed

lemma clock_evict_full:
  assumes "tables_ok s" "levels_ok s" "slots_used s < MAX_SWAP_SLOTS" "fst (clock_victim s) = Some i" "frame_ok s i j ps"
  shows "\<exists>k s'. clock_evict s = Inr (fr_pa (ftable s ! i), s') \<and> evicted s s' i (p_pagetable (procs s ! j)) ps k \<and>
    kend s' = kend s \<and> curproc s' = curproc s \<and> i < MAXFRAMES \<and> p_sz (procs s' ! j) = p_sz (procs s ! j)"
proof -
  obtain s1 where s1: "clock_victim s = (Some i, s1)" using assms(4) by (metis prod.collapse)
  obtain h where h: "s1 = s\<lparr>ftable := map second_chance (ftable s), clock_hand := h\<rparr>"
    using clock_victim_exact[OF assms(1,2)] s1 by auto
  have i: "i < MAXFRAMES" using clock_victim_less[OF assms(1,2) s1] .
  obtain k s' where e: "clock_evict s = Inr (fr_pa (ftable s ! i), s')" "evicted s s' i (p_pagetable (procs s ! j)) ps k"
      "procs s' = procs (upd_proc j (\<lambda>p. p\<lparr>p_pages_evicted := p_pages_evicted p + 1,
        p_pages_swapped_out := p_pages_swapped_out p + 1, p_resident_pages := p_resident_pages p - 1\<rparr>) s)"
      "curproc s' = curproc s" "kend s' = kend s"
    using clock_evict_effect[OF assms(1,3) s1[unfolded h] i assms(5) refl] by blast
  have "p_sz (procs s' ! j) = p_sz (procs s ! j)"
    using e(3) by (cases "j < length (procs s)") (simp_all add: upd_proc_def list_update_beyond)
  with e i show ?thesis by blast
qed

lemma walk_swapped:
  assumes "pt_inv s 2 pt ps" "va < MAXVA" "leaf (mem s) pt va = swap_pte k"
  obtains a where "walk pt va False s = Inr (a, s)" "a \<noteq> 0" "load64 (mem s) a = swap_pte k"
proof -
  have "leaf (mem s) pt va \<noteq> 0" unfolding assms(3) using bit_swap_pte[of k 8] by auto
  from walk_valid_leaf[OF assms(1,2) this] assms(3) show ?thesis by (metis that)
qed

lemma vmfault_swapped:
  assumes "as_ok s pt ps" "upage va" "leaf (mem s) pt va = swap_pte k" "k < 2 ^ 18"
    and "curproc s = Some j" "va < p_sz (procs s ! j)"
  shows "vmfault pt va s = fault_swapped pt j va (int k) s"
proof -
  obtain a where a: "walk pt va False s = Inr (a, s)" "a \<noteq> 0" "load64 (mem s) a = swap_pte k"
    by (rule walk_swapped[OF as_ok_pt[OF assms(1)] upage_MAXVA[OF assms(2)] assms(3)])
  have "PGROUNDDOWN va = va" using assms(2) by (simp add: upage_def PGROUNDDOWN_id)
  moreover have "swap_pte k AND PTE_V = 0" "swap_pte k AND PTE_SWAPPED \<noteq> 0"
    unfolding flag_test using bit_swap_pte[of k 0] bit_swap_pte[of k 8] by auto
  ultimately show ?thesis
    using a assms(5,6) swap_pte_slot[OF assms(4)] by (auto simp: vmfault_def Let_def)
qed

lemma fault_remap:
  assumes as: "as_ok s pt (m # ps)" and va: "upage va" and val: "bit (leaf (mem s) pt va) 0"
    and room: "frametable_used s < MAXFRAMES"
  shows "fault_lazy pt j va s = Inl (Panic ''mappages: remap'')"
proof -
  have fl: "free_list s (m # ps)" using as by (simp add: as_ok_def pt_inv_def)
  obtain s1 where kal: "kalloc s = (m, s1)" using kalloc_Cons(1)[OF fl] by blast
  have m: "m \<noteq> 0" "page_aligned m" using fl by (auto simp: free_list_def valid_page_def)
  define t where "t = s1\<lparr>mem := memset (mem s1) m 0 4096\<rparr>"
  have fill: "same_page (mem s1) (memset (mem s1) m 0 4096) q" if "page_aligned q" "q \<noteq> m" for q
    using memset_page_other[OF m(2) that(1)] that(2) by blast
  have t: "pt_inv t 2 pt ps" "leaf (mem t) pt va = leaf (mem s) pt va"
    using fresh_page_state(1,3)[OF as kal fill t_def] by blast+
  have "leaf (mem t) pt va \<noteq> 0" using val t(2) by auto
  then obtain a where a: "a \<noteq> 0" "pte_slot (mem t) 2 pt va = Some a" "load64 (mem t) a = leaf (mem t) pt va"
    by (rule walk_valid_leaf[OF t(1) upage_MAXVA[OF va]])
  have "walk pt va True t = Inr (a, t)" using walk_existing[OF a(2)] upage_MAXVA[OF va] by (simp add: walk_def not_le)
  moreover have "load64 (mem t) a AND PTE_V \<noteq> 0" using val a(3) t(2) by (simp add: flag_test)
  moreover have "page_aligned PGSIZE" "page_aligned va" using va by (simp_all add: page_aligned_unat PGSIZE_def upage_def)
  ultimately have "mappages pt va PGSIZE m fault_flags t = Inl (Panic ''mappages: remap'')"
    using a(1) by (simp add: mappages_def page_aligned_def mappages_loop.simps PGSIZE_def)
  then show ?thesis
    using kalloc_or_evict_plain[OF room fl] kal m(1)
    by (simp add: fault_lazy_def fault_flags_def[symmetric] t_def)
qed

section \<open>Examples\<close>

lemma as_ok_kfree:
  assumes as: "as_ok s pt ps" and pa: "valid_page s pa" "pa \<notin> set ps" "pa \<notin> pgs (mem s) 2 pt"
    and un: "\<And>va. upage va \<Longrightarrow> bit (leaf (mem s) pt va) 0 \<Longrightarrow> PTE2PA (leaf (mem s) pt va) \<noteq> pa"
  shows "\<exists>s'. kfree pa s = Inr s' \<and> as_ok s' pt (pa # ps) \<and> (\<forall>va. leaf (mem s') pt va = leaf (mem s) pt va)"
proof -
  obtain s' where s': "kfree pa s = Inr s'" "pt_inv s' 2 pt (pa # ps)" "pgs (mem s') 2 pt = pgs (mem s) 2 pt"
      "\<And>va. leaf (mem s') pt va = leaf (mem s) pt va" "kend s' = kend s"
    using pt_inv_kfree[OF as_ok_pt[OF as] pa] by blast
  have "user_leaf_ok s' pt (pa # ps) (leaf (mem s') pt va)" if "upage va" for va
    using as_ok_leaf[OF as that] un[OF that] s'(3-5) by (auto simp: user_leaf_ok_def valid_page_def split: if_splits)
  moreover have "PTE2PA (leaf (mem s') pt va) \<noteq> PTE2PA (leaf (mem s') pt vb)"
    if "upage va" "upage vb" "va \<noteq> vb" "bit (leaf (mem s') pt va) 0" "bit (leaf (mem s') pt vb) 0" for va vb
    using as that s'(4) unfolding as_ok_def by simp
  ultimately show ?thesis using s'(1,2,4) unfolding as_ok_def by blast
qed

lemma example_leaf:
  "PTE2PA (leaf (mem example_vm) 0x87FFD000 0x5000) = 0x87FFC000"
  "bit (leaf (mem example_vm) 0x87FFD000 0x5000) 0" "PTE_FLAGS (leaf (mem example_vm) 0x87FFD000 0x5000) \<noteq> PTE_V"
  unfolding example_vm_state(9) by (simp_all add: PA2PTE_def PTE2PA_def PTE_FLAGS_def PTE_R_def PTE_W_def PTE_U_def PTE_V_def)

lemma example_vm_as_ok:
  "\<exists>rest. as_ok example_vm 0x87FFD000 rest \<and> set rest \<subseteq> {0x87FFE000, 0x87FFF000} \<and> frame_ok example_vm 0 0 rest"
proof -
  obtain rest where r: "frame_ok example_vm 0 0 rest" "set rest \<subseteq> {0x87FFE000, 0x87FFF000}"
    using example_vm_ok(4) by blast
  then have f: "pt_inv example_vm 2 0x87FFD000 rest" "valid_page example_vm 0x87FFC000"
      "0x87FFC000 \<notin> set rest" "0x87FFC000 \<notin> pgs (mem example_vm) 2 0x87FFD000"
    by (simp_all add: frame_ok_def Let_def example_vm_state example_frame_def example_proc_def)
  have lf: "leaf (mem example_vm) 0x87FFD000 va = 0" if "upage va" "va \<noteq> 0x5000" for va
    using example_vm_state(10)[OF _ upage_MAXVA[OF that(1)] that(2)] that(1) by (simp add: upage_def)
  have "user_leaf_ok example_vm 0x87FFD000 rest (leaf (mem example_vm) 0x87FFD000 va)" if "upage va" for va
    using lf[OF that] f example_leaf by (cases "va = 0x5000") (simp_all add: user_leaf_ok_def)
  moreover have "va = 0x5000" if "upage va" "bit (leaf (mem example_vm) 0x87FFD000 va) 0" for va
    using lf[OF that(1)] that(2) by (cases "va = 0x5000") simp_all
  ultimately have "as_ok example_vm 0x87FFD000 rest" using f(1) unfolding as_ok_def by blast
  with r show ?thesis by blast
qed

text \<open>The example with one more free page.\<close>

lemma example_with_free_page:
  "\<exists>s ps. kfree 0x80100000 example_vm = Inr s \<and> as_ok s 0x87FFD000 (0x80100000 # ps) \<and>
     (\<forall>va. leaf (mem s) 0x87FFD000 va = leaf (mem example_vm) 0x87FFD000 va) \<and> curproc s = Some 0 \<and>
     p_sz (procs s ! 0) = 0x8000 \<and> frametable_used s < MAXFRAMES"
proof -
  obtain rest where r: "as_ok example_vm 0x87FFD000 rest" "set rest \<subseteq> {0x87FFE000, 0x87FFF000}"
    using example_vm_as_ok by blast
  have "PTE2PA (leaf (mem example_vm) 0x87FFD000 va) \<noteq> 0x80100000"
    if "upage va" "bit (leaf (mem example_vm) 0x87FFD000 va) 0" for va
    using that example_vm_state(10)[OF _ upage_MAXVA[OF that(1)]] example_leaf(1)
    by (cases "va = 0x5000") (simp_all add: upage_def)
  moreover have "valid_page example_vm 0x80100000"
    by (simp add: valid_page_def page_aligned_unat example_vm_state layout_defs)
  moreover have "0x80100000 \<notin> set rest" "0x80100000 \<notin> pgs (mem example_vm) 2 0x87FFD000"
    using r(2) example_vm_state(8) by auto
  ultimately obtain s where s: "kfree 0x80100000 example_vm = Inr s" "as_ok s 0x87FFD000 (0x80100000 # rest)"
      "\<forall>va. leaf (mem s) 0x87FFD000 va = leaf (mem example_vm) 0x87FFD000 va"
    using as_ok_kfree[OF r(1)] by blast
  have "ftable example_vm ! 1 = free_frame" "1 < length (ftable example_vm)" by (simp_all add: example_vm_state)
  then have "free_frame \<in> set (ftable example_vm)" by (metis nth_mem)
  then have "frametable_used example_vm \<noteq> MAXFRAMES"
    using count_if_full[of fr_used "ftable example_vm"]
    by (auto simp: frametable_used_def example_vm_state(2) MAXFRAMES_def free_frame_def)
  moreover have "frametable_used example_vm \<le> MAXFRAMES"
    using count_if_le[of fr_used "ftable example_vm"] by (simp add: frametable_used_def example_vm_state MAXFRAMES_def)
  ultimately have "frametable_used s < MAXFRAMES"
    using kfree_vm_fields(3)[OF s(1)] by (simp add: frametable_used_def)
  then show ?thesis
    using s kfree_vm_fields(1,5)[OF s(1)] by (auto simp: example_vm_state example_proc_def)
qed

section \<open>Properties\<close>

text \<open>
  C8. Unmapping: on a well-formed address space, \<^verbatim>\<open>uvmunmap\<close> with \<^verbatim>\<open>do_free\<close> of pages below
  the trapframe never panics, keeps the address space well formed, empties exactly the leaf entries
  of the range, gives back exactly the frames that were mapped there, and leaves the contents of every
  other page alone.
\<close>

theorem uvmunmap_frees:
  assumes "as_ok s pt ps" "va mod PGSIZE = 0" "unat va + unat npages * 4096 \<le> unat TRAPFRAME"
  shows "\<exists>s' ps'. uvmunmap pt va npages True s = Inr s' \<and>
    unmapped s s' pt ps ps' (page_range va (va + npages * PGSIZE))"
proof -
  have small: "unat npages * 4096 < 18446744073709551616" using assms(3) by (simp add: TRAPFRAME_nat)
  have "unat (va + npages * PGSIZE) = unat va + unat npages * 4096"
    using assms(3) unat_mult_PGSIZE[OF small] by (subst unat_word_ariths(1)) (simp add: TRAPFRAME_nat)
  then have "va + npages * PGSIZE \<le> TRAPFRAME" using assms(3) by (simp add: word_le_nat_alt)
  then show ?thesis
    using unmap_loop[OF assms(1), of va] assms(2) by (simp add: uvmunmap_def page_aligned_def)
qed

theorem uvmunmap_frees_witness:
  "\<exists>s' ps ps'. uvmunmap 0x87FFD000 0x4000 3 True example_vm = Inr s' \<and>
     unmapped example_vm s' 0x87FFD000 ps ps' (page_range 0x4000 0x7000)"
proof -
  obtain ps where "as_ok example_vm 0x87FFD000 ps" using example_vm_as_ok by blast
  from uvmunmap_frees[OF this, of "0x4000" 3] show ?thesis by (auto simp: layout_defs)
qed

text \<open>
  C9. Growing is all or nothing: \<^verbatim>\<open>uvmalloc\<close> on a well-formed address space with nothing mapped
  between the sizes either returns the new size with every page between them a distinct fresh page
  of zeros with the requested permissions, or returns 0 with every leaf entry as it was; all other
  leaf entries, and every page outside the page table and the free list, keep their contents.
\<close>

theorem uvmalloc_all_or_nothing:
  assumes "as_ok s pt ps" "oldsz \<le> newsz" "newsz \<le> TRAPFRAME" "PTE_FLAGS xperm = xperm"
    and "\<forall>va. va \<in> page_range (PGROUNDUP oldsz) newsz \<longrightarrow> leaf (mem s) pt va = 0"
  shows "\<exists>r s'. uvmalloc pt oldsz newsz xperm s = Inr (r, s') \<and>
    (r = newsz \<and> grown_by s s' pt ps (PGROUNDUP oldsz) newsz (PTE_R OR PTE_U OR xperm) \<or>
     r = 0 \<and> grown_by s s' pt ps 0 0 (PTE_R OR PTE_U OR xperm))"
proof -
  let ?lo = "PGROUNDUP oldsz" and ?f = "PTE_R OR PTE_U OR xperm"
  have e: "page_range ?lo ?lo = {}" by (auto simp: page_range_def)
  have inv: "alloc_inv s ps s ps pt ?lo ?lo ?f"
    using assms(1) by (auto simp: alloc_inv_def kept_def e frames_of_def)
  have fl: "PTE_FLAGS ?f = ?f"
  proof (rule bit_word_eqI)
    fix n
    have "bit xperm n \<longleftrightarrow> n < 10 \<and> bit xperm n" using arg_cong[OF assms(4), of "\<lambda>w. bit w n"] by (simp add: bit_facts)
    then show "bit (PTE_FLAGS ?f) n = bit ?f n" by (auto simp: bit_facts bit_or_iff)
  qed
  have f1: "bit ?f 1" by (simp add: bit_or_iff bit_facts)
  have lo: "?lo \<le> TRAPFRAME" using assms(2,3) by (intro PGROUNDUP_TRAPFRAME) auto
  have "\<exists>r s'. uvmalloc_loop pt ?lo ?lo newsz xperm s = Inr (r, s') \<and>
      (r = newsz \<and> grown_by s s' pt ps ?lo newsz ?f \<or> r = 0 \<and> grown_by s s' pt ps 0 0 ?f)"
    using assms(3,5) lo e by (intro uvmalloc_loop_spec[OF inv _ _ _ _ _ _ _ refl fl f1]) auto
  then show ?thesis using assms(2) by (auto simp: uvmalloc_def Let_def)
qed

theorem uvmalloc_all_or_nothing_witness:
  "\<exists>s ps r s'. kfree 0x80100000 example_vm = Inr s \<and> uvmalloc 0x87FFD000 0x5800 0x7000 PTE_W s = Inr (r, s') \<and>
     (r = 0x7000 \<and> grown_by s s' 0x87FFD000 ps 0x6000 0x7000 (PTE_R OR PTE_U OR PTE_W) \<or>
      r = 0 \<and> grown_by s s' 0x87FFD000 ps 0 0 (PTE_R OR PTE_U OR PTE_W))"
proof -
  obtain s ps where s: "kfree 0x80100000 example_vm = Inr s" "as_ok s 0x87FFD000 (0x80100000 # ps)"
      "\<forall>va. leaf (mem s) 0x87FFD000 va = leaf (mem example_vm) 0x87FFD000 va"
    using example_with_free_page by blast
  have up: "PGROUNDUP 0x5800 = 0x6000" by (simp add: PGROUNDUP_def PGSIZE_def)
  have "leaf (mem s) 0x87FFD000 va = 0" if "va \<in> page_range 0x6000 0x7000" for va
  proof -
    have "page_aligned va" "va < MAXVA" "va \<noteq> 0x5000"
      using that by (auto simp: page_range_def layout_defs word_less_nat_alt word_le_nat_alt)
    then show ?thesis using s(3) example_vm_state(10) by simp
  qed
  with uvmalloc_all_or_nothing[OF s(2), of "0x5800" "0x7000" PTE_W] s(1) up show ?thesis
    by (auto simp: layout_defs PTE_W_def PTE_FLAGS_def)
qed



text \<open>
  C11. Swap round trip through a page fault: after \<^verbatim>\<open>clock_evict\<close> has evicted a page of the
  running process, a fault on that page succeeds, the page's bytes are what they were before the
  eviction, every other leaf entry is as it was, and the swap slot is free again.
\<close>

theorem evict_fault_round_trip:
  assumes "tables_ok s" "levels_ok s" "slots_used s < MAX_SWAP_SLOTS" "fst (clock_victim s) = Some i"
    and "frame_ok s i j ps" "curproc s = Some j" "as_ok s (p_pagetable (procs s ! j)) ps"
    and "upage (fr_va (ftable s ! i))" "fr_va (ftable s ! i) < p_sz (procs s ! j)"
    and "PTE2PA (leaf (mem s) (p_pagetable (procs s ! j)) (fr_va (ftable s ! i))) = fr_pa (ftable s ! i)"
    and "clock_evict s = Inr (pa, s1)"
  shows "\<exists>s2 k. vmfault (p_pagetable (procs s ! j)) (fr_va (ftable s ! i)) s1 = Inr (1, s2) \<and>
    leaf (mem s1) (p_pagetable (procs s ! j)) (fr_va (ftable s ! i)) = swap_pte k \<and>
    faulted s1 s2 (p_pagetable (procs s ! j)) (fr_va (ftable s ! i)) 1
      (\<lambda>m p. load_bytes m p 4096 = load_bytes (mem s) (fr_pa (ftable s ! i)) 4096) \<and>
    \<not> sl_used (swap_area s2 ! k)"
proof -
  let ?pt = "p_pagetable (procs s ! j)" and ?e = "ftable s ! i"
  obtain k where ev: "evicted s s1 i ?pt ps k" "kend s1 = kend s" "curproc s1 = curproc s" "i < MAXFRAMES"
      "p_sz (procs s1 ! j) = p_sz (procs s ! j)"
    using clock_evict_full[OF assms(1-5)] assms(11) by auto
  have val: "bit (leaf (mem s) ?pt (fr_va ?e)) 0" using assms(5) by (simp add: frame_ok_def Let_def)
  have as1: "as_ok s1 ?pt (fr_pa ?e # ps)" by (rule evicted_as_ok[OF assms(7) ev(1) assms(8,10) val ev(2)])
  have sl: "k < MAX_SWAP_SLOTS" "sl_used (swap_area s1 ! k)" "length (swap_area s1) = MAX_SWAP_SLOTS"
      "sl_data (swap_area s1 ! k) = load_bytes (mem s) (fr_pa ?e) 4096" "leaf (mem s1) ?pt (fr_va ?e) = swap_pte k"
    using ev(1) assms(1) by (simp_all add: evicted_def Let_def tables_ok_def)
  have "k < 2 ^ 18" using sl(1) by (simp add: MAX_SWAP_SLOTS_def)
  then have "vmfault ?pt (fr_va ?e) s1 = fault_swapped ?pt j (fr_va ?e) (int k) s1"
    using vmfault_swapped[OF as1 assms(8) sl(5)] ev(3,5) assms(6,9) by simp
  moreover have "frametable_used s1 < MAXFRAMES" by (rule evicted_room[OF assms(1) ev(1,4)])
  ultimately show ?thesis
    using fault_swapped_spec[OF as1 assms(8) sl(5,1,2), of j] sl by (auto simp: sl(5))
qed

theorem evict_fault_round_trip_witness:
  "\<exists>pa s1 s2. clock_evict example_vm = Inr (pa, s1) \<and> vmfault 0x87FFD000 0x5000 s1 = Inr (1, s2) \<and>
     faulted s1 s2 0x87FFD000 0x5000 1 (\<lambda>m p. load_bytes m p 4096 = load_bytes (mem example_vm) 0x87FFC000 4096)"
proof -
  obtain ps where ps: "as_ok example_vm 0x87FFD000 ps" "frame_ok example_vm 0 0 ps" using example_vm_as_ok by blast
  obtain pa s1 where e: "clock_evict example_vm = Inr (pa, s1)"
    using clock_evict_full[OF example_vm_ok(1-3) example_victim ps(2)] by blast
  have f: "p_pagetable (procs example_vm ! 0) = 0x87FFD000" "fr_va (ftable example_vm ! 0) = 0x5000"
      "fr_pa (ftable example_vm ! 0) = 0x87FFC000" "p_sz (procs example_vm ! 0) = 0x8000" "curproc example_vm = Some 0"
      "upage 0x5000"
    by (simp_all add: example_vm_state example_proc_def example_frame_def upage_def page_aligned_unat layout_defs)
  from evict_fault_round_trip[OF example_vm_ok(1-3) example_victim ps(2) f(5), unfolded f(1-4), OF ps(1) f(6) _ example_leaf(1) e]
  show ?thesis using e by auto
qed



end
