(* ===== verification/Xv6_Proc.thy ===== *)
theory Xv6_Proc
  imports Xv6_Uvm
begin

text \<open>
  The process table, \<^verbatim>\<open>kernel/proc.c\<close>: allocation and freeing of entries with their page
  tables, growing and shrinking, waking, killing, reparenting and waiting. The lock of each entry,
  \<^verbatim>\<open>pid_lock\<close> and \<^verbatim>\<open>wait_lock\<close> bracket the steps. What needs open files and inodes
  (\<^verbatim>\<open>kfork\<close>, \<^verbatim>\<open>kexit\<close>, \<^verbatim>\<open>userinit\<close>) comes after those; the context switch is in the
  theory of the scheduler.
\<close>

section \<open>Allocation\<close>

definition procinit :: "'a vmst_scheme \<Rightarrow> 'a vmst_scheme" where
  "procinit s = s\<lparr>procs := map (\<lambda>i. (procs s ! i)\<lparr>p_state := UNUSED, p_kstack := KSTACK (of_nat i)\<rparr>) [0..<length (procs s)]\<rparr>"

definition allocpid :: "'a vmst_scheme \<Rightarrow> int \<times> 'a vmst_scheme" where
  "allocpid s = (nextpid s, s\<lparr>nextpid := nextpid s + 1\<rparr>)"

definition proc_freepagetable :: "u64 \<Rightarrow> u64 \<Rightarrow> 'a vmst_scheme \<Rightarrow> 'a vmst_scheme res" where
  "proc_freepagetable pagetable sz s =
     andthen (uvmunmap pagetable TRAMPOLINE 1 False s) (\<lambda>s1.
     andthen (uvmunmap pagetable TRAPFRAME 1 False s1) (\<lambda>s2.
     uvmfree pagetable sz s2))"

definition freeproc :: "nat \<Rightarrow> 'a vmst_scheme \<Rightarrow> 'a vmst_scheme res" where
  "freeproc p s =
     andthen (if p_trapframe (procs s ! p) \<noteq> 0 then kfree (p_trapframe (procs s ! p)) s else Inr s) (\<lambda>s1.
     let s2 = upd_proc p (\<lambda>q. q\<lparr>p_trapframe := 0\<rparr>) s1; q = procs s2 ! p in
     andthen (if p_pagetable q \<noteq> 0 then proc_freepagetable (p_pagetable q) (p_sz q) s2 else Inr s2) (\<lambda>s3.
     Inr (upd_proc p (\<lambda>q. q\<lparr>p_pagetable := 0, p_sz := 0, p_pid := 0, p_parent := None, p_name := (p_name q)[0 := 0],
                            p_chan := None, p_killed := False, p_xstate := 0, p_state := UNUSED\<rparr>) s3)))"

definition proc_pagetable :: "nat \<Rightarrow> 'a vmst_scheme \<Rightarrow> (u64 \<times> 'a vmst_scheme) res" where
  "proc_pagetable p s =
     (case uvmcreate s of (pagetable, s1) \<Rightarrow>
        if pagetable = 0 then Inr (0, s1)
        else andthen (mappages pagetable TRAMPOLINE PGSIZE (trampoline_pa s1) (PTE_R OR PTE_X) s1) (\<lambda>(r, s2).
          if r < 0 then andthen (uvmfree pagetable 0 s2) (\<lambda>s3. Inr (0, s3))
          else andthen (mappages pagetable TRAPFRAME PGSIZE (p_trapframe (procs s2 ! p)) (PTE_R OR PTE_W) s2) (\<lambda>(r, s3).
            if r < 0
            then andthen (uvmunmap pagetable TRAMPOLINE 1 False s3) (\<lambda>s4.
                 andthen (uvmfree pagetable 0 s4) (\<lambda>s5. Inr (0, s5)))
            else Inr (pagetable, s3))))"

definition allocproc :: "'a vmst_scheme \<Rightarrow> (nat option \<times> 'a vmst_scheme) res" where
  "allocproc s =
     (case first_idx (\<lambda>q. p_state q = UNUSED) (procs s) of
        None \<Rightarrow> Inr (None, s)
      | Some p \<Rightarrow>
          case allocpid s of (pid, s1) \<Rightarrow>
          let s2 = upd_proc p (\<lambda>q. q\<lparr>p_pid := pid, p_state := USED, p_syscount := 0, p_mlfq_level := 0,
                     p_ticks_at_level := 0, p_ticks_per_level := [0, 0, 0, 0], p_times_scheduled := 0,
                     p_syscalls_at_level := 0, p_page_faults := 0, p_pages_evicted := 0, p_pages_swapped_in := 0,
                     p_pages_swapped_out := 0, p_resident_pages := 0\<rparr>) s1 in
          case kalloc s2 of (tf, s3) \<Rightarrow>
          let s4 = upd_proc p (\<lambda>q. q\<lparr>p_trapframe := tf\<rparr>) s3 in
          if tf = 0 then andthen (freeproc p s4) (\<lambda>s5. Inr (None, s5))
          else andthen (proc_pagetable p s4) (\<lambda>(pagetable, s5).
            let s6 = upd_proc p (\<lambda>q. q\<lparr>p_pagetable := pagetable\<rparr>) s5 in
            if pagetable = 0 then andthen (freeproc p s6) (\<lambda>s7. Inr (None, s7))
            else Inr (Some p, upd_proc p (\<lambda>q. q\<lparr>p_context := \<lparr>c_ra = forkret_pc s6, c_sp = p_kstack q + PGSIZE,
                                                            c_s = replicate 12 0\<rparr>\<rparr>) s6)))"

text \<open>The argument is a C \<^verbatim>\<open>int\<close>, converted to \<^verbatim>\<open>uint64\<close> in the sums.\<close>

definition growproc :: "int \<Rightarrow> 'a vmst_scheme \<Rightarrow> (int \<times> 'a vmst_scheme) res" where
  "growproc n s =
     (case curproc s of
        None \<Rightarrow> Inl (Panic ''kerneltrap'')
      | Some p \<Rightarrow>
          let sz = p_sz (procs s ! p); pagetable = p_pagetable (procs s ! p) in
          if n > 0 then
            if sz + of_int n > TRAPFRAME then Inr (-1, s)
            else andthen (uvmalloc pagetable sz (sz + of_int n) PTE_W s) (\<lambda>(sz', s1).
              if sz' = 0 then Inr (-1, s1) else Inr (0, upd_proc p (\<lambda>q. q\<lparr>p_sz := sz'\<rparr>) s1))
          else andthen (if n < 0 then uvmdealloc pagetable sz (sz + of_int n) s else Inr (sz, s)) (\<lambda>(sz', s1).
            Inr (0, upd_proc p (\<lambda>q. q\<lparr>p_sz := sz'\<rparr>) s1)))"

section \<open>Waking, killing and waiting\<close>

text \<open>Each pass over the table as one update of every entry.\<close>

definition each_proc :: "(nat \<Rightarrow> proc \<Rightarrow> proc) \<Rightarrow> 'a vmst_scheme \<Rightarrow> 'a vmst_scheme" where
  "each_proc f s = s\<lparr>procs := map (\<lambda>i. f i (procs s ! i)) [0..<length (procs s)]\<rparr>"

definition wakeup :: "chan option \<Rightarrow> 'a vmst_scheme \<Rightarrow> 'a vmst_scheme" where
  "wakeup ch s =
     each_proc (\<lambda>i q. if curproc s \<noteq> Some i \<and> p_state q = SLEEPING \<and> p_chan q = ch
                      then q\<lparr>p_state := RUNNABLE\<rparr> else q) s"

definition kkill :: "int \<Rightarrow> 'a vmst_scheme \<Rightarrow> int \<times> 'a vmst_scheme" where
  "kkill pid s =
     (case first_idx (\<lambda>q. p_pid q = pid) (procs s) of
        None \<Rightarrow> (-1, s)
      | Some i \<Rightarrow> (0, upd_proc i (\<lambda>q. q\<lparr>p_killed := True,
                                        p_state := if p_state q = SLEEPING then RUNNABLE else p_state q\<rparr>) s))"

definition setkilled :: "nat \<Rightarrow> 'a vmst_scheme \<Rightarrow> 'a vmst_scheme" where
  "setkilled p s = upd_proc p (\<lambda>q. q\<lparr>p_killed := True\<rparr>) s"

definition killed :: "nat \<Rightarrow> 'a vmst_scheme \<Rightarrow> bool" where
  "killed p s = p_killed (procs s ! p)"

text \<open>The loop over the table; \<open>k\<close> entries are left.\<close>

fun reparent_loop :: "nat \<Rightarrow> nat \<Rightarrow> 'a vmst_scheme \<Rightarrow> 'a vmst_scheme" where
  "reparent_loop p 0 s = s"
| "reparent_loop p (Suc k) s =
     (let i = length (procs s) - Suc k in
      if p_parent (procs s ! i) = Some p
      then let s1 = upd_proc i (\<lambda>q. q\<lparr>p_parent := initproc s\<rparr>) s
           in reparent_loop p k (wakeup (map_option ProcChan (initproc s1)) s1)
      else reparent_loop p k s)"

definition reparent :: "nat \<Rightarrow> 'a vmst_scheme \<Rightarrow> 'a vmst_scheme" where
  "reparent p s = reparent_loop p (length (procs s)) s"

text \<open>
  A routine that may have to wait returns a value, or blocks on a channel; when it is scheduled
  again it starts its loop anew.
\<close>

datatype 'a outcome = Returns 'a | Blocks chan

text \<open>
  \<^verbatim>\<open>sleep(chan, lk)\<close> up to the context switch, and what it does when it is scheduled again.
\<close>

definition sleep_on :: "nat \<Rightarrow> chan \<Rightarrow> 'a vmst_scheme \<Rightarrow> 'a vmst_scheme" where
  "sleep_on p ch s = (upd_proc p (\<lambda>q. q\<lparr>p_chan := Some ch, p_state := SLEEPING\<rparr>) s)\<lparr>curproc := None\<rparr>"

definition sleep_resume :: "nat \<Rightarrow> 'a vmst_scheme \<Rightarrow> 'a vmst_scheme" where
  "sleep_resume p s = upd_proc p (\<lambda>q. q\<lparr>p_chan := None\<rparr>) s"

text \<open>An \<^verbatim>\<open>int\<close> of the kernel as the four bytes it occupies.\<close>

definition int_bytes :: "int \<Rightarrow> u8 list" where
  "int_bytes n = map (\<lambda>i. ucast (drop_bit (8 * i) (of_int n :: u64))) [0..<4]"

definition kwait :: "u64 \<Rightarrow> 'a vmst_scheme \<Rightarrow> (int outcome \<times> 'a vmst_scheme) res" where
  "kwait addr s =
     (case curproc s of
        None \<Rightarrow> Inl (Panic ''kerneltrap'')
      | Some p \<Rightarrow>
          case first_idx (\<lambda>q. p_parent q = Some p \<and> p_state q = ZOMBIE) (procs s) of
            Some pp \<Rightarrow>
              let q = procs s ! pp in
              andthen (if addr \<noteq> 0 then copyout (p_pagetable (procs s ! p)) addr (int_bytes (p_xstate q)) s else Inr (0, s))
                (\<lambda>(r, s1). if r < 0 then Inr (Returns (-1), s1)
                   else andthen (freeproc pp s1) (\<lambda>s2. Inr (Returns (p_pid q), s2)))
          | None \<Rightarrow>
              if \<not> (\<exists>q \<in> set (procs s). p_parent q = Some p) \<or> killed p s then Inr (Returns (-1), s)
              else Inr (Blocks (ProcChan p), sleep_on p (ProcChan p) s))"

section \<open>Copies to and from user or kernel memory\<close>

definition either_copyout :: "bool \<Rightarrow> u64 \<Rightarrow> u8 list \<Rightarrow> 'a vmst_scheme \<Rightarrow> (int \<times> 'a vmst_scheme) res" where
  "either_copyout user_dst dst src s =
     (if user_dst
      then case curproc s of
             None \<Rightarrow> Inl (Panic ''kerneltrap'')
           | Some p \<Rightarrow> copyout (p_pagetable (procs s ! p)) dst src s
      else Inr (0, s\<lparr>mem := store_bytes (mem s) dst src\<rparr>))"

definition either_copyin :: "bool \<Rightarrow> u64 \<Rightarrow> nat \<Rightarrow> 'a vmst_scheme \<Rightarrow> (int \<times> u8 list \<times> 'a vmst_scheme) res" where
  "either_copyin user_src src len s =
     (if user_src
      then case curproc s of
             None \<Rightarrow> Inl (Panic ''kerneltrap'')
           | Some p \<Rightarrow> copyin (p_pagetable (procs s ! p)) src len s
      else Inr (0, load_bytes (mem s) src len, s))"

section \<open>What the operations on pages leave alone\<close>

lemma kalloc_more: "kmem.more (snd (kalloc s)) = kmem.more s"
  by (simp add: kalloc_def Let_def)

lemma kalloc_more': "kalloc s = (p, s') \<Longrightarrow> kmem.more s' = kmem.more s"
  using kalloc_more[of s] by simp

lemma walk_loop_more: "kmem.more (snd (walk_loop l pt va al s)) = kmem.more s"
proof (induction l arbitrary: pt s)
  case (Suc l)
  then show ?case by (auto simp: Let_def split: prod.split dest: kalloc_more')
qed simp

lemma walk_more: "walk pt va al s = Inr (a, s') \<Longrightarrow> kmem.more s' = kmem.more s"
  using walk_loop_more[of 2 pt va al s] by (auto simp: walk_def split: if_splits)

lemma mappages_loop_more: "mappages_loop pt a lst pa perm s = Inr (r, s') \<Longrightarrow> kmem.more s' = kmem.more s"
proof (induction pt a lst pa perm s arbitrary: r s' rule: mappages_loop.induct)
  case (1 pt a lst pa perm s)
  note e = 1(2)[unfolded mappages_loop.simps[of pt a lst pa perm s]]
  from e obtain pte s1 where w: "walk pt a True s = Inr (pte, s1)" by (auto simp: res_simps)
  have "kmem.more s1 = kmem.more s" using walk_more[OF w] .
  with e 1(1)[OF w refl] w show ?case by (auto simp: Let_def split: if_splits)
qed

lemma mappages_more: "mappages pt va sz pa perm s = Inr (r, s') \<Longrightarrow> kmem.more s' = kmem.more s"
  by (auto simp: mappages_def split: if_splits dest: mappages_loop_more)

lemma uvmcreate_more: "uvmcreate s = (pt, s') \<Longrightarrow> kmem.more s' = kmem.more s"
  by (auto simp: uvmcreate_def split: prod.splits if_splits dest: kalloc_more')

lemma for_each_more:
  assumes "\<And>i s s'. f i s = Inr s' \<Longrightarrow> kmem.more s' = kmem.more s"
  shows "for_each f xs s = Inr s' \<Longrightarrow> kmem.more s' = kmem.more s"
  by (induction xs arbitrary: s) (auto simp: res_simps dest: assms)

lemma freewalk_more: "freewalk d pt s = Inr s' \<Longrightarrow> kmem.more s' = kmem.more s"
proof (induction d arbitrary: pt s s')
  case (Suc d)
  obtain s1 where s1: "for_each (\<lambda>i s. let pte = load64 (mem s) (pt + of_nat (8 * i)) in
          if pte AND PTE_V \<noteq> 0 \<and> pte AND (PTE_R OR PTE_W OR PTE_X) = 0
          then andthen (freewalk d (PTE2PA pte) s)
                 (\<lambda>s1. Inr (s1\<lparr>mem := store64 (mem s1) (pt + of_nat (8 * i)) 0\<rparr>))
          else if pte AND PTE_V \<noteq> 0 then Inl (Panic ''freewalk: leaf'')
          else Inr s) [0..<512] s = Inr s1" "kfree pt s1 = Inr s'"
    using Suc.prems by (auto simp: res_simps simp del: of_nat_mult)
  have "kmem.more s1 = kmem.more s"
    by (rule for_each_more[OF _ s1(1)]) (auto simp: Let_def res_simps split: if_splits dest: Suc.IH)
  then show ?case using kfree_fields(2)[OF s1(2)] by simp
qed simp

text \<open>Everything but memory, frames and swap slots is as it was.\<close>

definition vm_only :: "'a vmst_scheme \<Rightarrow> 'a vmst_scheme \<Rightarrow> bool" where
  "vm_only s s' = (procs s' = procs s \<and> curproc s' = curproc s \<and> initproc s' = initproc s \<and> nextpid s' = nextpid s \<and>
     trampoline_pa s' = trampoline_pa s \<and> etext_pa s' = etext_pa s \<and> forkret_pc s' = forkret_pc s \<and> vmst.more s' = vmst.more s)"

named_theorems vm_frame "operations on address spaces leave the tables of processes alone"

lemma vm_only_refl [simp]: "vm_only s s"
  by (simp add: vm_only_def)

lemma vm_only_trans: "vm_only s s1 \<Longrightarrow> vm_only s1 s2 \<Longrightarrow> vm_only s s2"
  by (simp add: vm_only_def)

lemma vm_only_mem [simp]: "vm_only s (s'\<lparr>mem := m\<rparr>) = vm_only s s'"
  by (simp add: vm_only_def)

lemma vm_only_more: "kmem.more s' = kmem.more s \<Longrightarrow> vm_only s s'"
  using kmem_more_tables[of s' s] by (simp add: vm_only_def)

lemma vm_only_swap_free [simp]: "vm_only s (swap_free k s') = vm_only s s'"
  by (simp add: vm_only_def swap_free_def)

lemma vm_only_frametable_remove [simp]: "vm_only s (frametable_remove p s') = vm_only s s'"
  by (simp add: vm_only_def frametable_remove_def split: option.split)

lemma kfree_only [vm_frame]: "kfree p s = Inr s' \<Longrightarrow> vm_only s s'"
  by (rule vm_only_more) (rule kfree_fields)

lemma walk_only [vm_frame]: "walk pt va al s = Inr (a, s') \<Longrightarrow> vm_only s s'"
  by (rule vm_only_more) (rule walk_more)

lemma mappages_only [vm_frame]: "mappages pt va sz pa perm s = Inr (r, s') \<Longrightarrow> vm_only s s'"
  by (rule vm_only_more) (rule mappages_more)

lemma uvmunmap_page_only:
  assumes "uvmunmap_page pt a f s = Inr s'"
  shows "vm_only s s'"
proof -
  have "vm_only s s2" if "vm_only s s1" "kfree p (frametable_remove p s1) = Inr s2" for s1 s2 p
    using vm_only_trans[OF _ kfree_only[OF that(2)], of s] that(1) by simp
  with assms show ?thesis
    by (auto simp: uvmunmap_page_def Let_def res_simps split: if_splits dest!: walk_only)
qed

lemma uvmunmap_loop_only: "uvmunmap_loop pt a e f s = Inr s' \<Longrightarrow> vm_only s s'"
proof (induction pt a e f s arbitrary: s' rule: uvmunmap_loop.induct)
  case (1 pt a e f s)
  show ?case
  proof (cases "a < e")
    case True
    then obtain s1 where s1: "uvmunmap_page pt a f s = Inr s1" "uvmunmap_loop pt (a + PGSIZE) e f s1 = Inr s'"
      using 1(2) by (subst (asm) uvmunmap_loop.simps) (auto simp: res_simps)
    show ?thesis using vm_only_trans[OF uvmunmap_page_only[OF s1(1)] 1(1)[OF True s1]] .
  next
    case False
    then show ?thesis using 1(2) by (simp add: uvmunmap_loop.simps)
  qed
qed

lemma uvmunmap_only [vm_frame]: "uvmunmap pt va n f s = Inr s' \<Longrightarrow> vm_only s s'"
  by (auto simp: uvmunmap_def split: if_splits dest: uvmunmap_loop_only)

lemma uvmfree_only [vm_frame]: "uvmfree pt sz s = Inr s' \<Longrightarrow> vm_only s s'"
  by (auto simp: uvmfree_def res_simps split: if_splits dest!: uvmunmap_only freewalk_more vm_only_more intro: vm_only_trans)

lemma uvmdealloc_only [vm_frame]: "uvmdealloc pt old new s = Inr (r, s') \<Longrightarrow> vm_only s s'"
  by (auto simp: uvmdealloc_def Let_def res_simps split: if_splits dest: uvmunmap_only)

lemma uvmalloc_loop_only: "uvmalloc_loop pt a old new x s = Inr (r, s') \<Longrightarrow> vm_only s s'"
proof (induction pt a old new x s arbitrary: r s' rule: uvmalloc_loop.induct)
  case (1 pt a old new x s)
  note e = 1(2)[unfolded uvmalloc_loop.simps[of pt a old new x s]]
  show ?case
  proof (cases "a < new")
    case True
    obtain m s1 where k: "kalloc s = (m, s1)" by fastforce
    note v1 = vm_only_more[OF kalloc_more'[OF k]]
    show ?thesis
    proof (cases "m = 0")
      case m0: True
      then show ?thesis using e True k v1 by (auto simp: res_simps dest!: uvmdealloc_only intro: vm_only_trans)
    next
      case m: False
      let ?t = "s1\<lparr>mem := memset (mem s1) m 0 4096\<rparr>"
      obtain r2 s2 where mp: "mappages pt a PGSIZE m (PTE_R OR PTE_U OR x) ?t = Inr (r2, s2)"
        using e True k m by (auto simp: res_simps)
      have v2: "vm_only s s2" using mappages_only[OF mp] v1 by (simp add: vm_only_def)
      show ?thesis
      proof (cases "r2 = 0")
        case r0: True
        have "vm_only s2 s'" using 1(1)[OF True k[symmetric] m mp refl] r0 e True k m mp by simp
        then show ?thesis by (rule vm_only_trans[OF v2])
      next
        case False
        then show ?thesis
          using e True k m mp v2 by (auto simp: res_simps dest!: uvmdealloc_only kfree_only intro: vm_only_trans)
      qed
    qed
  qed (use e in simp)
qed

lemma uvmalloc_only [vm_frame]: "uvmalloc pt old new x s = Inr (r, s') \<Longrightarrow> vm_only s s'"
  by (auto simp: uvmalloc_def Let_def split: if_splits dest: uvmalloc_loop_only)

lemma proc_freepagetable_only [vm_frame]: "proc_freepagetable pt sz s = Inr s' \<Longrightarrow> vm_only s s'"
  by (auto simp: proc_freepagetable_def res_simps dest!: vm_frame intro: vm_only_trans)

lemma proc_pagetable_only [vm_frame]: "proc_pagetable p s = Inr (pt, s') \<Longrightarrow> vm_only s s'"
  by (auto simp: proc_pagetable_def res_simps split: prod.splits if_splits dest!: vm_frame uvmcreate_more vm_only_more)
    (simp_all add: vm_only_def)

lemma procs_vm_only: "vm_only s s' \<Longrightarrow> procs s' = procs s"
  by (simp add: vm_only_def)

text \<open>
  A page fault also updates the fault counters of processes, and nothing else of them.
\<close>

definition core :: "proc \<Rightarrow> proc" where
  "core q = q\<lparr>p_page_faults := 0, p_pages_evicted := 0, p_pages_swapped_in := 0, p_pages_swapped_out := 0, p_resident_pages := 0\<rparr>"

definition vm_keep :: "'a vmst_scheme \<Rightarrow> 'a vmst_scheme \<Rightarrow> bool" where
  "vm_keep s s' = (map core (procs s') = map core (procs s) \<and> curproc s' = curproc s \<and> initproc s' = initproc s \<and>
     nextpid s' = nextpid s \<and> vmst.more s' = vmst.more s)"

named_theorems vm_keeps "operations that may fault keep the processes up to their fault counters"

lemma vm_keep_refl [simp]: "vm_keep s s"
  by (simp add: vm_keep_def)

lemma vm_keep_trans: "vm_keep s s1 \<Longrightarrow> vm_keep s1 s2 \<Longrightarrow> vm_keep s s2"
  by (simp add: vm_keep_def)

lemma vm_keep_only: "vm_only s1 s2 \<Longrightarrow> vm_keep s s1 \<Longrightarrow> vm_keep s s2"
  by (simp add: vm_keep_def vm_only_def)

lemma vm_keep_mem [simp]: "vm_keep s (s'\<lparr>mem := m\<rparr>) = vm_keep s s'"
  by (simp add: vm_keep_def)

lemma vm_keep_upd:
  assumes "\<And>q. core (f q) = core q"
  shows "vm_keep s (upd_proc j f s') = vm_keep s s'"
proof -
  have "map core ((procs s')[j := f (procs s' ! j)]) = map core (procs s')"
    by (cases "j < length (procs s')") (simp_all add: map_update assms list_update_beyond list_eq_iff_nth_eq nth_list_update)
  then show ?thesis by (simp add: vm_keep_def upd_proc_def)
qed

lemma vm_keep_frametable_add [simp]: "vm_keep s (frametable_add p pid va s') = vm_keep s s'"
  by (simp add: vm_keep_def frametable_add_def split: option.split)

lemma vm_keep_swap_out: "swap_out pa pid va s = (k, s') \<Longrightarrow> vm_keep s s'"
  by (auto simp: vm_keep_def swap_out_def split: option.splits)

lemma vm_keep_swap_in: "swap_in k m s = (r, s') \<Longrightarrow> vm_keep s s'"
  by (auto simp: vm_keep_def swap_in_def split: if_splits)

lemma vm_keep_swap_free [simp]: "vm_keep s (swap_free k s') = vm_keep s s'"
  by (simp add: vm_keep_def swap_free_def)

lemma vm_keep_clock_victim: "clock_victim s = (v, s') \<Longrightarrow> vm_keep s s'"
  by (auto simp: vm_keep_def clock_victim_def Let_def split: prod.splits)

lemma kalloc_keep: "kalloc s = (m, s') \<Longrightarrow> vm_keep s s'"
  using vm_keep_only[OF vm_only_more[OF kalloc_more']] by fastforce

lemma kfree_keep [vm_keeps]: "kfree p s = Inr s' \<Longrightarrow> vm_keep s s'"
  using vm_keep_only[OF kfree_only] by fastforce

lemma walk_keep [vm_keeps]: "walk pt va al s = Inr (a, s') \<Longrightarrow> vm_keep s s'"
  using vm_keep_only[OF walk_only] by fastforce

lemma core_upd [simp]:
  "core (q\<lparr>p_page_faults := a\<rparr>) = core q" "core (q\<lparr>p_pages_swapped_in := a\<rparr>) = core q"
  "core (q\<lparr>p_resident_pages := a\<rparr>) = core q" "core (q\<lparr>p_pages_evicted := a\<rparr>) = core q" "core (q\<lparr>p_pages_swapped_out := a\<rparr>) = core q"
  by (simp_all add: core_def)

lemma clock_evict_keep [vm_keeps]:
  assumes "clock_evict s = Inr (pa, s')"
  shows "vm_keep s s'"
proof -
  obtain v s1 where v: "clock_victim s = (v, s1)" by fastforce
  note k1 = vm_keep_clock_victim[OF v]
  show ?thesis
  proof (cases v)
    case None
    then show ?thesis using assms v k1 by (simp add: clock_evict_def)
  next
    case (Some i)
    let ?e = "ftable s1 ! i" and ?s2 = "s1\<lparr>ftable := (ftable s1)[i := clear_frame (ftable s1 ! i)]\<rparr>"
    obtain k s3 where k: "swap_out (fr_pa ?e) (fr_pid ?e) (fr_va ?e) ?s2 = (k, s3)" by fastforce
    have "vm_keep s ?s2" using k1 by (simp add: vm_keep_def)
    then have k3: "vm_keep s s3" by (rule vm_keep_trans) (rule vm_keep_swap_out[OF k])
    let ?f = "\<lambda>p. p\<lparr>p_pages_evicted := p_pages_evicted p + 1, p_pages_swapped_out := p_pages_swapped_out p + 1,
        p_resident_pages := p_resident_pages p - 1\<rparr>"
    have upd: "vm_keep s (upd_proc j ?f t) = vm_keep s t" for j t by (rule vm_keep_upd) simp
    have wk: "vm_keep s s4" if "walk pt va False s3 = Inr (a, s4)" for pt va a s4
      by (rule vm_keep_trans[OF k3 walk_keep[OF that]])
    have "andthen (case find_proc (fr_pid ?e) s3 of None \<Rightarrow> Inr s3
         | Some j \<Rightarrow> andthen (walk (p_pagetable (procs s3 ! j)) (fr_va ?e) False s3) (\<lambda>(pte, s4).
             Inr (upd_proc j ?f (if pte \<noteq> 0 \<and> load64 (mem s4) pte AND PTE_V \<noteq> 0
                                 then s4\<lparr>mem := store64 (mem s4) pte (push_bit 10 (of_int k) OR PTE_SWAPPED)\<rparr> else s4))))
       (\<lambda>s6. andthen (kfree (fr_pa ?e) s6) (\<lambda>s7. Inr (fr_pa ?e, s7))) = Inr (pa, s')"
      using assms[unfolded clock_evict_def Let_def] Some v k by (simp split: if_splits)
    then show ?thesis
    proof (elim andthen_InrE, goal_cases)
      case (1 s6 s7)
      have "vm_keep s s6"
        using 1(1) k3 wk by (cases "find_proc (fr_pid ?e) s3") (auto simp: upd res_simps)
      then have "vm_keep s s7" by (rule vm_keep_trans) (rule kfree_keep[OF 1(2)])
      then show ?case using 1(3) by simp
    qed
  qed
qed

lemma kalloc_or_evict_keep [vm_keeps]: "kalloc_or_evict s = Inr (m, s') \<Longrightarrow> vm_keep s s'"
  unfolding kalloc_or_evict_def
  by (auto simp: res_simps split: if_splits prod.splits dest!: vm_keeps kalloc_keep) (simp_all add: vm_keep_def)

lemma mappages_keep [vm_keeps]: "mappages pt va sz pa perm s = Inr (r, s') \<Longrightarrow> vm_keep s s'"
  using vm_keep_only[OF mappages_only] by fastforce

lemma vmfault_alloc_keep [vm_keeps]: "vmfault_alloc pt va s = Inr (m, s') \<Longrightarrow> vm_keep s s'"
  unfolding vmfault_alloc_def Let_def
  by (auto simp: res_simps split: if_splits prod.splits option.splits dest!: vm_keeps) (simp_all add: vm_keep_def)

lemma user_page_keep [vm_keeps]: "user_page pt va s = Inr (m, s') \<Longrightarrow> vm_keep s s'"
  unfolding user_page_def by (auto simp: res_simps split: if_splits dest!: vm_keeps)

lemma copyout_keep [vm_keeps]: "copyout pt va src s = Inr (r, s') \<Longrightarrow> vm_keep s s'"
proof (induction pt va src s arbitrary: r s' rule: copyout.induct)
  case (1 pt va src s)
  note e = 1(2)[unfolded copyout.simps[of pt va src s] Let_def]
  show ?case
  proof (cases "src = [] \<or> PGROUNDDOWN va \<ge> MAXVA")
    case True
    then show ?thesis using e by (auto split: if_splits)
  next
    case False
    then obtain pa0 s1 where u: "user_page pt (PGROUNDDOWN va) s = Inr (pa0, s1)" using e by (auto simp: res_simps)
    show ?thesis
    proof (cases "pa0 = 0")
      case True
      then show ?thesis using e u False user_page_keep[OF u] by simp
    next
      case nz: False
      obtain pte s2 where w: "walk pt (PGROUNDDOWN va) False s1 = Inr (pte, s2)" using e u nz False by (auto simp: res_simps)
      have k2: "vm_keep s s2" using vm_keep_trans[OF user_page_keep[OF u] walk_keep[OF w]] .
      let ?n = "chunk va (length src)"
      have IH: "vm_keep (s2\<lparr>mem := store_bytes (mem s2) (pa0 + (va - PGROUNDDOWN va)) (take ?n src)\<rparr>) s'"
        if "pte \<noteq> 0" "load64 (mem s2) pte AND PTE_W \<noteq> 0"
        using 1(1)[OF _ refl _ u refl nz w refl that refl] e u w nz False that by simp
      have "vm_keep s (s2\<lparr>mem := store_bytes (mem s2) (pa0 + (va - PGROUNDDOWN va)) (take ?n src)\<rparr>)" using k2 by simp
      from vm_keep_trans[OF this IH] k2 show ?thesis
        using e u w nz False by (cases "pte = 0"; cases "load64 (mem s2) pte AND PTE_W = 0") simp_all
    qed
  qed
qed

lemma copyin_loop_keep: "copyin_loop pt va len dst s = Inr (r, bs, s') \<Longrightarrow> vm_keep s s'"
proof (induction pt va len dst s arbitrary: r bs s' rule: copyin_loop.induct)
  case (1 pt va len dst s)
  note e = 1(2)[unfolded copyin_loop.simps[of pt va len dst s] Let_def]
  show ?case
  proof (cases "len = 0")
    case True
    then show ?thesis using e by simp
  next
    case False
    then obtain pa0 s1 where u: "user_page pt (PGROUNDDOWN va) s = Inr (pa0, s1)" using e by (auto simp: res_simps)
    show ?thesis
    proof (cases "pa0 = 0")
      case True
      then show ?thesis using e u False user_page_keep[OF u] by simp
    next
      case nz: False
      then show ?thesis
        using 1(1)[OF False refl u refl nz refl] e u False vm_keep_trans[OF user_page_keep[OF u]] by simp
    qed
  qed
qed

lemma copyin_keep [vm_keeps]: "copyin pt va len s = Inr (r, bs, s') \<Longrightarrow> vm_keep s s'"
  unfolding copyin_def by (rule copyin_loop_keep)

section \<open>Process identifiers\<close>

text \<open>
  The entries in use have distinct positive pids below the next one to be given out; a free entry
  has no page table and no trapframe.
\<close>

definition pids_ok :: "'a vmst_scheme \<Rightarrow> bool" where
  "pids_ok s =
     (0 < nextpid s \<and>
      (\<forall>i < length (procs s). if p_state (procs s ! i) = UNUSED then p_pid (procs s ! i) = 0
         else 0 < p_pid (procs s ! i) \<and> p_pid (procs s ! i) < nextpid s) \<and>
      (\<forall>i < length (procs s). \<forall>j < length (procs s). i \<noteq> j \<longrightarrow> p_state (procs s ! i) \<noteq> UNUSED \<longrightarrow>
         p_pid (procs s ! i) \<noteq> p_pid (procs s ! j)))"

definition others_same :: "nat \<Rightarrow> 'a vmst_scheme \<Rightarrow> 'a vmst_scheme \<Rightarrow> bool" where
  "others_same p s s' = (length (procs s') = length (procs s) \<and> (\<forall>i. i \<noteq> p \<longrightarrow> procs s' ! i = procs s ! i))"

lemma others_same_upd [simp]: "others_same p s (upd_proc p f s') = others_same p s s'"
  by (auto simp: others_same_def upd_proc_def)

lemma others_same_vm: "vm_only s1 s2 \<Longrightarrow> others_same p s s2 = others_same p s s1"
  by (simp add: others_same_def vm_only_def)

text \<open>\<^const>\<open>freeproc\<close> empties its entry and leaves the other entries and the counter alone.\<close>

lemma freeproc_effect:
  assumes "freeproc p s = Inr s'"
  shows "others_same p s s' \<and> nextpid s' = nextpid s \<and> curproc s' = curproc s \<and>
    (p < length (procs s) \<longrightarrow>
       procs s' ! p = (procs s ! p)\<lparr>p_trapframe := 0, p_pagetable := 0, p_sz := 0, p_pid := 0, p_parent := None,
         p_name := (p_name (procs s ! p))[0 := 0], p_chan := None, p_killed := False, p_xstate := 0, p_state := UNUSED\<rparr>)"
  using assms unfolding freeproc_def Let_def
proof (elim andthen_InrE, goal_cases)
  case (1 s1 s3)
  have "vm_only s s1" using 1(1) by (auto split: if_splits dest: kfree_only)
  moreover have "vm_only (upd_proc p (\<lambda>q. q\<lparr>p_trapframe := 0\<rparr>) s1) s3"
    using 1(2) by (auto split: if_splits dest: proc_freepagetable_only)
  ultimately have "procs s3 = procs (upd_proc p (\<lambda>q. q\<lparr>p_trapframe := 0\<rparr>) s)" "nextpid s3 = nextpid s" "curproc s3 = curproc s"
    by (simp_all add: vm_only_def upd_proc_def)
  moreover have "s' = upd_proc p (\<lambda>q. q\<lparr>p_pagetable := 0, p_sz := 0, p_pid := 0, p_parent := None, p_name := (p_name q)[0 := 0],
                            p_chan := None, p_killed := False, p_xstate := 0, p_state := UNUSED\<rparr>) s3"
    using 1(3) by simp
  ultimately show ?case by (simp add: others_same_def upd_proc_def)
qed

text \<open>
  \<^const>\<open>allocproc\<close> takes an entry that was free, with the next pid, or leaves every entry as
  free as it was.
\<close>

lemma allocproc_effect:
  assumes "allocproc s = Inr (r, s')"
  shows "(r = None \<and> s' = s \<and> (\<forall>q \<in> set (procs s). p_state q \<noteq> UNUSED)) \<or>
    (\<exists>p. p < length (procs s) \<and> p_state (procs s ! p) = UNUSED \<and> others_same p s s' \<and> nextpid s' = nextpid s + 1 \<and>
       curproc s' = curproc s \<and>
       (case r of
          None \<Rightarrow> p_state (procs s' ! p) = UNUSED \<and> p_pid (procs s' ! p) = 0
        | Some p' \<Rightarrow> p' = p \<and> p_state (procs s' ! p) = USED \<and> p_pid (procs s' ! p) = nextpid s \<and>
            p_killed (procs s' ! p) = p_killed (procs s ! p)))"
proof (cases "first_idx (\<lambda>q. p_state q = UNUSED) (procs s)")
  case None
  then have "r = None" "s' = s" using assms by (simp_all add: allocproc_def)
  then show ?thesis using None by (auto simp: first_idx_None_iff)
next
  case (Some p)
  then have p: "p < length (procs s)" "p_state (procs s ! p) = UNUSED" by (auto dest: first_idx_SomeD)
  define s2 where "s2 = upd_proc p (\<lambda>q. q\<lparr>p_pid := nextpid s, p_state := USED, p_syscount := 0, p_mlfq_level := 0,
                     p_ticks_at_level := 0, p_ticks_per_level := [0, 0, 0, 0], p_times_scheduled := 0,
                     p_syscalls_at_level := 0, p_page_faults := 0, p_pages_evicted := 0, p_pages_swapped_in := 0,
                     p_pages_swapped_out := 0, p_resident_pages := 0\<rparr>) (s\<lparr>nextpid := nextpid s + 1\<rparr>)"
  obtain tf s3 where k: "kalloc s2 = (tf, s3)" by fastforce
  define s4 where "s4 = upd_proc p (\<lambda>q. q\<lparr>p_trapframe := tf\<rparr>) s3"
  have v3: "vm_only s2 s3" using vm_only_more[OF kalloc_more'[OF k]] .
  have c2: "others_same p s s2" "nextpid s2 = nextpid s + 1" "curproc s2 = curproc s" "p_state (procs s2 ! p) = USED"
      "p_pid (procs s2 ! p) = nextpid s" "p_killed (procs s2 ! p) = p_killed (procs s ! p)"
    using p(1) by (simp_all add: s2_def others_same_def upd_proc_def)
  have c4: "others_same p s s4" "nextpid s4 = nextpid s + 1" "curproc s4 = curproc s" "p_state (procs s4 ! p) = USED"
      "p_pid (procs s4 ! p) = nextpid s" "p_killed (procs s4 ! p) = p_killed (procs s ! p)"
    using c2 v3 p(1) by (simp_all add: s4_def others_same_vm[OF v3]) (simp_all add: vm_only_def upd_proc_def others_same_def)
  have fail: "others_same p s t' \<and> nextpid t' = nextpid s + 1 \<and> curproc t' = curproc s \<and>
        p_state (procs t' ! p) = UNUSED \<and> p_pid (procs t' ! p) = 0"
    if "freeproc p t = Inr t'" "others_same p s t" "nextpid t = nextpid s + 1" "curproc t = curproc s" for t t'
    using freeproc_effect[OF that(1)] that(2-4) p(1) by (auto simp: others_same_def)
  show ?thesis
  proof (cases "tf = 0")
    case True
    have "andthen (freeproc p s4) (\<lambda>s5. Inr (None, s5)) = Inr (r, s')"
      using assms Some True k by (simp add: allocproc_def allocpid_def Let_def s2_def s4_def)
    then have "r = None" "freeproc p s4 = Inr s'" by (auto simp: res_simps)
    then show ?thesis using fail[OF _ c4(1-3)] p by auto
  next
    case False
    obtain pt s5 where pp: "proc_pagetable p s4 = Inr (pt, s5)"
      using assms Some False k by (auto simp: allocproc_def allocpid_def Let_def s2_def s4_def res_simps)
    note v5 = proc_pagetable_only[OF pp]
    define s6 where "s6 = upd_proc p (\<lambda>q. q\<lparr>p_pagetable := pt\<rparr>) s5"
    have c6: "others_same p s s6" "nextpid s6 = nextpid s + 1" "curproc s6 = curproc s" "p_state (procs s6 ! p) = USED"
        "p_pid (procs s6 ! p) = nextpid s" "p_killed (procs s6 ! p) = p_killed (procs s ! p)"
      using c4 v5 p(1) by (simp_all add: s6_def others_same_vm[OF v5]) (simp_all add: vm_only_def upd_proc_def others_same_def)
    have l6: "p < length (procs s6)" using c6(1) p(1) by (simp add: others_same_def)
    have e: "(if pt = 0 then andthen (freeproc p s6) (\<lambda>s7. Inr (None, s7))
          else Inr (Some p, upd_proc p (\<lambda>q. q\<lparr>p_context := \<lparr>c_ra = forkret_pc s6, c_sp = p_kstack q + PGSIZE,
                                                            c_s = replicate 12 0\<rparr>\<rparr>) s6)) = Inr (r, s')"
      using assms Some False k pp by (auto simp: allocproc_def allocpid_def Let_def s2_def s4_def s6_def split: if_splits)
    show ?thesis
    proof (cases "pt = 0")
      case True
      then have "r = None" "freeproc p s6 = Inr s'" using e by (auto simp: res_simps)
      then show ?thesis using fail[OF _ c6(1-3)] p by auto
    next
      case False
      then show ?thesis using e c6 l6 p by (auto simp: procs_upd_proc)
    qed
  qed
qed

text \<open>The invariant only looks at the pid and the use of each entry.\<close>

definition ids :: "'a vmst_scheme \<Rightarrow> (int \<times> bool) list" where
  "ids s = map (\<lambda>q. (p_pid q, p_state q = UNUSED)) (procs s)"

lemma ids_nth: "i < length (procs s) \<Longrightarrow> ids s ! i = (p_pid (procs s ! i), p_state (procs s ! i) = UNUSED)"
  by (simp add: ids_def)

lemma pids_ok_ids:
  "pids_ok s =
     (0 < nextpid s \<and>
      (\<forall>i < length (ids s). if snd (ids s ! i) then fst (ids s ! i) = 0 else 0 < fst (ids s ! i) \<and> fst (ids s ! i) < nextpid s) \<and>
      (\<forall>i < length (ids s). \<forall>j < length (ids s). i \<noteq> j \<longrightarrow> \<not> snd (ids s ! i) \<longrightarrow> fst (ids s ! i) \<noteq> fst (ids s ! j)))"
  by (simp add: pids_ok_def ids_def)

lemma pids_ok_cong: "ids s' = ids s \<Longrightarrow> nextpid s' = nextpid s \<Longrightarrow> pids_ok s' = pids_ok s"
  by (simp add: pids_ok_ids)

lemma ids_upd: "(\<And>q. p_pid (f q) = p_pid q \<and> (p_state (f q) = UNUSED) = (p_state q = UNUSED)) \<Longrightarrow> ids (upd_proc p f s) = ids s"
  by (cases "p < length (procs s)")
    (auto simp: ids_def upd_proc_def list_update_beyond nth_list_update intro!: nth_equalityI)

lemma ids_each: "(\<And>i q. p_pid (f i q) = p_pid q \<and> (p_state (f i q) = UNUSED) = (p_state q = UNUSED)) \<Longrightarrow> ids (each_proc f s) = ids s"
  by (auto simp: ids_def each_proc_def intro!: nth_equalityI)

lemma ids_wakeup [simp]: "ids (wakeup ch s) = ids s"
  unfolding wakeup_def by (rule ids_each) simp

lemma nextpid_wakeup [simp]: "nextpid (wakeup ch s) = nextpid s" "length (procs (wakeup ch s)) = length (procs s)"
  by (simp_all add: wakeup_def each_proc_def)

lemma ids_reparent_loop: "ids (reparent_loop p k s) = ids s \<and> nextpid (reparent_loop p k s) = nextpid s"
proof (induction k arbitrary: s)
  case (Suc k)
  have "ids (upd_proc i (\<lambda>q. q\<lparr>p_parent := a\<rparr>) s) = ids s" for i a by (rule ids_upd) simp
  with Suc show ?case by (simp add: Let_def)
qed simp

lemma growproc_ids:
  assumes "growproc n s = Inr (r, s')"
  shows "ids s' = ids s" "nextpid s' = nextpid s"
proof -
  have i: "ids (upd_proc p (\<lambda>q. q\<lparr>p_sz := z\<rparr>) t) = ids t" for p z t by (rule ids_upd) simp
  obtain p where p: "curproc s = Some p" using assms by (cases "curproc s") (simp_all add: growproc_def)
  let ?q = "procs s ! p"
  have v: "ids t = ids s \<and> nextpid t = nextpid s" if "vm_only s t" for t
    using that by (simp add: vm_only_def ids_def)
  have "ids s' = ids s \<and> nextpid s' = nextpid s"
  proof (cases "n > 0")
    case True
    then show ?thesis
      using assms p
      by (cases "uvmalloc (p_pagetable ?q) (p_sz ?q) (p_sz ?q + of_int n) PTE_W s")
        (auto simp: growproc_def Let_def i split: if_splits dest!: uvmalloc_only v)
  next
    case False
    then show ?thesis
      using assms p
      by (cases "uvmdealloc (p_pagetable ?q) (p_sz ?q) (p_sz ?q + of_int n) s")
        (auto simp: growproc_def Let_def i split: if_splits dest!: uvmdealloc_only v)
  qed
  then show "ids s' = ids s" "nextpid s' = nextpid s" by simp_all
qed

lemma core_ids: "map core (procs s') = map core (procs s) \<Longrightarrow> ids s' = ids s"
proof -
  assume "map core (procs s') = map core (procs s)"
  then have "map (\<lambda>q. (p_pid q, p_state q = UNUSED)) (map core (procs s')) = map (\<lambda>q. (p_pid q, p_state q = UNUSED)) (map core (procs s))"
    by simp
  then show ?thesis by (simp add: ids_def core_def comp_def)
qed

lemma vm_keep_ids: "vm_keep s s' \<Longrightarrow> ids s' = ids s \<and> nextpid s' = nextpid s \<and> length (procs s') = length (procs s)"
  using core_ids[of s' s] map_eq_imp_length_eq[of core "procs s'" core "procs s"] by (simp add: vm_keep_def)

inductive ptable_step :: "'a vmst_scheme \<Rightarrow> 'a vmst_scheme \<Rightarrow> bool" where
  allocs: "allocproc s = Inr (r, s') \<Longrightarrow> ptable_step s s'"
| frees: "p < length (procs s) \<Longrightarrow> freeproc p s = Inr s' \<Longrightarrow> ptable_step s s'"
| waits: "curproc s = Some p \<Longrightarrow> p < length (procs s) \<Longrightarrow> p_state (procs s ! p) = RUNNING \<Longrightarrow> kwait addr s = Inr (r, s') \<Longrightarrow> ptable_step s s'"
| wakes: "ptable_step s (wakeup ch s)"
| kills: "ptable_step s (snd (kkill pid s))"
| sets: "ptable_step s (setkilled p s)"
| reparents: "ptable_step s (reparent p s)"
| sleeps: "curproc s = Some p \<Longrightarrow> p < length (procs s) \<Longrightarrow> p_state (procs s ! p) = RUNNING \<Longrightarrow> ptable_step s (sleep_on p ch s)"
| resumes: "ptable_step s (sleep_resume p s)"
| grows: "growproc n s = Inr (r, s') \<Longrightarrow> ptable_step s s'"

lemma freeproc_pids:
  assumes "pids_ok s" "p < length (procs s)" "freeproc p s = Inr s'"
  shows "pids_ok s'"
proof -
  have e: "length (procs s') = length (procs s)" "\<And>i. i \<noteq> p \<Longrightarrow> procs s' ! i = procs s ! i" "nextpid s' = nextpid s"
      "p_pid (procs s' ! p) = 0" "p_state (procs s' ! p) = UNUSED"
    using freeproc_effect[OF assms(3)] assms(2) by (auto simp: others_same_def)
  have "p_pid (procs s' ! i) \<noteq> p_pid (procs s' ! j)"
    if "i < length (procs s)" "j < length (procs s)" "i \<noteq> j" "p_state (procs s' ! i) \<noteq> UNUSED" for i j
  proof -
    have "i \<noteq> p" using that(4) e(5) by auto
    then show ?thesis using assms(1) that e by (cases "j = p") (auto simp: pids_ok_def)
  qed
  moreover have "if p_state (procs s' ! i) = UNUSED then p_pid (procs s' ! i) = 0
      else 0 < p_pid (procs s' ! i) \<and> p_pid (procs s' ! i) < nextpid s" if "i < length (procs s)" for i
    using assms(1) that e by (cases "i = p") (auto simp: pids_ok_def)
  ultimately show ?thesis using assms(1) e(1,3) by (auto simp: pids_ok_def)
qed

lemma allocproc_pids:
  assumes "pids_ok s" "allocproc s = Inr (r, s')"
  shows "pids_ok s'"
  using allocproc_effect[OF assms(2)]
proof (elim disjE exE conjE)
  assume "s' = s"
  then show ?thesis using assms(1) by simp
next
  fix p
  assume p: "p < length (procs s)" "p_state (procs s ! p) = UNUSED" "others_same p s s'" "nextpid s' = nextpid s + 1"
    and r: "case r of None \<Rightarrow> p_state (procs s' ! p) = UNUSED \<and> p_pid (procs s' ! p) = 0
        | Some p' \<Rightarrow> p' = p \<and> p_state (procs s' ! p) = USED \<and> p_pid (procs s' ! p) = nextpid s \<and>
            p_killed (procs s' ! p) = p_killed (procs s ! p)"
  have e: "length (procs s') = length (procs s)" "\<And>i. i \<noteq> p \<Longrightarrow> procs s' ! i = procs s ! i"
    using p(3) by (simp_all add: others_same_def)
  have new: "p_state (procs s' ! p) = UNUSED \<and> p_pid (procs s' ! p) = 0 \<or> p_state (procs s' ! p) \<noteq> UNUSED \<and> p_pid (procs s' ! p) = nextpid s"
    using r by (auto split: option.splits)
  have lt: "if p_state (procs s ! i) = UNUSED then p_pid (procs s ! i) = 0
      else 0 < p_pid (procs s ! i) \<and> p_pid (procs s ! i) < nextpid s" if "i < length (procs s)" for i
    using assms(1) that by (simp add: pids_ok_def)
  have n0: "0 < nextpid s" using assms(1) by (simp add: pids_ok_def)
  have A: "p_pid (procs s' ! i) \<noteq> p_pid (procs s' ! j)"
    if "i < length (procs s)" "j < length (procs s)" "i \<noteq> j" "p_state (procs s' ! i) \<noteq> UNUSED" for i j
    using assms(1) that e(2) lt[OF that(1)] lt[OF that(2)] new n0
    by (cases "i = p"; cases "j = p") (auto simp: pids_ok_def split: if_splits)
  have B: "if p_state (procs s' ! i) = UNUSED then p_pid (procs s' ! i) = 0
      else 0 < p_pid (procs s' ! i) \<and> p_pid (procs s' ! i) < nextpid s + 1" if "i < length (procs s)" for i
    using lt[OF that] e(2) new n0 by (cases "i = p") (auto split: if_splits)
  have "0 < nextpid s + 1" using n0 by simp
  then show ?thesis unfolding pids_ok_def e(1) p(4) using A B by blast
qed

lemma kwait_pids:
  assumes "pids_ok s" "curproc s = Some p" "p < length (procs s)" "p_state (procs s ! p) = RUNNING" "kwait addr s = Inr (r, s')"
  shows "pids_ok s'"
proof (cases "first_idx (\<lambda>q. p_parent q = Some p \<and> p_state q = ZOMBIE) (procs s)")
  case None
  have "ids (sleep_on p (ProcChan p) s) = ids s"
    using assms(3,4) by (auto simp: ids_def sleep_on_def upd_proc_def nth_list_update intro!: nth_equalityI)
  moreover have "nextpid (sleep_on p (ProcChan p) s) = nextpid s" by (simp add: sleep_on_def)
  ultimately have "pids_ok (sleep_on p (ProcChan p) s)" using assms(1) pids_ok_cong by blast
  then show ?thesis using assms(1,2,5) None by (auto simp: kwait_def split: if_splits)
next
  case (Some pp)
  then have pp: "pp < length (procs s)" by (auto dest: first_idx_SomeD)
  let ?q = "procs s ! pp"
  have "andthen (if addr \<noteq> 0 then copyout (p_pagetable (procs s ! p)) addr (int_bytes (p_xstate ?q)) s else Inr (0, s))
      (\<lambda>(r, s1). if r < 0 then Inr (Returns (-1), s1) else andthen (freeproc pp s1) (\<lambda>s2. Inr (Returns (p_pid ?q), s2))) = Inr (r, s')"
    using assms(2,5) Some by (simp add: kwait_def Let_def)
  then show ?thesis
  proof (elim andthen_InrE, goal_cases)
    case (1 x)
    obtain c s1 where x: "x = (c, s1)" by fastforce
    have "vm_keep s s1" using 1(1) x by (auto split: if_splits dest: copyout_keep)
    note k = vm_keep_ids[OF this]
    have p1: "pids_ok s1" using assms(1) pids_ok_cong[of s1 s] k by simp
    show ?case
      using 1(2) x p1 freeproc_pids[OF p1, of pp] pp k by (auto simp: res_simps split: if_splits)
  qed
qed

lemma ptable_step_pids: "ptable_step s s' \<Longrightarrow> pids_ok s \<Longrightarrow> pids_ok s'"
proof (induction rule: ptable_step.induct)
  case (kills s pid)
  have "ids (snd (kkill pid s)) = ids s" "nextpid (snd (kkill pid s)) = nextpid s"
    by (auto simp: kkill_def split: option.split if_splits intro!: ids_upd)
  then show ?case using kills pids_ok_cong by blast
next
  case (sets s p)
  have "ids (setkilled p s) = ids s" unfolding setkilled_def by (rule ids_upd) simp
  then show ?case using sets pids_ok_cong[of "setkilled p s" s] by (simp add: setkilled_def)
next
  case (reparents s p)
  then show ?case using ids_reparent_loop[of p "length (procs s)" s] pids_ok_cong[of "reparent p s" s] by (simp add: reparent_def)
next
  case (sleeps s p ch)
  have "ids (sleep_on p ch s) = ids s"
    using sleeps(2,3) by (auto simp: ids_def sleep_on_def upd_proc_def nth_list_update intro!: nth_equalityI)
  then show ?case using sleeps pids_ok_cong[of "sleep_on p ch s" s] by (simp add: sleep_on_def)
next
  case (resumes s p)
  have "ids (sleep_resume p s) = ids s" unfolding sleep_resume_def by (rule ids_upd) simp
  then show ?case using resumes pids_ok_cong[of "sleep_resume p s" s] by (simp add: sleep_resume_def)
next
  case (grows n s r s')
  then show ?case using growproc_ids pids_ok_cong by blast
next
  case (wakes s ch)
  then show ?case using pids_ok_cong[of "wakeup ch s" s] by simp
qed (auto intro: allocproc_pids freeproc_pids kwait_pids)

section \<open>Properties\<close>



end
