(* ===== verification/Xv6_Spinlock.thy ===== *)
theory Xv6_Spinlock
  imports Xv6_State
begin

text \<open>
  Spin locks, \<^verbatim>\<open>kernel/spinlock.c\<close>, and the per-CPU nesting of interrupt-off sections. A CPU
  is its index; its interrupt-enable bit (\<^verbatim>\<open>sstatus.SIE\<close>, what \<^verbatim>\<open>intr_get\<close> reads) is
  part of its state. The atomic steps of \<^verbatim>\<open>acquire\<close> and \<^verbatim>\<open>release\<close> are separate
  definitions, so that the CPUs can be interleaved between them.
\<close>

record spinlock =
  lk_locked :: bool
  lk_name :: string
  lk_cpu :: "nat option"

record cpu =
  cpu_proc :: "nat option"
  cpu_context :: ctxt
  cpu_noff :: int
  cpu_intena :: bool
  cpu_sie :: bool

record lockst =
  cpus :: "cpu list"
  locks :: "spinlock list"

definition upd_cpu :: "nat \<Rightarrow> (cpu \<Rightarrow> cpu) \<Rightarrow> lockst \<Rightarrow> lockst" where
  "upd_cpu h f s = s\<lparr>cpus := (cpus s)[h := f (cpus s ! h)]\<rparr>"

definition upd_lock :: "nat \<Rightarrow> (spinlock \<Rightarrow> spinlock) \<Rightarrow> lockst \<Rightarrow> lockst" where
  "upd_lock l f s = s\<lparr>locks := (locks s)[l := f (locks s ! l)]\<rparr>"

definition initlock :: "nat \<Rightarrow> string \<Rightarrow> lockst \<Rightarrow> lockst" where
  "initlock l name s = upd_lock l (\<lambda>_. \<lparr>lk_locked = False, lk_name = name, lk_cpu = None\<rparr>) s"

definition holding :: "nat \<Rightarrow> nat \<Rightarrow> lockst \<Rightarrow> bool" where
  "holding h l s = (lk_locked (locks s ! l) \<and> lk_cpu (locks s ! l) = Some h)"

definition push_off :: "nat \<Rightarrow> lockst \<Rightarrow> lockst" where
  "push_off h s =
     upd_cpu h (\<lambda>c. c\<lparr>cpu_sie := False,
                      cpu_intena := if cpu_noff c = 0 then cpu_sie c else cpu_intena c,
                      cpu_noff := cpu_noff c + 1\<rparr>) s"

definition pop_off :: "nat \<Rightarrow> lockst \<Rightarrow> lockst res" where
  "pop_off h s =
     (let c = cpus s ! h in
      if cpu_sie c then Inl (Panic ''pop_off - interruptible'')
      else if cpu_noff c < 1 then Inl (Panic ''pop_off'')
      else Inr (upd_cpu h (\<lambda>c. c\<lparr>cpu_noff := cpu_noff c - 1,
                                 cpu_sie := (cpu_noff c - 1 = 0 \<and> cpu_intena c)\<rparr>) s))"

text \<open>
  \<^verbatim>\<open>acquire\<close>: up to the spin loop; one round of it, with the old value of the lock word; and the
  record of the owner after it.
\<close>

definition acquire_enter :: "nat \<Rightarrow> nat \<Rightarrow> lockst \<Rightarrow> lockst res" where
  "acquire_enter h l s =
     (let s1 = push_off h s in if holding h l s1 then Inl (Panic ''acquire'') else Inr s1)"

definition test_and_set :: "nat \<Rightarrow> lockst \<Rightarrow> bool \<times> lockst" where
  "test_and_set l s = (lk_locked (locks s ! l), upd_lock l (\<lambda>k. k\<lparr>lk_locked := True\<rparr>) s)"

definition acquire_record :: "nat \<Rightarrow> nat \<Rightarrow> lockst \<Rightarrow> lockst" where
  "acquire_record h l s = upd_lock l (\<lambda>k. k\<lparr>lk_cpu := Some h\<rparr>) s"

text \<open>With nobody else running, \<^verbatim>\<open>acquire\<close> of a lock that is taken spins for ever.\<close>

definition acquire :: "nat \<Rightarrow> nat \<Rightarrow> lockst \<Rightarrow> lockst res" where
  "acquire h l s =
     andthen (acquire_enter h l s) (\<lambda>s1.
       case test_and_set l s1 of (old, s2) \<Rightarrow>
         if old then Inl OutOfFuel else Inr (acquire_record h l s2))"

definition release_clear :: "nat \<Rightarrow> nat \<Rightarrow> lockst \<Rightarrow> lockst res" where
  "release_clear h l s =
     (if \<not> holding h l s then Inl (Panic ''release'') else Inr (upd_lock l (\<lambda>k. k\<lparr>lk_cpu := None\<rparr>) s))"

definition release_store :: "nat \<Rightarrow> nat \<Rightarrow> lockst \<Rightarrow> lockst res" where
  "release_store h l s = pop_off h (upd_lock l (\<lambda>k. k\<lparr>lk_locked := False\<rparr>) s)"

definition release :: "nat \<Rightarrow> nat \<Rightarrow> lockst \<Rightarrow> lockst res" where
  "release h l s = andthen (release_clear h l s) (\<lambda>s1. release_store h l s1)"

section \<open>CPUs interleaved\<close>

text \<open>
  What a CPU is doing, and the locks it has taken, newest first. A CPU starts only acquisitions of
  locks it does not have and only releases of locks it has; nothing else is assumed of the code
  between them.
\<close>

datatype phase = Running | Spinning nat | Taken nat | Releasing nat

record lksys =
  lkst :: lockst
  phases :: "phase list"
  held :: "nat list list"

inductive lstep :: "lksys \<Rightarrow> lksys \<Rightarrow> bool" where
  enter: "h < length (phases y) \<Longrightarrow> phases y ! h = Running \<Longrightarrow> l < length (locks (lkst y)) \<Longrightarrow> l \<notin> set (held y ! h) \<Longrightarrow>
    acquire_enter h l (lkst y) = Inr s \<Longrightarrow>
    lstep y (y\<lparr>lkst := s, phases := (phases y)[h := Spinning l]\<rparr>)"
| spin: "h < length (phases y) \<Longrightarrow> phases y ! h = Spinning l \<Longrightarrow> test_and_set l (lkst y) = (True, s) \<Longrightarrow>
    lstep y (y\<lparr>lkst := s\<rparr>)"
| win: "h < length (phases y) \<Longrightarrow> phases y ! h = Spinning l \<Longrightarrow> test_and_set l (lkst y) = (False, s) \<Longrightarrow>
    lstep y (y\<lparr>lkst := s, phases := (phases y)[h := Taken l]\<rparr>)"
| own: "h < length (phases y) \<Longrightarrow> phases y ! h = Taken l \<Longrightarrow>
    lstep y (y\<lparr>lkst := acquire_record h l (lkst y), phases := (phases y)[h := Running], held := (held y)[h := l # held y ! h]\<rparr>)"
| clear: "h < length (phases y) \<Longrightarrow> phases y ! h = Running \<Longrightarrow> l \<in> set (held y ! h) \<Longrightarrow> release_clear h l (lkst y) = Inr s \<Longrightarrow>
    lstep y (y\<lparr>lkst := s, phases := (phases y)[h := Releasing l], held := (held y)[h := remove1 l (held y ! h)]\<rparr>)"
| store: "h < length (phases y) \<Longrightarrow> phases y ! h = Releasing l \<Longrightarrow> release_store h l (lkst y) = Inr s \<Longrightarrow>
    lstep y (y\<lparr>lkst := s, phases := (phases y)[h := Running]\<rparr>)"

text \<open>CPU \<open>h\<close> is inside lock \<open>l\<close>: from the winning test-and-set to the store that releases.\<close>

definition inside :: "lksys \<Rightarrow> nat \<Rightarrow> nat \<Rightarrow> bool" where
  "inside y h l = (l \<in> set (held y ! h) \<or> phases y ! h = Taken l \<or> phases y ! h = Releasing l)"

definition pending :: "phase \<Rightarrow> nat" where
  "pending ph = (case ph of Running \<Rightarrow> 0 | _ \<Rightarrow> 1)"

definition hart_ok :: "lksys \<Rightarrow> nat \<Rightarrow> bool" where
  "hart_ok y h =
     (distinct (held y ! h) \<and> (\<forall>l \<in> set (held y ! h). l < length (locks (lkst y))) \<and>
      (\<forall>l. phases y ! h \<in> {Spinning l, Taken l, Releasing l} \<longrightarrow> l < length (locks (lkst y)) \<and> l \<notin> set (held y ! h)) \<and>
      cpu_noff (cpus (lkst y) ! h) = int (length (held y ! h) + pending (phases y ! h)) \<and>
      (cpu_noff (cpus (lkst y) ! h) > 0 \<longrightarrow> \<not> cpu_sie (cpus (lkst y) ! h)))"

definition lock_ok :: "lksys \<Rightarrow> nat \<Rightarrow> bool" where
  "lock_ok y l =
     (let n = length (phases y) in
      lk_locked (locks (lkst y) ! l) = (\<exists>h < n. inside y h l) \<and>
      (\<forall>h < n. lk_cpu (locks (lkst y) ! l) = Some h \<longleftrightarrow> l \<in> set (held y ! h)) \<and>
      (\<forall>h < n. \<forall>k < n. inside y h l \<longrightarrow> inside y k l \<longrightarrow> h = k))"

definition lk_inv :: "lksys \<Rightarrow> bool" where
  "lk_inv y =
     (length (phases y) = length (cpus (lkst y)) \<and> length (held y) = length (cpus (lkst y)) \<and>
      (\<forall>h < length (phases y). hart_ok y h) \<and> (\<forall>l < length (locks (lkst y)). lock_ok y l))"

definition lk_boot :: "nat \<Rightarrow> nat \<Rightarrow> lksys" where
  "lk_boot n m =
     \<lparr>lkst = \<lparr>cpus = replicate n \<lparr>cpu_proc = None, cpu_context = \<lparr>c_ra = 0, c_sp = 0, c_s = replicate 12 0\<rparr>,
                                    cpu_noff = 0, cpu_intena = False, cpu_sie = True\<rparr>,
             locks = replicate m \<lparr>lk_locked = False, lk_name = [], lk_cpu = None\<rparr>\<rparr>,
      phases = replicate n Running, held = replicate n []\<rparr>"

lemma lk_boot_inv: "lk_inv (lk_boot n m)"
  by (simp add: lk_inv_def lk_boot_def hart_ok_def lock_ok_def inside_def pending_def)

text \<open>
  One step touches one CPU and one lock, and is the same for every other.
\<close>

lemma lk_invI:
  assumes inv: "lk_inv y" and h: "h < length (phases y)"
    and len: "length (cpus (lkst y')) = length (cpus (lkst y))" "length (locks (lkst y')) = length (locks (lkst y))"
      "length (phases y') = length (phases y)" "length (held y') = length (held y)"
    and oth: "\<And>k. k \<noteq> h \<Longrightarrow> cpus (lkst y') ! k = cpus (lkst y) ! k \<and> phases y' ! k = phases y ! k \<and> held y' ! k = held y ! k"
    and lk: "\<And>j. j \<noteq> l \<Longrightarrow> locks (lkst y') ! j = locks (lkst y) ! j"
      "\<And>j. j \<noteq> l \<Longrightarrow> inside y' h j = inside y h j \<and> (j \<in> set (held y' ! h) \<longleftrightarrow> j \<in> set (held y ! h))"
    and new: "hart_ok y' h" "l < length (locks (lkst y)) \<Longrightarrow> lock_ok y' l"
  shows "lk_inv y'"
proof -
  have "hart_ok y' k" if "k < length (phases y)" for k
  proof (cases "k = h")
    case False
    then show ?thesis using inv that oth[OF False] len by (simp add: lk_inv_def hart_ok_def)
  qed (use new in simp)
  moreover have "lock_ok y' j" if "j < length (locks (lkst y))" for j
  proof (cases "j = l")
    case False
    have i: "inside y' k j = inside y k j" "j \<in> set (held y' ! k) \<longleftrightarrow> j \<in> set (held y ! k)" for k
      using lk(2)[OF False] oth[of k] by (cases "k = h"; simp add: inside_def)+
    show ?thesis using inv that i lk(1)[OF False] len by (simp add: lk_inv_def lock_ok_def Let_def)
  qed (use that new in simp)
  ultimately show ?thesis using inv len by (simp add: lk_inv_def)
qed

lemmas lock_ops = acquire_enter_def push_off_def test_and_set_def acquire_record_def release_clear_def
  release_store_def pop_off_def upd_cpu_def upd_lock_def

lemma lk_invD:
  assumes "lk_inv y" "h < length (phases y)"
  shows "hart_ok y h" "h < length (cpus (lkst y))" "h < length (held y)"
    and "phases y ! h \<in> {Spinning l, Taken l, Releasing l} \<or> l \<in> set (held y ! h) \<Longrightarrow> l < length (locks (lkst y)) \<and> lock_ok y l"
  using assms by (auto simp: lk_inv_def hart_ok_def)

text \<open>A lock keeps its invariant when the CPUs inside it and its fields stay as they are.\<close>

lemma lock_ok_same:
  assumes "lock_ok y l" "\<And>k. inside y' k l = inside y k l" "\<And>k. l \<in> set (held y' ! k) \<longleftrightarrow> l \<in> set (held y ! k)"
    "locks (lkst y') ! l = locks (lkst y) ! l" "length (phases y') = length (phases y)"
  shows "lock_ok y' l"
  using assms by (simp add: lock_ok_def Let_def)

lemma lock_ok_unique:
  "lock_ok y l \<Longrightarrow> h < length (phases y) \<Longrightarrow> k < length (phases y) \<Longrightarrow> inside y h l \<Longrightarrow> inside y k l \<Longrightarrow> k = h"
  unfolding lock_ok_def Let_def by blast

lemma held_inside: "l \<in> set (held y ! k) \<Longrightarrow> inside y k l"
  by (simp add: inside_def)

lemma lstep_enter:
  assumes inv: "lk_inv y" and h: "h < length (phases y)" "phases y ! h = Running" and l: "l < length (locks (lkst y))" "l \<notin> set (held y ! h)"
    and e: "acquire_enter h l (lkst y) = Inr s"
  shows "lk_inv (y\<lparr>lkst := s, phases := (phases y)[h := Spinning l]\<rparr>)"
proof -
  define z where "z = y\<lparr>lkst := s, phases := (phases y)[h := Spinning l]\<rparr>"
  note d = lk_invD(1-3)[OF inv h(1)]
  have s: "s = push_off h (lkst y)" using e by (simp add: acquire_enter_def Let_def split: if_splits)
  have zf: "cpus (lkst z) = (cpus (lkst y))[h := (cpus (lkst y) ! h)\<lparr>cpu_sie := False, cpu_intena := if cpu_noff (cpus (lkst y) ! h) = 0 then cpu_sie (cpus (lkst y) ! h) else cpu_intena (cpus (lkst y) ! h), cpu_noff := cpu_noff (cpus (lkst y) ! h) + 1\<rparr>]" "locks (lkst z) = locks (lkst y)" "phases z = (phases y)[h := Spinning l]" "held z = held y"
    by (simp_all add: z_def s push_off_def upd_cpu_def)
  have ins: "inside z k j = inside y k j" for k j
    using h by (cases "k = h") (simp_all add: inside_def zf)
  have "lock_ok z l" using inv l
    by (rule_tac lock_ok_same[of y l]) (simp_all add: lk_inv_def ins zf)
  moreover have "hart_ok z h"
    using d l h by (simp add: hart_ok_def zf pending_def)
  ultimately have "lk_inv z"
    using d by (intro lk_invI[OF inv h(1), of z l]) (simp_all add: ins zf)
  then show ?thesis by (simp only: z_def)
qed

lemma lstep_spin:
  assumes inv: "lk_inv y" and h: "h < length (phases y)" "phases y ! h = Spinning l"
    and e: "test_and_set l (lkst y) = (True, s)"
  shows "lk_inv (y\<lparr>lkst := s\<rparr>)"
proof -
  have "l < length (locks (lkst y))" using lk_invD(4)[OF inv h(1), of l] h(2) by simp
  moreover have "(locks (lkst y) ! l)\<lparr>lk_locked := True\<rparr> = locks (lkst y) ! l" using e by (simp add: test_and_set_def)
  ultimately have "s = lkst y" using e by (auto simp: test_and_set_def upd_lock_def)
  then show ?thesis using inv by simp
qed

lemma lstep_win:
  assumes inv: "lk_inv y" and h: "h < length (phases y)" "phases y ! h = Spinning l"
    and e: "test_and_set l (lkst y) = (False, s)"
  shows "lk_inv (y\<lparr>lkst := s, phases := (phases y)[h := Taken l]\<rparr>)"
proof -
  define z where "z = y\<lparr>lkst := s, phases := (phases y)[h := Taken l]\<rparr>"
  note d = lk_invD(1-3)[OF inv h(1)]
  have l: "l < length (locks (lkst y))" "lock_ok y l" using lk_invD(4)[OF inv h(1), of l] h(2) by simp_all
  have s: "\<not> lk_locked (locks (lkst y) ! l)" "s = upd_lock l (\<lambda>k. k\<lparr>lk_locked := True\<rparr>) (lkst y)"
    using e by (simp_all add: test_and_set_def)
  have no: "\<not> inside y k l" if "k < length (phases y)" for k using l(2) s(1) that by (simp add: lock_ok_def Let_def)
  have zf: "cpus (lkst z) = cpus (lkst y)" "locks (lkst z) = (locks (lkst y))[l := (locks (lkst y) ! l)\<lparr>lk_locked := True\<rparr>]" "phases z = (phases y)[h := Taken l]" "held z = held y"
    by (simp_all add: z_def s(2) upd_lock_def)
  have ins: "inside z k j = (k = h \<and> j = l \<or> inside y k j)" for k j
    using h by (cases "k = h") (auto simp: inside_def zf)
  have "lock_ok z l" using l no h(1) by (auto simp: lock_ok_def Let_def ins zf)
  moreover have "hart_ok z h" using d h by (auto simp: hart_ok_def zf pending_def)
  ultimately have "lk_inv z"
    using d l(1) by (intro lk_invI[OF inv h(1), of z l]) (simp_all add: ins zf)
  then show ?thesis by (simp only: z_def)
qed

lemma lstep_own:
  assumes inv: "lk_inv y" and h: "h < length (phases y)" "phases y ! h = Taken l"
  shows "lk_inv (y\<lparr>lkst := acquire_record h l (lkst y), phases := (phases y)[h := Running], held := (held y)[h := l # held y ! h]\<rparr>)"
proof -
  define z where "z = y\<lparr>lkst := acquire_record h l (lkst y), phases := (phases y)[h := Running], held := (held y)[h := l # held y ! h]\<rparr>"
  note d = lk_invD(1-3)[OF inv h(1)]
  have l: "l < length (locks (lkst y))" "lock_ok y l" using lk_invD(4)[OF inv h(1), of l] h(2) by simp_all
  have zf: "cpus (lkst z) = cpus (lkst y)" "locks (lkst z) = (locks (lkst y))[l := (locks (lkst y) ! l)\<lparr>lk_cpu := Some h\<rparr>]" "phases z = (phases y)[h := Running]" "held z = (held y)[h := l # held y ! h]"
    by (simp_all add: z_def acquire_record_def upd_lock_def)
  have ins: "inside z k j = inside y k j" for k j
    using h d by (cases "k = h") (auto simp: inside_def zf)
  have me: "inside y h l" using h(2) by (simp add: inside_def)
  have "\<not> l \<in> set (held y ! k)" if "k < length (phases y)" "k \<noteq> h" for k
    using lock_ok_unique[OF l(2) h(1) that(1) me] that(2) held_inside by blast
  then have "lock_ok z l"
    using l d h(1) by (simp add: lock_ok_def Let_def ins zf nth_list_update)
  moreover have "hart_ok z h" using d h by (auto simp: hart_ok_def zf pending_def)
  ultimately have "lk_inv z"
    using d l(1) h by (intro lk_invI[OF inv h(1), of z l]) (simp_all add: ins zf)
  then show ?thesis by (simp only: z_def)
qed

lemma lstep_clear:
  assumes inv: "lk_inv y" and h: "h < length (phases y)" "phases y ! h = Running" "l \<in> set (held y ! h)"
    and e: "release_clear h l (lkst y) = Inr s"
  shows "lk_inv (y\<lparr>lkst := s, phases := (phases y)[h := Releasing l], held := (held y)[h := remove1 l (held y ! h)]\<rparr>)"
proof -
  define z where "z = y\<lparr>lkst := s, phases := (phases y)[h := Releasing l], held := (held y)[h := remove1 l (held y ! h)]\<rparr>"
  note d = lk_invD(1-3)[OF inv h(1)]
  have l: "l < length (locks (lkst y))" "lock_ok y l" using lk_invD(4)[OF inv h(1), of l] h(3) by simp_all
  have s: "s = upd_lock l (\<lambda>k. k\<lparr>lk_cpu := None\<rparr>) (lkst y)" using e by (simp add: release_clear_def split: if_splits)
  have dh: "distinct (held y ! h)" using d(1) by (simp add: hart_ok_def)
  have zf: "cpus (lkst z) = cpus (lkst y)" "locks (lkst z) = (locks (lkst y))[l := (locks (lkst y) ! l)\<lparr>lk_cpu := None\<rparr>]" "phases z = (phases y)[h := Releasing l]" "held z = (held y)[h := remove1 l (held y ! h)]"
    by (simp_all add: z_def s upd_lock_def)
  have pos: "0 < length (held y ! h)" using h(3) by (rule length_pos_if_in_set)
  have ins: "inside z k j = inside y k j" for k j
    using h d dh by (cases "k = h") (auto simp: inside_def zf)
  have me: "inside y h l" using h(3) by (simp add: inside_def)
  have "\<not> l \<in> set (held y ! k)" if "k < length (phases y)" "k \<noteq> h" for k
    using lock_ok_unique[OF l(2) h(1) that(1) me] that(2) held_inside by blast
  then have "lock_ok z l"
    using l d dh h(1) by (simp add: lock_ok_def Let_def ins zf nth_list_update)
  moreover have "hart_ok z h"
    using d h dh pos by (auto simp: hart_ok_def zf pending_def length_remove1 of_nat_diff)
  ultimately have "lk_inv z"
    using d l(1) h dh by (intro lk_invI[OF inv h(1), of z l]) (simp_all add: ins zf)
  then show ?thesis by (simp only: z_def)
qed

lemma lstep_store:
  assumes inv: "lk_inv y" and h: "h < length (phases y)" "phases y ! h = Releasing l"
    and e: "release_store h l (lkst y) = Inr s"
  shows "lk_inv (y\<lparr>lkst := s, phases := (phases y)[h := Running]\<rparr>)"
proof -
  define z where "z = y\<lparr>lkst := s, phases := (phases y)[h := Running]\<rparr>"
  note d = lk_invD(1-3)[OF inv h(1)]
  have l: "l < length (locks (lkst y))" "lock_ok y l" using lk_invD(4)[OF inv h(1), of l] h(2) by simp_all
  have s: "s = upd_cpu h (\<lambda>c. c\<lparr>cpu_noff := cpu_noff c - 1, cpu_sie := (cpu_noff c - 1 = 0 \<and> cpu_intena c)\<rparr>)
      (upd_lock l (\<lambda>k. k\<lparr>lk_locked := False\<rparr>) (lkst y))"
    using e by (simp add: release_store_def pop_off_def Let_def split: if_splits)
  have nl: "l \<notin> set (held y ! h)" using d(1) h(2) by (simp add: hart_ok_def)
  have zf: "cpus (lkst z) = (cpus (lkst y))[h := (cpus (lkst y) ! h)\<lparr>cpu_noff := cpu_noff (cpus (lkst y) ! h) - 1, cpu_sie := (cpu_noff (cpus (lkst y) ! h) - 1 = 0 \<and> cpu_intena (cpus (lkst y) ! h))\<rparr>]" "locks (lkst z) = (locks (lkst y))[l := (locks (lkst y) ! l)\<lparr>lk_locked := False\<rparr>]" "phases z = (phases y)[h := Running]" "held z = held y"
    by (simp_all add: z_def s upd_lock_def upd_cpu_def)
  have ins: "inside z k j = (inside y k j \<and> \<not> (k = h \<and> j = l))" for k j
    using h nl by (cases "k = h") (auto simp: inside_def zf)
  have me: "inside y h l" using h(2) by (simp add: inside_def)
  have no: "\<not> inside y k l" if "k < length (phases y)" "k \<noteq> h" for k
    using lock_ok_unique[OF l(2) h(1) that(1) me] that(2) by blast
  have nz: "\<not> inside z k l" if "k < length (phases y)" for k using no[OF that] by (cases "k = h") (simp_all add: ins)
  have "lock_ok z l" using l nz by (simp add: lock_ok_def Let_def zf)
  moreover have "hart_ok z h" using d h by (auto simp: hart_ok_def zf pending_def)
  ultimately have "lk_inv z"
    using d l(1) by (intro lk_invI[OF inv h(1), of z l]) (simp_all add: ins zf)
  then show ?thesis by (simp only: z_def)
qed

lemma lstep_inv: "lstep y y' \<Longrightarrow> lk_inv y \<Longrightarrow> lk_inv y'"
  by (induction rule: lstep.induct)
    (simp_all add: lstep_enter lstep_spin lstep_win lstep_own lstep_clear lstep_store)

lemma lstep_lengths:
  "lstep y y' \<Longrightarrow> length (phases y') = length (phases y) \<and> length (locks (lkst y')) = length (locks (lkst y))"
  by (induction rule: lstep.induct) (auto simp: lock_ops Let_def split: if_splits)

lemma reach_lengths:
  "lstep\<^sup>*\<^sup>* y y' \<Longrightarrow> length (phases y') = length (phases y) \<and> length (locks (lkst y')) = length (locks (lkst y))"
  by (induction rule: rtranclp_induct) (auto dest: lstep_lengths)

lemma reach_inv: "lstep\<^sup>*\<^sup>* y y' \<Longrightarrow> lk_inv y \<Longrightarrow> lk_inv y'"
  by (induction rule: rtranclp_induct) (auto intro: lstep_inv)

section \<open>Properties\<close>

text \<open>
  C13. Mutual exclusion: however the CPUs interleave the steps of their acquisitions and releases, no
  two CPUs are ever inside the same lock; \<^verbatim>\<open>holding\<close> tells a running CPU exactly which locks
  it has, so none of the panics of \<^verbatim>\<open>acquire\<close>, \<^verbatim>\<open>release\<close> and \<^verbatim>\<open>pop_off\<close> is
  reached; and a CPU inside a lock has its interrupts off, at a depth equal to the number of locks.
\<close>

theorem spinlock_mutual_exclusion:
  assumes "lstep\<^sup>*\<^sup>* (lk_boot n m) y" "h < n" "l < m"
  shows "(\<forall>k < n. inside y h l \<longrightarrow> inside y k l \<longrightarrow> k = h) \<and>
    (inside y h l \<longrightarrow> \<not> cpu_sie (cpus (lkst y) ! h)) \<and>
    (phases y ! h = Running \<longrightarrow>
       holding h l (lkst y) = (l \<in> set (held y ! h)) \<and>
       cpu_noff (cpus (lkst y) ! h) = int (length (held y ! h)) \<and>
       (if l \<in> set (held y ! h) then \<exists>s. release h l (lkst y) = Inr s
        else \<exists>s. acquire_enter h l (lkst y) = Inr s))"
proof -
  have inv: "lk_inv y" using reach_inv[OF assms(1) lk_boot_inv] .
  have len: "length (phases y) = n" "length (locks (lkst y)) = m"
    using reach_lengths[OF assms(1)] by (simp_all add: lk_boot_def)
  have hl: "hart_ok y h" "lock_ok y l" using inv assms(2,3) len by (simp_all add: lk_inv_def)
  have hc: "h < length (cpus (lkst y))" using lk_invD(2)[OF inv] assms(2) len by simp
  have excl: "\<forall>k < n. inside y h l \<longrightarrow> inside y k l \<longrightarrow> k = h"
    using lock_ok_unique[OF hl(2)] assms(2) len by blast
  have off: "\<not> cpu_sie (cpus (lkst y) ! h)" if "inside y h l"
  proof -
    have "0 < length (held y ! h) + pending (phases y ! h)"
      using that length_pos_if_in_set[of l "held y ! h"] by (auto simp: inside_def pending_def)
    moreover have "cpu_noff (cpus (lkst y) ! h) = int (length (held y ! h) + pending (phases y ! h))"
      using hl(1) unfolding hart_ok_def by blast
    ultimately have "cpu_noff (cpus (lkst y) ! h) > 0" by linarith
    then show ?thesis using hl(1) unfolding hart_ok_def by blast
  qed
  have hold: "holding h l (lkst y) = (l \<in> set (held y ! h))"
    using hl(2) assms(2) len held_inside[of l y h] by (auto simp: holding_def lock_ok_def Let_def)
  have noff: "phases y ! h = Running \<Longrightarrow> cpu_noff (cpus (lkst y) ! h) = int (length (held y ! h))"
    using hl(1) by (simp add: hart_ok_def pending_def)
  have rel: "\<exists>s. release h l (lkst y) = Inr s" if "phases y ! h = Running" "l \<in> set (held y ! h)"
    using hold noff[OF that(1)] off[OF held_inside[OF that(2)]] that(2) length_pos_if_in_set[OF that(2)]
    by (simp add: release_def release_clear_def release_store_def pop_off_def upd_lock_def)
  have acq: "\<exists>s. acquire_enter h l (lkst y) = Inr s" if "l \<notin> set (held y ! h)"
    using hold that by (simp add: acquire_enter_def Let_def holding_def push_off_def upd_cpu_def)
  show ?thesis using excl off hold noff rel acq by auto
qed

theorem spinlock_mutual_exclusion_witness:
  "\<exists>s. lstep\<^sup>*\<^sup>* (lk_boot 2 1) ((lk_boot 2 1)\<lparr>lkst := s, phases := [Spinning 0, Running]\<rparr>) \<and> \<not> holding 1 0 s"
proof -
  let ?y = "lk_boot 2 1"
  obtain s where s: "acquire_enter 0 0 (lkst ?y) = Inr s"
    by (simp add: acquire_enter_def Let_def holding_def push_off_def upd_cpu_def lk_boot_def)
  have p: "(phases ?y)[0 := Spinning 0] = [Spinning 0, Running]" "0 < length (phases ?y)" "phases ?y ! 0 = Running"
      "0 < length (locks (lkst ?y))" "0 \<notin> set (held ?y ! 0)"
    by (simp_all add: lk_boot_def numeral_2_eq_2)
  have st: "lstep\<^sup>*\<^sup>* ?y (?y\<lparr>lkst := s, phases := [Spinning 0, Running]\<rparr>)"
    using lstep.enter[OF p(2-5) s] unfolding p(1) by (rule r_into_rtranclp)
  from spinlock_mutual_exclusion[OF st, of 1 0] have "\<not> holding 1 0 s"
    by (simp add: lk_boot_def numeral_2_eq_2)
  with st show ?thesis by blast
qed

end
