(* ===== verification/Xv6_Sched.thy ===== *)
theory Xv6_Sched
  imports Xv6_Proc Xv6_Spinlock
begin

text \<open>
  The multi-level feedback queue scheduler: \<^verbatim>\<open>scheduler\<close>, \<^verbatim>\<open>sched\<close>, \<^verbatim>\<open>yield\<close> and
  \<^verbatim>\<open>sleep\<close> of \<^verbatim>\<open>kernel/proc.c\<close>, and the accounting of timer interrupts in
  \<^verbatim>\<open>kernel/trap.c\<close>. One CPU, number 0, is modelled. Lock \<open>i\<close> is the lock of process \<open>i\<close>;
  here the locks are explicit, because a context switch hands a locked process lock from one side to
  the other.
\<close>

record kst = vmst +
  klk :: lockst
  last_idx :: "nat list"
  ticks :: u32

definition with_lk :: "(lockst \<Rightarrow> lockst res) \<Rightarrow> 'a kst_scheme \<Rightarrow> 'a kst_scheme res" where
  "with_lk f s = andthen (f (klk s)) (\<lambda>l. Inr (s\<lparr>klk := l\<rparr>))"

section \<open>The context switch\<close>

text \<open>
  \<^verbatim>\<open>sched\<close> up to \<^verbatim>\<open>swtch\<close>, with the value of \<^verbatim>\<open>intena\<close> that the kernel thread keeps
  on its stack, and what it does when it is switched to again.
\<close>

definition sched :: "nat \<Rightarrow> 'a kst_scheme \<Rightarrow> (bool \<times> 'a kst_scheme) res" where
  "sched p s =
     (if \<not> holding 0 p (klk s) then Inl (Panic ''sched p->lock'')
      else if cpu_noff (cpus (klk s) ! 0) \<noteq> 1 then Inl (Panic ''sched locks'')
      else if p_state (procs s ! p) = RUNNING then Inl (Panic ''sched RUNNING'')
      else if cpu_sie (cpus (klk s) ! 0) then Inl (Panic ''sched interruptible'')
      else Inr (cpu_intena (cpus (klk s) ! 0), s))"

definition sched_return :: "bool \<Rightarrow> 'a kst_scheme \<Rightarrow> 'a kst_scheme" where
  "sched_return intena s = s\<lparr>klk := upd_cpu 0 (\<lambda>c. c\<lparr>cpu_intena := intena\<rparr>) (klk s)\<rparr>"

definition yield :: "nat \<Rightarrow> 'a kst_scheme \<Rightarrow> (bool \<times> 'a kst_scheme) res" where
  "yield p s =
     andthen (with_lk (acquire 0 p) s) (\<lambda>s1.
       sched p (upd_proc p (\<lambda>q. q\<lparr>p_state := RUNNABLE\<rparr>) s1))"

definition yield_return :: "nat \<Rightarrow> bool \<Rightarrow> 'a kst_scheme \<Rightarrow> 'a kst_scheme res" where
  "yield_return p intena s = with_lk (release 0 p) (sched_return intena s)"

text \<open>\<^verbatim>\<open>sleep(chan, lk)\<close>, where \<open>lk\<close> is the number of the condition's lock.\<close>

definition sleep :: "nat \<Rightarrow> chan \<Rightarrow> nat \<Rightarrow> 'a kst_scheme \<Rightarrow> (bool \<times> 'a kst_scheme) res" where
  "sleep p ch lk s =
     andthen (with_lk (acquire 0 p) s) (\<lambda>s1.
     andthen (with_lk (release 0 lk) s1) (\<lambda>s2.
       sched p (upd_proc p (\<lambda>q. q\<lparr>p_chan := Some ch, p_state := SLEEPING\<rparr>) s2)))"

definition sleep_return :: "nat \<Rightarrow> nat \<Rightarrow> bool \<Rightarrow> 'a kst_scheme \<Rightarrow> 'a kst_scheme res" where
  "sleep_return p lk intena s =
     (let s1 = upd_proc p (\<lambda>q. q\<lparr>p_chan := None\<rparr>) (sched_return intena s) in
      andthen (with_lk (release 0 p) s1) (\<lambda>s2. with_lk (acquire 0 lk) s2))"

section \<open>The scheduler\<close>

definition runnable_at :: "int \<Rightarrow> proc \<Rightarrow> bool" where
  "runnable_at level q = (p_state q = RUNNABLE \<and> p_mlfq_level q = level)"

text \<open>
  The \<^verbatim>\<open>do ... while(idx != start_idx)\<close> loop over the table; \<open>k\<close> bounds the rounds, and
  \<^const>\<open>NPROC\<close> rounds bring \<open>idx\<close> back to its start.
\<close>

fun sched_scan :: "nat \<Rightarrow> int \<Rightarrow> nat \<Rightarrow> nat \<Rightarrow> proc list \<Rightarrow> nat option" where
  "sched_scan 0 level start idx ps = None"
| "sched_scan (Suc k) level start idx ps =
     (if runnable_at level (ps ! idx) then Some idx
      else let idx' = (idx + 1) mod NPROC in
           if idx' \<noteq> start then sched_scan k level start idx' ps else None)"

definition sched_pick :: "nat \<Rightarrow> nat \<Rightarrow> proc list \<Rightarrow> nat option" where
  "sched_pick level prev ps =
     (let start_idx = (prev + 1) mod NPROC in sched_scan NPROC (int level) start_idx start_idx ps)"

definition dispatch :: "nat \<Rightarrow> nat \<Rightarrow> 'a kst_scheme \<Rightarrow> 'a kst_scheme res" where
  "dispatch level idx s =
     andthen (with_lk (acquire 0 idx) s) (\<lambda>s1.
       Inr ((upd_proc idx (\<lambda>q. q\<lparr>p_state := RUNNING, p_times_scheduled := p_times_scheduled q + 1,
                                 p_syscalls_at_level := p_syscount q\<rparr>) s1)
              \<lparr>last_idx := (last_idx s1)[level := idx], curproc := Some idx\<rparr>))"

text \<open>Back from the process: \<^verbatim>\<open>c->proc = 0; release(&p->lock)\<close>.\<close>

definition dispatch_return :: "nat \<Rightarrow> 'a kst_scheme \<Rightarrow> 'a kst_scheme res" where
  "dispatch_return idx s = with_lk (release 0 idx) (s\<lparr>curproc := None\<rparr>)"

text \<open>
  One pass of the endless loop over the four levels. What the chosen process does until it
  switches back is the parameter \<open>run\<close>. The result says whether a process was found.
\<close>

fun sched_levels :: "(nat \<Rightarrow> 'a kst_scheme \<Rightarrow> 'a kst_scheme res) \<Rightarrow> nat list \<Rightarrow> bool \<Rightarrow> 'a kst_scheme \<Rightarrow> (bool \<times> 'a kst_scheme) res" where
  "sched_levels run [] found s = Inr (found, s)"
| "sched_levels run (level # ls) found s =
     (case sched_pick level (last_idx s ! level) (procs s) of
        None \<Rightarrow> sched_levels run ls found s
      | Some idx \<Rightarrow>
          andthen (dispatch level idx s) (\<lambda>s1.
          andthen (run idx s1) (\<lambda>s2.
          andthen (dispatch_return idx s2) (\<lambda>s3. sched_levels run ls True s3))))"

definition scheduler_round :: "(nat \<Rightarrow> 'a kst_scheme \<Rightarrow> 'a kst_scheme res) \<Rightarrow> 'a kst_scheme \<Rightarrow> (bool \<times> 'a kst_scheme) res" where
  "scheduler_round run s = sched_levels run [0, 1, 2, 3] False s"

text \<open>The endless loop, cut off after \<open>n\<close> passes.\<close>

fun sched_rounds :: "(nat \<Rightarrow> 'a kst_scheme \<Rightarrow> 'a kst_scheme res) \<Rightarrow> nat \<Rightarrow> 'a kst_scheme \<Rightarrow> 'a kst_scheme res" where
  "sched_rounds run 0 s = Inr s"
| "sched_rounds run (Suc n) s =
     andthen (sched_rounds run n s) (\<lambda>s1. andthen (scheduler_round run s1) (\<lambda>(found, s2). Inr s2))"

section \<open>Timer interrupts\<close>

definition get_quantum :: "int \<Rightarrow> int" where
  "get_quantum level = (if 0 \<le> level \<and> level < 4 then [2, 4, 8, 16] ! nat level else 16)"

text \<open>The accounting of one timer interrupt from user space; the flag says that the process yields.\<close>

definition mlfq_tick :: "proc \<Rightarrow> proc \<times> bool" where
  "mlfq_tick p =
     (let p1 = p\<lparr>p_ticks_at_level := p_ticks_at_level p + 1,
                 p_ticks_per_level := (p_ticks_per_level p)[nat (p_mlfq_level p) := p_ticks_per_level p ! nat (p_mlfq_level p) + 1]\<rparr>;
          quantum = get_quantum (p_mlfq_level p1)
      in if p_ticks_at_level p1 \<ge> quantum
         then let delta_s = p_syscount p1 - p_syscalls_at_level p1; delta_t = p_ticks_at_level p1;
                  p2 = (if delta_s < delta_t \<and> p_mlfq_level p1 < 3 then p1\<lparr>p_mlfq_level := p_mlfq_level p1 + 1\<rparr> else p1)
              in (p2\<lparr>p_ticks_at_level := 0\<rparr>, True)
         else (p1, False))"

definition boost :: "proc \<Rightarrow> proc" where
  "boost q = (if p_state q = RUNNABLE \<or> p_state q = RUNNING then q\<lparr>p_mlfq_level := 0, p_ticks_at_level := 0\<rparr> else q)"

definition clockintr :: "'a kst_scheme \<Rightarrow> 'a kst_scheme" where
  "clockintr s =
     (let s1 = s\<lparr>ticks := ticks s + 1\<rparr>;
          gboost = (ticks s1 > 0 \<and> ticks s1 mod 128 = 0);
          s2 = wakeup (Some TicksChan) s1
      in if gboost then each_proc (\<lambda>i q. boost q) s2 else s2)"

section \<open>Round robin\<close>

lemma ring_next: "(prev + 1 + d) mod NPROC = (((prev + 1) mod NPROC) + d) mod NPROC"
  by (simp add: mod_simps)

text \<open>The scan finds the first runnable process in cyclic order, and all of the table is scanned.\<close>

lemma sched_scan_find:
  assumes "start < NPROC" "d < NPROC" "k = NPROC - d"
  shows "sched_scan k level start ((start + d) mod NPROC) ps =
    map_option (\<lambda>e. (start + e) mod NPROC) (find (\<lambda>e. runnable_at level (ps ! ((start + e) mod NPROC))) [d..<NPROC])"
  using assms(2,3)
proof (induction k arbitrary: d)
  case 0
  then show ?case by simp
next
  case (Suc k)
  have nx: "((start + d) mod NPROC + 1) mod NPROC = (start + Suc d) mod NPROC" by (simp add: mod_simps)
  have up: "[d..<NPROC] = d # [Suc d..<NPROC]" using Suc.prems(1) by (rule upt_conv_Cons)
  show ?case
  proof (cases "Suc d < NPROC")
    case True
    have "(start + Suc d) mod NPROC \<noteq> start"
      using True assms(1) by (auto simp: mod_if NPROC_def split: if_splits)
    moreover have "k = NPROC - Suc d" using Suc.prems by simp
    ultimately show ?thesis
      using Suc.IH[OF True] by (simp only: sched_scan.simps up find.simps nx Let_def) simp
  next
    case False
    then have "d = 63" using Suc.prems by (simp add: NPROC_def)
    then have "(start + Suc d) mod NPROC = start" "[Suc d..<NPROC] = []" using assms(1) by (simp_all add: NPROC_def)
    then show ?thesis by (simp only: sched_scan.simps up find.simps nx Let_def) simp
  qed
qed

lemma sched_pick_find:
  "sched_pick level prev ps =
     map_option (\<lambda>e. (prev + 1 + e) mod NPROC) (find (\<lambda>e. runnable_at (int level) (ps ! ((prev + 1 + e) mod NPROC))) [0..<NPROC])"
proof -
  let ?st = "(prev + 1) mod NPROC"
  have "?st < NPROC" by (simp add: NPROC_def)
  from sched_scan_find[OF this, of 0 NPROC "int level" ps] show ?thesis
    by (simp add: sched_pick_def Let_def ring_next[symmetric] NPROC_def mod_simps)
qed

lemma sched_pick_Some:
  assumes "sched_pick level prev ps = Some i"
  obtains e where "e < NPROC" "i = (prev + 1 + e) mod NPROC" "runnable_at (int level) (ps ! i)" "i < NPROC"
    "\<And>f. f < e \<Longrightarrow> \<not> runnable_at (int level) (ps ! ((prev + 1 + f) mod NPROC))"
proof -
  obtain e where "find (\<lambda>e. runnable_at (int level) (ps ! ((prev + 1 + e) mod NPROC))) [0..<NPROC] = Some e"
      "i = (prev + 1 + e) mod NPROC"
    using assms unfolding sched_pick_find by auto
  then show ?thesis
    by (intro that[of e]) (auto simp: find_Some_iff NPROC_def)
qed

text \<open>How far process \<open>i\<close> is from its turn at a level whose last choice was \<open>prev\<close>.\<close>

definition turn :: "nat \<Rightarrow> nat \<Rightarrow> nat" where
  "turn prev i = (i + NPROC - (prev + 1) mod NPROC) mod NPROC"

lemma turn_less: "turn prev i < NPROC"
  by (simp add: turn_def NPROC_def)

lemma turn_ring: "i < NPROC \<Longrightarrow> (prev + 1 + turn prev i) mod NPROC = i"
  unfolding turn_def ring_next by (simp add: NPROC_def mod_simps)

lemma turn_unique:
  assumes "i < NPROC" "e < NPROC" "(prev + 1 + e) mod NPROC = i"
  shows "e = turn prev i"
proof -
  define a where "a = (prev + 1) mod NPROC"
  have a: "a < NPROC" "(a + e) mod NPROC = i" using assms(3) unfolding ring_next a_def by (simp_all add: NPROC_def)
  have "e = (i + NPROC - a) mod NPROC"
  proof (cases "a + e < NPROC")
    case True
    then show ?thesis using a assms(2) by auto
  next
    case False
    then have "i = a + e - NPROC" using a assms(2) by (auto simp: mod_if)
    then show ?thesis using False assms(2) by simp
  qed
  then show ?thesis by (simp add: turn_def a_def)
qed

lemma sched_pick_progress:
  assumes "i < NPROC" "runnable_at (int level) (ps ! i)"
  shows "\<exists>j. sched_pick level prev ps = Some j \<and> (j = i \<or> turn j i < turn prev i)"
proof (cases "sched_pick level prev ps")
  case None
  then have "\<forall>e < NPROC. \<not> runnable_at (int level) (ps ! ((prev + 1 + e) mod NPROC))"
    unfolding sched_pick_find by (auto simp: find_None_iff)
  then show ?thesis using turn_ring[OF assms(1), of prev] turn_less[of prev i] assms(2) by metis
next
  case (Some j)
  then obtain e where e: "e < NPROC" "j = (prev + 1 + e) mod NPROC" "j < NPROC"
      "\<And>f. f < e \<Longrightarrow> \<not> runnable_at (int level) (ps ! ((prev + 1 + f) mod NPROC))"
    by (rule sched_pick_Some) blast
  let ?d = "turn prev i"
  have "e \<le> ?d" using e(4)[of ?d] turn_ring[OF assms(1), of prev] assms(2) by (metis not_le)
  moreover have "j = i" if "e = ?d" using that e(2) turn_ring[OF assms(1), of prev] by simp
  moreover have "turn j i < ?d" if lt: "e < ?d"
  proof -
    obtain c where c: "?d = Suc (e + c)" using less_imp_Suc_add[OF lt] by blast
    have "(j + 1 + c) mod NPROC = (prev + 1 + e + 1 + c) mod NPROC"
      unfolding e(2) by (simp only: mod_add_left_eq add.assoc)
    also have "\<dots> = i" using turn_ring[OF assms(1), of prev] c by (simp add: add.assoc)
    finally have "c = turn j i"
      using turn_unique[OF assms(1), of c j] turn_less[of prev i] c by simp
    then show ?thesis using c by linarith
  qed
  ultimately show ?thesis using Some by (metis le_neq_implies_less)
qed

section \<open>No starvation\<close>

text \<open>
  What the scheduler needs of the table, the locks and its own indices: between two choices every
  process lock is free and no interrupt-off section is open.
\<close>

definition sched_ok :: "'a kst_scheme \<Rightarrow> bool" where
  "sched_ok s =
     (length (procs s) = NPROC \<and> length (last_idx s) = 4 \<and> NPROC \<le> length (locks (klk s)) \<and> cpus (klk s) \<noteq> [] \<and>
      (\<forall>i < NPROC. \<not> lk_locked (locks (klk s) ! i)) \<and> cpu_noff (cpus (klk s) ! 0) = 0)"

text \<open>While process \<open>p\<close> runs, or is between the scheduler and itself, its lock is held.\<close>

definition handed :: "nat \<Rightarrow> 'a kst_scheme \<Rightarrow> bool" where
  "handed p s =
     (length (procs s) = NPROC \<and> length (last_idx s) = 4 \<and> NPROC \<le> length (locks (klk s)) \<and> cpus (klk s) \<noteq> [] \<and>
      (\<forall>i < NPROC. lk_locked (locks (klk s) ! i) = (i = p)) \<and> lk_cpu (locks (klk s) ! p) = Some 0 \<and>
      cpu_noff (cpus (klk s) ! 0) = 1 \<and> \<not> cpu_sie (cpus (klk s) ! 0))"

lemma acquire_free:
  assumes "l < length (locks k)" "cpus k \<noteq> []" "\<not> lk_locked (locks k ! l)"
  shows "\<exists>k'. acquire 0 l k = Inr k' \<and> length (locks k') = length (locks k) \<and> cpus k' \<noteq> [] \<and>
    locks k' ! l = (locks k ! l)\<lparr>lk_locked := True, lk_cpu := Some 0\<rparr> \<and> (\<forall>j. j \<noteq> l \<longrightarrow> locks k' ! j = locks k ! j) \<and>
    cpu_noff (cpus k' ! 0) = cpu_noff (cpus k ! 0) + 1 \<and> \<not> cpu_sie (cpus k' ! 0)"
  using assms
  by (simp add: acquire_def acquire_enter_def push_off_def holding_def test_and_set_def acquire_record_def
      upd_cpu_def upd_lock_def Let_def)

lemma release_own:
  assumes "l < length (locks k)" "cpus k \<noteq> []" "lk_locked (locks k ! l)" "lk_cpu (locks k ! l) = Some 0"
    and "cpu_noff (cpus k ! 0) > 0" "\<not> cpu_sie (cpus k ! 0)"
  shows "\<exists>k'. release 0 l k = Inr k' \<and> length (locks k') = length (locks k) \<and> cpus k' \<noteq> [] \<and>
    locks k' ! l = (locks k ! l)\<lparr>lk_locked := False, lk_cpu := None\<rparr> \<and> (\<forall>j. j \<noteq> l \<longrightarrow> locks k' ! j = locks k ! j) \<and>
    cpu_noff (cpus k' ! 0) = cpu_noff (cpus k ! 0) - 1"
  using assms
  by (simp add: release_def release_clear_def release_store_def pop_off_def holding_def upd_cpu_def upd_lock_def Let_def)

lemma upd_proc_kst [simp]:
  "klk (upd_proc i f s) = klk s" "last_idx (upd_proc i f s) = last_idx s" "ticks (upd_proc i f s) = ticks s"
  by (simp_all add: upd_proc_def)

lemma dispatch_ok:
  assumes "sched_ok s" "idx < NPROC"
  shows "\<exists>s'. dispatch level idx s = Inr s' \<and> handed idx s' \<and> last_idx s' = (last_idx s)[level := idx] \<and> curproc s' = Some idx \<and>
    procs s' = (procs s)[idx := (procs s ! idx)\<lparr>p_state := RUNNING, p_times_scheduled := p_times_scheduled (procs s ! idx) + 1,
      p_syscalls_at_level := p_syscount (procs s ! idx)\<rparr>]"
proof -
  obtain k where k: "acquire 0 idx (klk s) = Inr k" "length (locks k) = length (locks (klk s))" "cpus k \<noteq> []"
      "locks k ! idx = (locks (klk s) ! idx)\<lparr>lk_locked := True, lk_cpu := Some 0\<rparr>"
      "\<forall>j. j \<noteq> idx \<longrightarrow> locks k ! j = locks (klk s) ! j" "cpu_noff (cpus k ! 0) = 1" "\<not> cpu_sie (cpus k ! 0)"
    using acquire_free[of idx "klk s"] assms by (auto simp: sched_ok_def)
  then show ?thesis
    using assms by (auto simp: dispatch_def with_lk_def handed_def sched_ok_def upd_proc_def)
qed

lemma dispatch_return_ok:
  assumes "handed p s" "p < NPROC"
  shows "\<exists>s'. dispatch_return p s = Inr s' \<and> sched_ok s' \<and> last_idx s' = last_idx s \<and> procs s' = procs s \<and> curproc s' = None"
proof -
  obtain k where k: "release 0 p (klk s) = Inr k" "length (locks k) = length (locks (klk s))" "cpus k \<noteq> []"
      "locks k ! p = (locks (klk s) ! p)\<lparr>lk_locked := False, lk_cpu := None\<rparr>"
      "\<forall>j. j \<noteq> p \<longrightarrow> locks k ! j = locks (klk s) ! j" "cpu_noff (cpus k ! 0) = 0"
    using release_own[of p "klk s"] assms by (auto simp: handed_def)
  have "\<not> lk_locked (locks k ! i)" if "i < NPROC" for i
    using that k(4,5) assms by (cases "i = p") (simp_all add: handed_def)
  then show ?thesis
    using assms k by (auto simp: dispatch_return_def with_lk_def handed_def sched_ok_def)
qed

text \<open>
  What the scheduler relies on of the code it switches to: a process that is entered with its lock
  held comes back, through \<^const>\<open>sched\<close>, with its lock held and nothing else.
\<close>

locale sched_client =
  fixes run :: "nat \<Rightarrow> 'a kst_scheme \<Rightarrow> 'a kst_scheme res"
  assumes run_handed: "p < NPROC \<Longrightarrow> handed p s \<Longrightarrow> \<exists>s'. run p s = Inr s' \<and> handed p s'"
begin

lemma level_step:
  assumes "sched_ok s" "sched_pick level prev (procs s) = Some idx"
  shows "\<exists>s1 s2 s3. dispatch level idx s = Inr s1 \<and> run idx s1 = Inr s2 \<and> dispatch_return idx s2 = Inr s3 \<and> sched_ok s3 \<and>
    procs s1 = (procs s)[idx := (procs s ! idx)\<lparr>p_state := RUNNING, p_times_scheduled := p_times_scheduled (procs s ! idx) + 1,
      p_syscalls_at_level := p_syscount (procs s ! idx)\<rparr>] \<and> last_idx s1 = (last_idx s)[level := idx] \<and>
    procs s3 = procs s2 \<and> last_idx s3 = last_idx s2 \<and> idx < NPROC"
proof -
  have idx: "idx < NPROC" using assms(2) by (rule sched_pick_Some)
  obtain s1 where s1: "dispatch level idx s = Inr s1" "handed idx s1" "last_idx s1 = (last_idx s)[level := idx]"
      "procs s1 = (procs s)[idx := (procs s ! idx)\<lparr>p_state := RUNNING, p_times_scheduled := p_times_scheduled (procs s ! idx) + 1,
        p_syscalls_at_level := p_syscount (procs s ! idx)\<rparr>]"
    using dispatch_ok[OF assms(1) idx] by blast
  obtain s2 where s2: "run idx s1 = Inr s2" "handed idx s2" using run_handed[OF idx s1(2)] by blast
  obtain s3 where "dispatch_return idx s2 = Inr s3" "sched_ok s3" "last_idx s3 = last_idx s2" "procs s3 = procs s2"
    using dispatch_return_ok[OF s2(2) idx] by blast
  with s1 s2 idx show ?thesis by blast
qed

text \<open>A pass of the scheduler over its levels never panics.\<close>

lemma levels_ok: "sched_ok s \<Longrightarrow> \<exists>f' s'. sched_levels run ls f s = Inr (f', s') \<and> sched_ok s'"
proof (induction ls arbitrary: f s)
  case (Cons level ls)
  then show ?case
  proof (cases "sched_pick level (last_idx s ! level) (procs s)")
    case (Some idx)
    then show ?thesis using level_step[OF Cons.prems Some] Cons.IH by auto
  qed simp
qed simp

lemma round_ok: "sched_ok s \<Longrightarrow> \<exists>f s'. scheduler_round run s = Inr (f, s') \<and> sched_ok s'"
  unfolding scheduler_round_def by (rule levels_ok)

lemma rounds_ok: "sched_ok s \<Longrightarrow> \<exists>s'. sched_rounds run n s = Inr s' \<and> sched_ok s'"
proof (induction n)
  case (Suc n)
  then obtain s1 where "sched_rounds run n s = Inr s1" "sched_ok s1" by blast
  with round_ok[of s1] show ?case by auto
qed simp

end

text \<open>
  A client that moreover leaves process \<open>i\<close> runnable at level \<open>l\<close> while other processes run, and
  never lowers the count of how often \<open>i\<close> was scheduled.
\<close>

locale sched_fair = sched_client run for run :: "nat \<Rightarrow> 'a kst_scheme \<Rightarrow> 'a kst_scheme res" +
  fixes i :: nat and l :: nat
  assumes i_proc: "i < NPROC" and l_level: "l < 4"
    and run_mono: "run j s = Inr s' \<Longrightarrow> p_times_scheduled (procs s ! i) \<le> p_times_scheduled (procs s' ! i)"
    and run_other: "j \<noteq> i \<Longrightarrow> run j s = Inr s' \<Longrightarrow> runnable_at (int l) (procs s ! i) \<Longrightarrow>
          runnable_at (int l) (procs s' ! i) \<and> last_idx s' = last_idx s"
begin

abbreviation scheduled :: "'a kst_scheme \<Rightarrow> int" where
  "scheduled s \<equiv> p_times_scheduled (procs s ! i)"

lemma levels_mono:
  "sched_ok s \<Longrightarrow> sched_levels run ls f s = Inr (f', s') \<Longrightarrow> scheduled s \<le> scheduled s'"
proof (induction ls arbitrary: f s)
  case (Cons level ls)
  show ?case
  proof (cases "sched_pick level (last_idx s ! level) (procs s)")
    case None
    then show ?thesis using Cons by simp
  next
    case (Some idx)
    obtain s1 s2 s3 where st: "dispatch level idx s = Inr s1" "run idx s1 = Inr s2" "dispatch_return idx s2 = Inr s3" "sched_ok s3"
        "procs s1 = (procs s)[idx := (procs s ! idx)\<lparr>p_state := RUNNING, p_times_scheduled := p_times_scheduled (procs s ! idx) + 1,
          p_syscalls_at_level := p_syscount (procs s ! idx)\<rparr>]" "procs s3 = procs s2" "idx < NPROC"
      using level_step[OF Cons.prems(1) Some] by blast
    have "scheduled s \<le> scheduled s1"
      using st(5,7) Cons.prems(1) by (cases "idx = i") (simp_all add: sched_ok_def)
    also have "\<dots> \<le> scheduled s3" using run_mono[OF st(2)] st(6) by simp
    also have "\<dots> \<le> scheduled s'" using Cons.IH[OF st(4)] Cons.prems(2) st(1-3) Some by simp
    finally show ?thesis .
  qed
qed simp

lemma levels_progress:
  assumes "sched_ok s" "distinct ls" "set ls \<subseteq> {..<4}" "runnable_at (int l) (procs s ! i)" "sched_levels run ls f s = Inr (f', s')"
  shows "scheduled s < scheduled s' \<or>
    runnable_at (int l) (procs s' ! i) \<and>
      (if l \<in> set ls then turn (last_idx s' ! l) i < turn (last_idx s ! l) i else last_idx s' ! l = last_idx s ! l)"
  using assms
proof (induction ls arbitrary: f s)
  case (Cons level ls)
  have other: "level \<noteq> l \<Longrightarrow> sched_pick level (last_idx s ! level) (procs s) \<noteq> Some i"
    using Cons.prems(4) by (auto elim!: sched_pick_Some simp: runnable_at_def)
  show ?case
  proof (cases "sched_pick level (last_idx s ! level) (procs s)")
    case None
    then have "level \<noteq> l" using sched_pick_progress[OF i_proc Cons.prems(4), of "last_idx s ! l"] by auto
    then show ?thesis using Cons None by simp
  next
    case (Some idx)
    obtain s1 s2 s3 where st: "dispatch level idx s = Inr s1" "run idx s1 = Inr s2" "dispatch_return idx s2 = Inr s3" "sched_ok s3"
        "procs s1 = (procs s)[idx := (procs s ! idx)\<lparr>p_state := RUNNING, p_times_scheduled := p_times_scheduled (procs s ! idx) + 1,
          p_syscalls_at_level := p_syscount (procs s ! idx)\<rparr>]" "last_idx s1 = (last_idx s)[level := idx]"
        "procs s3 = procs s2" "last_idx s3 = last_idx s2" "idx < NPROC"
      using level_step[OF Cons.prems(1) Some] by blast
    have rest: "sched_levels run ls True s3 = Inr (f', s')" using Cons.prems(5) Some st(1-3) by simp
    have len: "length (procs s) = NPROC" "length (last_idx s) = 4" using Cons.prems(1) by (simp_all add: sched_ok_def)
    show ?thesis
    proof (cases "idx = i")
      case True
      have "scheduled s < scheduled s1" using st(5,9) True len by simp
      also have "\<dots> \<le> scheduled s3" using run_mono[OF st(2)] st(7) by simp
      also have "\<dots> \<le> scheduled s'" by (rule levels_mono[OF st(4) rest])
      finally show ?thesis by simp
    next
      case False
      have keep: "runnable_at (int l) (procs s3 ! i)" "last_idx s3 = (last_idx s)[level := idx]" "scheduled s \<le> scheduled s3"
        using run_other[OF False st(2)] run_mono[OF st(2)] st(5-8) Cons.prems(4) False by simp_all
      have IH: "scheduled s3 < scheduled s' \<or> runnable_at (int l) (procs s' ! i) \<and>
          (if l \<in> set ls then turn (last_idx s' ! l) i < turn (last_idx s3 ! l) i else last_idx s' ! l = last_idx s3 ! l)"
        using Cons.prems(2,3) by (intro Cons.IH[OF st(4) _ _ keep(1) rest]) auto
      have "level = l \<Longrightarrow> turn idx i < turn (last_idx s ! l) i"
        using sched_pick_progress[OF i_proc Cons.prems(4), of "last_idx s ! l"] Some False by auto
      then show ?thesis
        using IH keep Cons.prems(2) len l_level by (cases "level = l") (auto split: if_splits)
    qed
  qed
qed simp

lemma rounds_progress:
  assumes "sched_ok (st 0)" "runnable_at (int l) (procs (st 0) ! i)"
    and "\<And>k. k < n \<Longrightarrow> \<exists>f. scheduler_round run (st k) = Inr (f, st (Suc k))"
  shows "(\<exists>k \<le> n. scheduled (st 0) < scheduled (st k)) \<or>
    sched_ok (st n) \<and> runnable_at (int l) (procs (st n) ! i) \<and> turn (last_idx (st n) ! l) i + n \<le> turn (last_idx (st 0) ! l) i \<and>
    scheduled (st 0) \<le> scheduled (st n)"
  using assms(3)
proof (induction n)
  case 0
  then show ?case using assms(1,2) by simp
next
  case (Suc n)
  from Suc.IH Suc.prems consider (won) "\<exists>k \<le> n. scheduled (st 0) < scheduled (st k)"
    | (wait) "sched_ok (st n)" "runnable_at (int l) (procs (st n) ! i)" "turn (last_idx (st n) ! l) i + n \<le> turn (last_idx (st 0) ! l) i"
        "scheduled (st 0) \<le> scheduled (st n)"
    using less_SucI by blast
  then show ?case
  proof cases
    case won
    then show ?thesis using le_SucI by blast
  next
    case wait
    obtain f where f: "sched_levels run [0, 1, 2, 3] False (st n) = Inr (f, st (Suc n))"
      using Suc.prems[of n] by (auto simp: scheduler_round_def)
    have ok: "sched_ok (st (Suc n))" using levels_ok[OF wait(1), of "[0, 1, 2, 3]" False] f by simp
    have "l \<in> set [0, 1, 2, 3]" using l_level by auto
    then have pr: "scheduled (st n) < scheduled (st (Suc n)) \<or>
        runnable_at (int l) (procs (st (Suc n)) ! i) \<and> turn (last_idx (st (Suc n)) ! l) i < turn (last_idx (st n) ! l) i"
      using levels_progress[OF wait(1) _ _ wait(2) f] by auto
    show ?thesis
    proof (cases "scheduled (st n) < scheduled (st (Suc n))")
      case True
      then have "scheduled (st 0) < scheduled (st (Suc n))" using wait(4) by simp
      then show ?thesis by blast
    next
      case False
      have "scheduled (st 0) \<le> scheduled (st (Suc n))" using wait(4) levels_mono[OF wait(1) f] by simp
      moreover have "turn (last_idx (st (Suc n)) ! l) i + Suc n \<le> turn (last_idx (st 0) ! l) i"
        using pr False wait(3) by simp
      ultimately show ?thesis using ok pr False by blast
    qed
  qed
qed

lemma no_starvation:
  assumes "sched_ok s" "runnable_at (int l) (procs s ! i)"
  shows "\<exists>n s'. n \<le> NPROC \<and> sched_rounds run n s = Inr s' \<and> scheduled s < scheduled s'"
proof -
  define st where "st n = projr (sched_rounds run n s)" for n
  have st: "sched_rounds run n s = Inr (st n)" "sched_ok (st n)" for n
    using rounds_ok[OF assms(1), of n] by (auto simp: st_def)
  have st0: "st 0 = s" by (simp add: st_def)
  have step: "\<exists>f. scheduler_round run (st n) = Inr (f, st (Suc n))" for n
    using st(1)[of "Suc n"] st(1)[of n] by (auto simp: res_simps)
  have "\<exists>k \<le> NPROC. scheduled (st 0) < scheduled (st k)"
  proof (rule ccontr)
    assume no: "\<not> (\<exists>k \<le> NPROC. scheduled (st 0) < scheduled (st k))"
    from rounds_progress[of st NPROC] assms st0 step
    have "(\<exists>k \<le> NPROC. scheduled (st 0) < scheduled (st k)) \<or>
        turn (last_idx (st NPROC) ! l) i + NPROC \<le> turn (last_idx (st 0) ! l) i" by blast
    with no have "turn (last_idx (st NPROC) ! l) i + NPROC \<le> turn (last_idx (st 0) ! l) i" by blast
    with turn_less[of "last_idx (st 0) ! l" i] show False by simp
  qed
  then show ?thesis using st(1) st0 by blast
qed

end

text \<open>
  A process that does nothing but yield: it is switched to inside \<^const>\<open>yield\<close>, finishes that
  and calls it again.
\<close>

definition run_yield :: "nat \<Rightarrow> 'a kst_scheme \<Rightarrow> 'a kst_scheme res" where
  "run_yield p s =
     andthen (yield_return p True s) (\<lambda>s1. andthen (yield p s1) (\<lambda>(intena, s2). Inr s2))"

lemma yield_return_ok:
  assumes "handed p s" "p < NPROC"
  shows "\<exists>s'. yield_return p b s = Inr s' \<and> sched_ok s' \<and> procs s' = procs s \<and> last_idx s' = last_idx s"
proof -
  let ?k = "klk (sched_return b s)"
  have c: "p < length (locks ?k)" "cpus ?k \<noteq> []" "lk_locked (locks ?k ! p)" "lk_cpu (locks ?k ! p) = Some 0"
      "cpu_noff (cpus ?k ! 0) = 1" "\<not> cpu_sie (cpus ?k ! 0)" "locks ?k = locks (klk s)"
    using assms by (simp_all add: handed_def sched_return_def upd_cpu_def)
  then obtain k where k: "release 0 p ?k = Inr k" "length (locks k) = length (locks (klk s))" "cpus k \<noteq> []"
      "locks k ! p = (locks ?k ! p)\<lparr>lk_locked := False, lk_cpu := None\<rparr>"
      "\<forall>j. j \<noteq> p \<longrightarrow> locks k ! j = locks (klk s) ! j" "cpu_noff (cpus k ! 0) = 0"
    using release_own[of p ?k] by auto
  have "\<not> lk_locked (locks k ! i)" if "i < NPROC" for i
    using that k(4,5) assms by (cases "i = p") (simp_all add: handed_def)
  then show ?thesis
    using assms k by (auto simp: yield_return_def with_lk_def handed_def sched_ok_def sched_return_def)
qed

lemma yield_ok:
  assumes "sched_ok s" "p < NPROC"
  shows "\<exists>b s'. yield p s = Inr (b, s') \<and> handed p s' \<and> last_idx s' = last_idx s \<and>
    procs s' = (procs s)[p := (procs s ! p)\<lparr>p_state := RUNNABLE\<rparr>]"
proof -
  obtain k where k: "acquire 0 p (klk s) = Inr k" "length (locks k) = length (locks (klk s))" "cpus k \<noteq> []"
      "locks k ! p = (locks (klk s) ! p)\<lparr>lk_locked := True, lk_cpu := Some 0\<rparr>"
      "\<forall>j. j \<noteq> p \<longrightarrow> locks k ! j = locks (klk s) ! j" "cpu_noff (cpus k ! 0) = 1" "\<not> cpu_sie (cpus k ! 0)"
    using acquire_free[of p "klk s"] assms by (auto simp: sched_ok_def)
  then show ?thesis
    using assms by (auto simp: yield_def sched_def holding_def with_lk_def handed_def sched_ok_def upd_proc_def)
qed

lemma run_yield_ok:
  assumes "handed p s" "p < NPROC"
  shows "\<exists>s'. run_yield p s = Inr s' \<and> handed p s' \<and> last_idx s' = last_idx s \<and>
    procs s' = (procs s)[p := (procs s ! p)\<lparr>p_state := RUNNABLE\<rparr>]"
  using yield_return_ok[OF assms, of True] yield_ok[OF _ assms(2)] by (fastforce simp: run_yield_def)

interpretation ry: sched_client run_yield
  by unfold_locales (use run_yield_ok in blast)

lemma run_yield_effect:
  assumes "run_yield p s = Inr s'"
  shows "last_idx s' = last_idx s \<and> procs s' = (procs s)[p := (procs s ! p)\<lparr>p_state := RUNNABLE\<rparr>]"
  using assms
  by (auto simp: run_yield_def yield_return_def with_lk_def sched_return_def yield_def sched_def upd_proc_def
      res_simps split: if_splits)

interpretation ryf: sched_fair run_yield 5 2
proof
  fix j s s' assume r: "run_yield j s = Inr s'"
  have pr: "procs s' ! 5 = (if j = 5 \<and> 5 < length (procs s) then (procs s ! 5)\<lparr>p_state := RUNNABLE\<rparr> else procs s ! 5)"
    using run_yield_effect[OF r] by (cases "j = 5"; cases "5 < length (procs s)") (simp_all add: list_update_beyond)
  then show "p_times_scheduled (procs s ! 5) \<le> p_times_scheduled (procs s' ! 5)" by simp
  show "runnable_at (int 2) (procs s' ! 5) \<and> last_idx s' = last_idx s" if "j \<noteq> 5" "runnable_at (int 2) (procs s ! 5)"
    using pr run_yield_effect[OF r] that by simp
qed (simp_all add: NPROC_def)

section \<open>Accounting\<close>

definition mlfq_ok :: "proc \<Rightarrow> bool" where
  "mlfq_ok q = (0 \<le> p_mlfq_level q \<and> p_mlfq_level q \<le> 3 \<and> 0 \<le> p_ticks_at_level q \<and>
     p_ticks_at_level q < get_quantum (p_mlfq_level q) \<and> length (p_ticks_per_level q) = 4)"

lemma quantum_values [simp]: "get_quantum 0 = 2" "get_quantum 1 = 4" "get_quantum 2 = 8" "get_quantum 3 = 16"
  by (simp_all add: get_quantum_def)

lemma level_cases: "0 \<le> (n :: int) \<Longrightarrow> n \<le> 3 \<Longrightarrow> n = 0 \<or> n = 1 \<or> n = 2 \<or> n = 3"
  by auto

lemma mlfq_tick_ok: "mlfq_ok q \<Longrightarrow> mlfq_ok (fst (mlfq_tick q))"
  using level_cases[of "p_mlfq_level q"] by (auto simp: mlfq_ok_def mlfq_tick_def Let_def)

lemma boost_ok: "mlfq_ok q \<Longrightarrow> mlfq_ok (boost q)"
  by (simp add: boost_def mlfq_ok_def)

text \<open>A tick is charged to the level at which it was used.\<close>

lemma sum_list_update_add: "k < length xs \<Longrightarrow> sum_list (xs[k := xs ! k + (a :: int)]) = sum_list xs + a"
proof (induction xs arbitrary: k)
  case (Cons x xs)
  then show ?case by (cases k) simp_all
qed simp

lemma mlfq_tick_sum:
  "mlfq_ok q \<Longrightarrow> sum_list (p_ticks_per_level (fst (mlfq_tick q))) = sum_list (p_ticks_per_level q) + 1"
  by (auto simp: mlfq_ok_def mlfq_tick_def Let_def sum_list_update_add)

text \<open>Everything that changes the scheduling fields of the processes.\<close>

inductive mlfq_step :: "'a kst_scheme \<Rightarrow> 'a kst_scheme \<Rightarrow> bool" where
  ticked: "curproc s = Some p \<Longrightarrow> mlfq_step s (upd_proc p (\<lambda>q. fst (mlfq_tick q)) s)"
| clocked: "mlfq_step s (clockintr s)"
| dispatched: "dispatch level idx s = Inr s' \<Longrightarrow> mlfq_step s s'"
| returned: "dispatch_return idx s = Inr s' \<Longrightarrow> mlfq_step s s'"
| yielded: "yield p s = Inr (b, s') \<Longrightarrow> mlfq_step s s'"
| slept: "sleep p ch lk s = Inr (b, s') \<Longrightarrow> mlfq_step s s'"
| awoken: "mlfq_step s (wakeup ch s)"
| killing: "mlfq_step s (snd (kkill pid s))"
| called: "mlfq_step s (upd_proc p (\<lambda>q. q\<lparr>p_syscount := p_syscount q + 1\<rparr>) s)"
| created: "allocproc s = Inr (r, s') \<Longrightarrow> mlfq_step s s'"
| freed: "freeproc p s = Inr s' \<Longrightarrow> mlfq_step s s'"

definition all_mlfq :: "'a vmst_scheme \<Rightarrow> bool" where
  "all_mlfq s = (\<forall>i < length (procs s). mlfq_ok (procs s ! i))"

lemma all_mlfq_upd: "all_mlfq s \<Longrightarrow> (\<And>q. mlfq_ok q \<Longrightarrow> mlfq_ok (f q)) \<Longrightarrow> all_mlfq (upd_proc p f s)"
  by (cases "p < length (procs s)") (auto simp: all_mlfq_def upd_proc_def nth_list_update list_update_beyond)

lemma all_mlfq_each: "all_mlfq s \<Longrightarrow> (\<And>i q. mlfq_ok q \<Longrightarrow> mlfq_ok (f i q)) \<Longrightarrow> all_mlfq (each_proc f s)"
  by (auto simp: all_mlfq_def each_proc_def)

lemma all_mlfq_cong: "procs s' = procs s \<Longrightarrow> all_mlfq s' = all_mlfq s"
  by (simp add: all_mlfq_def)

lemma mlfq_ok_fields [simp]:
  "mlfq_ok (q\<lparr>p_state := a\<rparr>) = mlfq_ok q" "mlfq_ok (q\<lparr>p_chan := c\<rparr>) = mlfq_ok q" "mlfq_ok (q\<lparr>p_killed := d\<rparr>) = mlfq_ok q"
  "mlfq_ok (q\<lparr>p_times_scheduled := n\<rparr>) = mlfq_ok q" "mlfq_ok (q\<lparr>p_syscalls_at_level := n\<rparr>) = mlfq_ok q"
  "mlfq_ok (q\<lparr>p_syscount := n\<rparr>) = mlfq_ok q" "mlfq_ok (q\<lparr>p_trapframe := x\<rparr>) = mlfq_ok q"
  "mlfq_ok (q\<lparr>p_pagetable := x\<rparr>) = mlfq_ok q" "mlfq_ok (q\<lparr>p_context := y\<rparr>) = mlfq_ok q"
  by (simp_all add: mlfq_ok_def)

lemma all_mlfq_wakeup: "all_mlfq s \<Longrightarrow> all_mlfq (wakeup ch s)"
  unfolding wakeup_def by (rule all_mlfq_each) simp_all

lemma with_lk_procs: "with_lk f s = Inr s' \<Longrightarrow> procs s' = procs s"
  by (auto simp: with_lk_def res_simps)

lemma sched_same: "sched p s = Inr (b, s') \<Longrightarrow> s' = s"
  by (auto simp: sched_def split: if_splits)

lemma freeproc_mlfq:
  assumes "all_mlfq s" "freeproc p s = Inr s'"
  shows "all_mlfq s'"
proof -
  have "mlfq_ok (procs s' ! i)" if i: "i < length (procs s)" for i
    using freeproc_effect[OF assms(2)] assms(1) i
    by (cases "i = p") (auto simp: all_mlfq_def others_same_def mlfq_ok_def)
  then show ?thesis using freeproc_effect[OF assms(2)] by (simp add: all_mlfq_def others_same_def)
qed

lemma allocproc_mlfq:
  assumes "all_mlfq s" "allocproc s = Inr (r, s')"
  shows "all_mlfq s'"
proof (cases "first_idx (\<lambda>q. p_state q = UNUSED) (procs s)")
  case None
  then show ?thesis using assms by (simp add: allocproc_def)
next
  case (Some p)
  let ?g = "\<lambda>q. q\<lparr>p_pid := nextpid s, p_state := USED, p_syscount := 0, p_mlfq_level := 0,
       p_ticks_at_level := 0, p_ticks_per_level := [0, 0, 0, 0], p_times_scheduled := 0,
       p_syscalls_at_level := 0, p_page_faults := 0, p_pages_evicted := 0, p_pages_swapped_in := 0,
       p_pages_swapped_out := 0, p_resident_pages := 0\<rparr>"
  define s2 where "s2 = upd_proc p ?g (s\<lparr>nextpid := nextpid s + 1\<rparr>)"
  have m2: "all_mlfq s2" unfolding s2_def
    by (rule all_mlfq_upd) (use assms(1) in \<open>simp_all add: all_mlfq_def mlfq_ok_def\<close>)
  obtain tf s3 where k: "kalloc s2 = (tf, s3)" by fastforce
  define s4 where "s4 = upd_proc p (\<lambda>q. q\<lparr>p_trapframe := tf\<rparr>) s3"
  have "all_mlfq s3" using m2 all_mlfq_cong[OF procs_vm_only[OF vm_only_more[OF kalloc_more'[OF k]]]] by simp
  then have m4: "all_mlfq s4" unfolding s4_def by (rule all_mlfq_upd) simp
  have e: "(if tf = 0 then andthen (freeproc p s4) (\<lambda>s5. Inr (None, s5))
      else andthen (proc_pagetable p s4) (\<lambda>(pagetable, s5).
        let s6 = upd_proc p (\<lambda>q. q\<lparr>p_pagetable := pagetable\<rparr>) s5 in
        if pagetable = 0 then andthen (freeproc p s6) (\<lambda>s7. Inr (None, s7))
        else Inr (Some p, upd_proc p (\<lambda>q. q\<lparr>p_context := \<lparr>c_ra = forkret_pc s6, c_sp = p_kstack q + PGSIZE,
                                                            c_s = replicate 12 0\<rparr>\<rparr>) s6))) = Inr (r, s')"
    using assms(2)[unfolded allocproc_def allocpid_def Let_def] Some k
    by (simp add: s2_def s4_def Let_def split: if_splits)
  show ?thesis
  proof (cases "tf = 0")
    case True
    then show ?thesis using e freeproc_mlfq[OF m4] by (auto simp: res_simps)
  next
    case False
    then obtain pt s5 where pp: "proc_pagetable p s4 = Inr (pt, s5)" using e by (auto simp: res_simps)
    define s6 where "s6 = upd_proc p (\<lambda>q. q\<lparr>p_pagetable := pt\<rparr>) s5"
    have "all_mlfq s5" using m4 all_mlfq_cong[OF procs_vm_only[OF proc_pagetable_only[OF pp]]] by simp
    then have m6: "all_mlfq s6" unfolding s6_def by (rule all_mlfq_upd) simp
    have "all_mlfq (upd_proc p (\<lambda>q. q\<lparr>p_context := \<lparr>c_ra = forkret_pc s6, c_sp = p_kstack q + PGSIZE, c_s = replicate 12 0\<rparr>\<rparr>) s6)"
      using m6 by (rule all_mlfq_upd) simp
    then show ?thesis
      using e pp False freeproc_mlfq[OF m6] by (cases "pt = 0") (auto simp: s6_def res_simps)
  qed
qed

lemma mlfq_step_ok: "mlfq_step s s' \<Longrightarrow> all_mlfq s \<Longrightarrow> all_mlfq s'"
proof (induction rule: mlfq_step.induct)
  case (ticked s p)
  then show ?case by (intro all_mlfq_upd) (auto simp: mlfq_tick_ok)
next
  case (clocked s)
  have "all_mlfq (wakeup (Some TicksChan) (s\<lparr>ticks := ticks s + 1\<rparr>))"
    using clocked by (intro all_mlfq_wakeup) (simp add: all_mlfq_def)
  then show ?case by (auto simp: clockintr_def Let_def boost_ok intro: all_mlfq_each)
next
  case (dispatched level idx s s')
  obtain s1 where s1: "with_lk (acquire 0 idx) s = Inr s1"
      "s' = (upd_proc idx (\<lambda>q. q\<lparr>p_state := RUNNING, p_times_scheduled := p_times_scheduled q + 1, p_syscalls_at_level := p_syscount q\<rparr>) s1)
        \<lparr>last_idx := (last_idx s1)[level := idx], curproc := Some idx\<rparr>"
    using dispatched(1) by (auto simp: dispatch_def res_simps)
  have "all_mlfq s1" using dispatched(2) all_mlfq_cong[OF with_lk_procs[OF s1(1)]] by simp
  then have "all_mlfq (upd_proc idx (\<lambda>q. q\<lparr>p_state := RUNNING, p_times_scheduled := p_times_scheduled q + 1, p_syscalls_at_level := p_syscount q\<rparr>) s1)"
    by (rule all_mlfq_upd) simp
  then show ?case unfolding s1(2) by (simp add: all_mlfq_def)
next
  case (returned idx s s')
  then show ?case using all_mlfq_cong with_lk_procs by (fastforce simp: dispatch_return_def)
next
  case (yielded p s b s')
  obtain s1 where s1: "with_lk (acquire 0 p) s = Inr s1" "s' = upd_proc p (\<lambda>q. q\<lparr>p_state := RUNNABLE\<rparr>) s1"
    using yielded(1) by (auto simp: yield_def res_simps dest: sched_same)
  have "all_mlfq s1" using yielded(2) all_mlfq_cong[OF with_lk_procs[OF s1(1)]] by simp
  then show ?case unfolding s1(2) by (rule all_mlfq_upd) simp
next
  case (slept p ch lk s b s')
  obtain s1 s2 where s1: "with_lk (acquire 0 p) s = Inr s1" "with_lk (release 0 lk) s1 = Inr s2"
      "s' = upd_proc p (\<lambda>q. q\<lparr>p_chan := Some ch, p_state := SLEEPING\<rparr>) s2"
    using slept(1) by (auto simp: sleep_def res_simps dest: sched_same)
  have "all_mlfq s2"
    using slept(2) all_mlfq_cong[OF with_lk_procs[OF s1(1)]] all_mlfq_cong[OF with_lk_procs[OF s1(2)]] by simp
  then show ?case unfolding s1(3) by (rule all_mlfq_upd) simp
next
  case (killing s pid)
  then show ?case by (auto simp: kkill_def split: option.split intro!: all_mlfq_upd)
qed (auto intro: all_mlfq_wakeup all_mlfq_upd allocproc_mlfq freeproc_mlfq)

section \<open>Properties\<close>

definition sched_boot :: kst where
  "sched_boot = vmst.extend (boot_vm four_pages)
     \<lparr>klk = lkst (lk_boot 1 70), last_idx = [0, 0, 0, 0], ticks = 0\<rparr>\<lparr>procs := (replicate 64 free_proc)
        [5 := free_proc\<lparr>p_state := RUNNABLE, p_pid := 3, p_mlfq_level := 2\<rparr>,
         9 := free_proc\<lparr>p_state := RUNNABLE, p_pid := 4, p_mlfq_level := 2\<rparr>]\<rparr>"

lemma sched_boot_ok: "sched_ok sched_boot" "procs sched_boot ! 5 = free_proc\<lparr>p_state := RUNNABLE, p_pid := 3, p_mlfq_level := 2\<rparr>"
  by (simp_all add: sched_ok_def sched_boot_def lk_boot_def vmst.defs NPROC_def)



text \<open>
  C16. The scheduler's choice at a level is the reference one: the first process in cyclic order after
  the last choice that is runnable at that level, and none only when no process is.
\<close>

theorem sched_pick_reference:
  "sched_pick level prev ps =
     map_option (\<lambda>e. (prev + 1 + e) mod NPROC)
       (find (\<lambda>e. runnable_at (int level) (ps ! ((prev + 1 + e) mod NPROC))) [0..<NPROC])"
  by (rule sched_pick_find)

text \<open>
  C17. Levels and slices stay in range: starting from processes whose level is between 0 and 3 and
  whose ticks at the level are fewer than the level's quantum, this is so after any sequence of timer
  interrupts, clock interrupts with their boosts, dispatches, yields, sleeps, wake-ups, kills, system
  calls, and allocations and frees of processes, so that \<^verbatim>\<open>ticks_per_level\<close> is never indexed
  out of its bounds.
\<close>

theorem mlfq_levels_in_range:
  assumes "mlfq_step\<^sup>*\<^sup>* s s'" "all_mlfq s"
  shows "all_mlfq s'"
  using assms by (induction rule: rtranclp_induct) (auto intro: mlfq_step_ok)

theorem mlfq_levels_in_range_witness: "all_mlfq (clockintr (clockintr sched_boot))"
proof -
  have "all_mlfq sched_boot"
    by (auto simp: all_mlfq_def sched_boot_def vmst.defs mlfq_ok_def free_proc_def nth_list_update get_quantum_def)
  moreover have "mlfq_step\<^sup>*\<^sup>* sched_boot (clockintr (clockintr sched_boot))"
    by (meson clocked r_into_rtranclp rtranclp_trans)
  ultimately show ?thesis using mlfq_levels_in_range by blast
qed

text \<open>
  C18. What a timer interrupt does: before the quantum is used up it only counts; at the end of the
  quantum the process yields with its count reset, and it is demoted by one level exactly when it made
  fewer system calls since it was scheduled than the quantum has ticks and is above the lowest level.
\<close>

theorem mlfq_tick_demotes:
  assumes "mlfq_ok q"
  shows "let (q', yields) = mlfq_tick q; quantum = get_quantum (p_mlfq_level q) in
    yields = (p_ticks_at_level q + 1 = quantum) \<and>
    p_ticks_at_level q' = (if yields then 0 else p_ticks_at_level q + 1) \<and>
    p_mlfq_level q' = p_mlfq_level q +
      (if yields \<and> p_syscount q - p_syscalls_at_level q < quantum \<and> p_mlfq_level q < 3 then 1 else 0) \<and>
    sum_list (p_ticks_per_level q') = sum_list (p_ticks_per_level q) + 1"
proof -
  have s: "sum_list (p_ticks_per_level (fst (mlfq_tick q))) = sum_list (p_ticks_per_level q) + 1"
    by (rule mlfq_tick_sum[OF assms])
  have lt: "p_ticks_at_level q < get_quantum (p_mlfq_level q)" using assms by (simp add: mlfq_ok_def)
  show ?thesis
    using s lt by (auto simp: mlfq_tick_def Let_def split: prod.split if_splits)
qed

theorem mlfq_tick_demotes_witness: "p_mlfq_level (fst (mlfq_tick (free_proc\<lparr>p_ticks_at_level := 1\<rparr>))) = 1"
  using mlfq_tick_demotes[of "free_proc\<lparr>p_ticks_at_level := 1\<rparr>"]
  by (simp add: mlfq_ok_def free_proc_def mlfq_tick_def)

end
