(* ===== verification/Xv6_Ring.thy ===== *)
theory Xv6_Ring
  imports Xv6_Frametable
begin

text \<open>
  Circular buffers with free-running 32-bit indices, the way pipes (\<^verbatim>\<open>nread\<close>,
  \<^verbatim>\<open>nwrite\<close>) and the console (\<^verbatim>\<open>r\<close>, \<^verbatim>\<open>w\<close>, \<^verbatim>\<open>e\<close>) use them: entry
  \<open>i\<close> is at index \<open>i\<close> modulo the size of the buffer, and the indices wrap around at \<open>2 ^ 32\<close>. This
  is sound because the size divides \<open>2 ^ 32\<close>.
\<close>

definition ring_slice :: "nat \<Rightarrow> u8 list \<Rightarrow> u32 \<Rightarrow> nat \<Rightarrow> u8 list" where
  "ring_slice N buf r n = map (\<lambda>i. buf ! ((unat r + i) mod N)) [0..<n]"

lemma length_ring_slice [simp]: "length (ring_slice N buf r n) = n"
  by (simp add: ring_slice_def)

lemma ring_slice_0 [simp]: "ring_slice N buf r 0 = []"
  by (simp add: ring_slice_def)

lemma u32_diff_Suc: "unat (b - a :: u32) < 2 ^ 32 - 1 \<Longrightarrow> unat (b + 1 - a) = Suc (unat (b - a))"
proof -
  assume h: "unat (b - a) < 2 ^ 32 - 1"
  have "b + 1 - a = (b - a) + 1" by simp
  also have "unat \<dots> = Suc (unat (b - a))" using h by (subst unat_word_ariths) simp
  finally show ?thesis .
qed

lemma u32_diff_pred: "b \<noteq> a \<Longrightarrow> Suc (unat (b - (a + 1) :: u32)) = unat (b - a)"
proof -
  assume "b \<noteq> a"
  then have "b - a \<noteq> 0" by simp
  then have "unat (b - a) \<ge> 1" by (simp add: Suc_leI unat_gt_0)
  then have "unat (b - a - 1) = unat (b - a) - 1" by (simp add: unat_sub word_le_nat_alt)
  then show ?thesis using \<open>unat (b - a) \<ge> 1\<close> unfolding diff_diff_eq[symmetric] by simp
qed

locale ring =
  fixes N :: nat
  assumes N_pos: "0 < N" and N_dvd: "N dvd 2 ^ 32" and N_small: "N < 2 ^ 32 - 1"
begin

abbreviation slice :: "u8 list \<Rightarrow> u32 \<Rightarrow> nat \<Rightarrow> u8 list" where
  "slice \<equiv> ring_slice N"

lemma index_add: "unat (r + of_nat i :: u32) mod N = (unat r + i) mod N"
proof -
  have "unat (r + of_nat i) = (unat r + i) mod 2 ^ 32"
    by (simp add: unat_word_ariths unat_of_nat mod_simps)
  then show ?thesis using N_dvd by (simp add: mod_mod_cancel)
qed

lemma index_shift: "(unat (r + of_nat n :: u32) + i) mod N = (unat r + n + i) mod N"
proof -
  have "(unat (r + of_nat n) + i) mod N = (unat (r + of_nat n) mod N + i) mod N" by (simp only: mod_add_left_eq)
  also have "\<dots> = ((unat r + n) mod N + i) mod N" by (simp only: index_add)
  finally show ?thesis by (simp only: mod_add_left_eq)
qed

lemma index_Suc: "(unat (r + 1 :: u32) + i) mod N = (unat r + Suc i) mod N"
  using index_shift[of r 1 i] by simp

lemma index_end: "unat (e :: u32) mod N = (unat r + unat (e - r)) mod N"
  using index_add[of r "unat (e - r)"] by simp

lemma slice_Suc: "slice buf r (Suc n) = slice buf r n @ [buf ! ((unat r + n) mod N)]"
  by (simp add: ring_slice_def)

lemma slice_pop: "slice buf r (Suc n) = buf ! (unat r mod N) # slice buf (r + 1) n"
  by (simp add: ring_slice_def upt_conv_Cons index_Suc map_Suc_upt[symmetric] del: upt_Suc)

lemma slice_update:
  assumes "length buf = N" "n \<le> k" "k < N"
  shows "slice (buf[(unat r + k) mod N := c]) r n = slice buf r n"
proof -
  have "(unat r + k) mod N \<noteq> (unat r + i) mod N" if "i < n" for i
    using mod_shift_inj[of "unat r" i N k] that assms by auto
  then show ?thesis by (simp add: ring_slice_def)
qed

lemma slice_push:
  assumes "length buf = N" "n < N"
  shows "slice (buf[(unat r + n) mod N := c]) r (Suc n) = slice buf r n @ [c]"
  using assms slice_update[OF assms(1) order_refl assms(2)] N_pos by (simp add: slice_Suc)

lemma slice_append: "slice buf r (n + m) = slice buf r n @ slice buf (r + of_nat n) m"
proof (induction m)
  case (Suc m)
  have "(unat (r + of_nat n) + m) mod N = (unat r + (n + m)) mod N"
    using index_shift[of r n m] by (simp add: add.assoc)
  then show ?case using Suc by (simp add: slice_Suc)
qed simp

text \<open>What is between two indices, and the same as a queue.\<close>

lemma push_end:
  assumes "length buf = N" "unat (e - r) < N"
  shows "slice (buf[unat e mod N := c]) r (unat (e + 1 - r)) = slice buf r (unat (e - r)) @ [c]"
  using slice_push[OF assms] index_end[of e r] u32_diff_Suc[of e r] assms(2) N_small by simp

lemma pop_front:
  assumes "r \<noteq> w"
  shows "slice buf r (unat (w - r)) = buf ! (unat r mod N) # slice buf (r + 1) (unat (w - (r + 1)))"
  using slice_pop[of buf r "unat (w - (r + 1))"] u32_diff_pred[of w r] assms by simp

end

end
