(* ===== verification/Xv6_Console.thy ===== *)
theory Xv6_Console
  imports Xv6_Sched Xv6_Ring
begin

text \<open>
  The console: formatted output (\<^verbatim>\<open>kernel/printf.c\<close>), the line discipline
  (\<^verbatim>\<open>kernel/console.c\<close>) and the driver of the serial port (\<^verbatim>\<open>kernel/uart.c\<close>). The
  serial port itself is a device: what was written to its transmit register is \<open>uart_out\<close>, what it
  has received and not yet been read is \<open>uart_in\<close>; its ``transmit idle'' bit is an argument where the
  driver looks at it. Spinning for an idle transmitter has no other effect.
\<close>

record const = kst +
  uart_out :: "u8 list"
  uart_in :: "u8 list"
  tx_busy :: bool
  cons_buf :: "u8 list"
  cons_r :: u32
  cons_w :: u32
  cons_e :: u32

definition str :: "string \<Rightarrow> u8 list" where
  "str xs = map (\<lambda>c. of_nat (of_char c)) xs"

abbreviation chr :: "char \<Rightarrow> u8" where
  "chr c \<equiv> of_nat (of_char c)"

section \<open>Formatted output\<close>

definition uartputc_sync :: "u8 \<Rightarrow> 'a const_scheme \<Rightarrow> 'a const_scheme" where
  "uartputc_sync c s = s\<lparr>uart_out := uart_out s @ [c]\<rparr>"

definition BACKSPACE :: int where "BACKSPACE = 0x100"

definition consputc :: "int \<Rightarrow> 'a const_scheme \<Rightarrow> 'a const_scheme" where
  "consputc c s =
     (if c = BACKSPACE then uartputc_sync 8 (uartputc_sync 0x20 (uartputc_sync 8 s))
      else uartputc_sync (of_int c) s)"

definition digits :: "u8 list" where
  "digits = str ''0123456789abcdef''"

text \<open>
  The \<^verbatim>\<open>do ... while\<close> loop of \<^verbatim>\<open>printint\<close>: the digits, last one first. The base is 10 or
  16 at every call; the test of it only makes the recursion well founded.
\<close>

function printint_digits :: "u64 \<Rightarrow> u64 \<Rightarrow> u8 list" where
  "printint_digits x base =
     digits ! unat (x mod base) # (if 1 < base \<and> x div base \<noteq> 0 then printint_digits (x div base) base else [])"
  by pat_completeness auto
termination
proof (relation "measure (\<lambda>(x, b). unat x)", simp, goal_cases)
  case (1 x base)
  then have "x \<noteq> 0" by auto
  then have "0 < unat x" by (simp add: unat_gt_0)
  moreover have "1 < unat base" using 1 by (simp add: word_less_nat_alt)
  ultimately show ?case by (simp add: unat_div)
qed

declare printint_digits.simps [simp del]

definition printint_buf :: "u64 \<Rightarrow> u64 \<Rightarrow> bool \<Rightarrow> u8 list" where
  "printint_buf xx base sign =
     (let neg = sign \<and> sint xx < 0; x = (if neg then - xx else xx)
      in printint_digits x base @ (if neg then [chr (CHR ''-'')] else []))"

definition printint :: "u64 \<Rightarrow> u64 \<Rightarrow> bool \<Rightarrow> u8 list" where
  "printint xx base sign = rev (printint_buf xx base sign)"

fun printptr_digits :: "nat \<Rightarrow> u64 \<Rightarrow> u8 list" where
  "printptr_digits 0 x = []"
| "printptr_digits (Suc n) x = digits ! unat (drop_bit 60 x) # printptr_digits n (push_bit 4 x)"

definition printptr :: "u64 \<Rightarrow> u8 list" where
  "printptr x = str ''0x'' @ printptr_digits 16 x"

text \<open>
  The arguments of \<^verbatim>\<open>printf\<close>: a machine word, or a string with \<^const>\<open>None\<close> the null pointer.
  The result is \<^const>\<open>None\<close> where \<^verbatim>\<open>va_arg\<close> would run out of arguments or read one of the
  wrong kind, which C leaves undefined.
\<close>

datatype parg = AInt u64 | AStr "u8 list option"

fun arg_int :: "(u64 \<Rightarrow> u8 list) \<Rightarrow> parg list \<Rightarrow> (u8 list \<times> parg list) option" where
  "arg_int f (AInt x # as) = Some (f x, as)"
| "arg_int f _ = None"

fun arg_str :: "parg list \<Rightarrow> (u8 list \<times> parg list) option" where
  "arg_str (AStr (Some bs) # as) = Some (bs, as)"
| "arg_str (AStr None # as) = Some (str ''(null)'', as)"
| "arg_str _ = None"

definition nth0 :: "u8 list \<Rightarrow> nat \<Rightarrow> u8" where
  "nth0 bs i = (if i < length bs then bs ! i else 0)"

text \<open>
  One conversion after a \<^verbatim>\<open>%\<close>: what is printed, how many characters of the format it
  takes beyond the \<^verbatim>\<open>%\<close>, and the arguments left.
\<close>

definition convert :: "u8 list \<Rightarrow> parg list \<Rightarrow> (u8 list \<times> nat \<times> parg list) option" where
  "convert fmt as =
     (let c0 = nth0 fmt 0;
          c1 = (if c0 \<noteq> 0 then nth0 fmt 1 else 0);
          c2 = (if c1 \<noteq> 0 then nth0 fmt 2 else 0);
          take = (\<lambda>n r. case r of None \<Rightarrow> None | Some (out, as') \<Rightarrow> Some (out, n, as'));
          l = chr (CHR ''l''); d = chr (CHR ''d''); u = chr (CHR ''u''); x = chr (CHR ''x'')
      in if c0 = d then take 1 (arg_int (\<lambda>v. printint (scast (ucast v :: u32)) 10 True) as)
         else if c0 = l \<and> c1 = d then take 2 (arg_int (\<lambda>v. printint v 10 True) as)
         else if c0 = l \<and> c1 = l \<and> c2 = d then take 3 (arg_int (\<lambda>v. printint v 10 True) as)
         else if c0 = u then take 1 (arg_int (\<lambda>v. printint (ucast (ucast v :: u32)) 10 False) as)
         else if c0 = l \<and> c1 = u then take 2 (arg_int (\<lambda>v. printint v 10 False) as)
         else if c0 = l \<and> c1 = l \<and> c2 = u then take 3 (arg_int (\<lambda>v. printint v 10 False) as)
         else if c0 = x then take 1 (arg_int (\<lambda>v. printint (ucast (ucast v :: u32)) 16 False) as)
         else if c0 = l \<and> c1 = x then take 2 (arg_int (\<lambda>v. printint v 16 False) as)
         else if c0 = l \<and> c1 = l \<and> c2 = x then take 3 (arg_int (\<lambda>v. printint v 16 False) as)
         else if c0 = chr (CHR ''p'') then take 1 (arg_int printptr as)
         else if c0 = chr (CHR ''c'') then take 1 (arg_int (\<lambda>v. [ucast v]) as)
         else if c0 = chr (CHR ''s'') then take 1 (arg_str as)
         else if c0 = 0x25 then Some ([0x25], 1, as)
         else Some ([0x25, c0], 1, as))"

function printf_out :: "u8 list \<Rightarrow> parg list \<Rightarrow> u8 list option" where
  "printf_out [] as = Some []"
| "printf_out (cx # fmt) as =
     (if cx \<noteq> 0x25 then map_option (\<lambda>out. cx # out) (printf_out fmt as)
      else if fmt = [] then Some []
      else case convert fmt as of
             None \<Rightarrow> None
           | Some (out, n, as') \<Rightarrow> map_option (\<lambda>rest. out @ rest) (printf_out (drop n fmt) as'))"
  by pat_completeness auto
termination
  by (relation "measure (\<lambda>(fmt, as). length fmt)") auto

definition printf :: "u8 list \<Rightarrow> parg list \<Rightarrow> 'a const_scheme \<Rightarrow> 'a const_scheme option" where
  "printf fmt as s = map_option (\<lambda>out. s\<lparr>uart_out := uart_out s @ out\<rparr>) (printf_out fmt as)"

section \<open>The process list\<close>

definition state_name :: "procstate \<Rightarrow> u8 list" where
  "state_name st = (case st of UNUSED \<Rightarrow> str ''unused'' | USED \<Rightarrow> str ''used'' | SLEEPING \<Rightarrow> str ''sleep ''
     | RUNNABLE \<Rightarrow> str ''runble'' | RUNNING \<Rightarrow> str ''run   '' | ZOMBIE \<Rightarrow> str ''zombie'')"

definition c_string :: "u8 list \<Rightarrow> u8 list" where
  "c_string bs = takeWhile (\<lambda>b. b \<noteq> 0) bs"

definition procdump :: "'a const_scheme \<Rightarrow> 'a const_scheme" where
  "procdump s =
     s\<lparr>uart_out := uart_out s @ [10] @ concat (map (\<lambda>q.
         if p_state q = UNUSED then []
         else printint (scast (of_int (p_pid q) :: u32)) 10 True @ [0x20] @ state_name (p_state q) @ [0x20] @ c_string (p_name q) @ [10])
       (procs s))\<rparr>"

section \<open>Line discipline\<close>

definition INPUT_BUF_SIZE :: nat where "INPUT_BUF_SIZE = 128"

definition cons_ix :: "u32 \<Rightarrow> nat" where
  "cons_ix i = unat i mod INPUT_BUF_SIZE"

text \<open>The loop of control-U; \<open>n\<close> bounds it, and a line has at most \<^const>\<open>INPUT_BUF_SIZE\<close> characters.\<close>

fun kill_line :: "nat \<Rightarrow> 'a const_scheme \<Rightarrow> 'a const_scheme" where
  "kill_line 0 s = s"
| "kill_line (Suc n) s =
     (if cons_e s \<noteq> cons_w s \<and> cons_buf s ! cons_ix (cons_e s - 1) \<noteq> 10
      then kill_line n (consputc BACKSPACE (s\<lparr>cons_e := cons_e s - 1\<rparr>)) else s)"

definition consoleintr :: "u8 \<Rightarrow> 'a const_scheme \<Rightarrow> 'a const_scheme" where
  "consoleintr c s =
     (if c = 0x10 then procdump s
      else if c = 0x15 then kill_line INPUT_BUF_SIZE s
      else if c = 8 \<or> c = 0x7f then
        if cons_e s \<noteq> cons_w s then consputc BACKSPACE (s\<lparr>cons_e := cons_e s - 1\<rparr>) else s
      else if c \<noteq> 0 \<and> unat (cons_e s - cons_r s) < INPUT_BUF_SIZE then
        let c' = (if c = 13 then 10 else c);
            s1 = consputc (uint c') s;
            s2 = s1\<lparr>cons_buf := (cons_buf s1)[cons_ix (cons_e s1) := c'], cons_e := cons_e s1 + 1\<rparr>
        in if c' = 10 \<or> c' = 4 \<or> unat (cons_e s2 - cons_r s2) = INPUT_BUF_SIZE
           then wakeup (Some ConsoleChan) (s2\<lparr>cons_w := cons_e s2\<rparr>)
           else s2
      else s)"

text \<open>
  \<^verbatim>\<open>consoleread\<close>: the number of bytes still wanted, and the bytes delivered so far. It blocks
  with what it has when the buffer is empty, and starts again from there.
\<close>

function consoleread_loop :: "bool \<Rightarrow> u64 \<Rightarrow> nat \<Rightarrow> nat \<Rightarrow> 'a const_scheme \<Rightarrow> (int outcome \<times> u64 \<times> nat \<times> 'a const_scheme) res" where
  "consoleread_loop user_dst dst target n s =
     (if n = 0 then Inr (Returns (int target), dst, n, s)
      else if cons_r s = cons_w s then
        case curproc s of
          None \<Rightarrow> Inl (Panic ''kerneltrap'')
        | Some p \<Rightarrow> if killed p s then Inr (Returns (-1), dst, n, s)
                   else Inr (Blocks ConsoleChan, dst, n, sleep_on p ConsoleChan s)
      else
        let c = cons_buf s ! cons_ix (cons_r s); s1 = s\<lparr>cons_r := cons_r s + 1\<rparr> in
        if c = 4 then Inr (Returns (int (target - n)), dst, n, if n < target then s1\<lparr>cons_r := cons_r s1 - 1\<rparr> else s1)
        else andthen (either_copyout user_dst dst [c] s1) (\<lambda>(r, s2).
          if r = -1 then Inr (Returns (int (target - n)), dst, n, s2)
          else if c = 10 then Inr (Returns (int (target - (n - 1))), dst + 1, n - 1, s2)
          else consoleread_loop user_dst (dst + 1) target (n - 1) s2))"
  by pat_completeness auto
termination
  by (relation "measure (\<lambda>(u, d, t, n, s). n)") auto

declare consoleread_loop.simps [simp del]

definition consoleread :: "bool \<Rightarrow> u64 \<Rightarrow> int \<Rightarrow> 'a const_scheme \<Rightarrow> (int outcome \<times> u64 \<times> nat \<times> 'a const_scheme) res" where
  "consoleread user_dst dst n s =
     (if n \<le> 0 then Inr (Returns 0, dst, 0, s) else consoleread_loop user_dst dst (nat n) (nat n) s)"

section \<open>The serial port\<close>

text \<open>
  \<^verbatim>\<open>uartwrite\<close> sends until it has to wait for the transmitter; the bytes left are sent when it
  is woken.
\<close>

fun uartwrite :: "u8 list \<Rightarrow> 'a const_scheme \<Rightarrow> (unit outcome \<times> u8 list \<times> 'a const_scheme) res" where
  "uartwrite [] s = Inr (Returns (), [], s)"
| "uartwrite (b # bs) s =
     (if tx_busy s
      then case curproc s of
             None \<Rightarrow> Inl (Panic ''kerneltrap'')
           | Some p \<Rightarrow> Inr (Blocks UartChan, b # bs, sleep_on p UartChan s)
      else uartwrite bs (s\<lparr>uart_out := uart_out s @ [b], tx_busy := True\<rparr>))"

definition uartgetc :: "'a const_scheme \<Rightarrow> int \<times> 'a const_scheme" where
  "uartgetc s = (case uart_in s of [] \<Rightarrow> (-1, s) | c # cs \<Rightarrow> (uint c, s\<lparr>uart_in := cs\<rparr>))"

fun uart_drain :: "u8 list \<Rightarrow> 'a const_scheme \<Rightarrow> 'a const_scheme" where
  "uart_drain [] s = s"
| "uart_drain (c # cs) s = uart_drain cs (consoleintr c (s\<lparr>uart_in := cs\<rparr>))"

definition uartintr :: "bool \<Rightarrow> 'a const_scheme \<Rightarrow> 'a const_scheme" where
  "uartintr tx_idle s =
     (let s1 = (if tx_idle then wakeup (Some UartChan) (s\<lparr>tx_busy := False\<rparr>) else s)
      in uart_drain (uart_in s1) s1)"

text \<open>\<^verbatim>\<open>consolewrite\<close>: batches of at most 32 bytes from user space to the serial port.\<close>

function consolewrite_loop :: "bool \<Rightarrow> u64 \<Rightarrow> nat \<Rightarrow> nat \<Rightarrow> 'a const_scheme \<Rightarrow> (int outcome \<times> nat \<times> u8 list \<times> 'a const_scheme) res" where
  "consolewrite_loop user_src src i n s =
     (if i < n
      then let nn = min 32 (n - i) in
        andthen (either_copyin user_src (src + of_nat i) nn s) (\<lambda>(r, buf, s1).
          if r = -1 then Inr (Returns (int i), i, [], s1)
          else andthen (uartwrite buf s1) (\<lambda>(w, rest, s2).
            case w of Blocks ch \<Rightarrow> Inr (Blocks ch, i + nn, rest, s2)
                    | Returns _ \<Rightarrow> consolewrite_loop user_src src (i + nn) n s2))
      else Inr (Returns (int i), i, [], s))"
  by pat_completeness auto
termination
  by (relation "measure (\<lambda>(u, src, i, n, s). n - i)") auto

declare consolewrite_loop.simps [simp del]

definition consolewrite :: "bool \<Rightarrow> u64 \<Rightarrow> int \<Rightarrow> 'a const_scheme \<Rightarrow> (int outcome \<times> nat \<times> u8 list \<times> 'a const_scheme) res" where
  "consolewrite user_src src n s = consolewrite_loop user_src src 0 (nat n) s"

section \<open>The console as a queue and a line being edited\<close>

interpretation cr: ring INPUT_BUF_SIZE
  by unfold_locales (simp_all add: INPUT_BUF_SIZE_def)

definition cons_queue :: "'a const_scheme \<Rightarrow> u8 list" where
  "cons_queue s = ring_slice INPUT_BUF_SIZE (cons_buf s) (cons_r s) (unat (cons_w s - cons_r s))"

definition cons_line :: "'a const_scheme \<Rightarrow> u8 list" where
  "cons_line s = ring_slice INPUT_BUF_SIZE (cons_buf s) (cons_w s) (unat (cons_e s - cons_w s))"

definition cons_ok :: "'a const_scheme \<Rightarrow> bool" where
  "cons_ok s =
     (length (cons_buf s) = INPUT_BUF_SIZE \<and> length (cons_queue s) + length (cons_line s) \<le> INPUT_BUF_SIZE \<and>
      10 \<notin> set (cons_line s))"

text \<open>
  What the line discipline promises: characters go to the line being edited; erase and kill act on
  that line only; a newline, an end-of-file or a full buffer hands the line to the readers.
\<close>

definition cons_spec :: "u8 \<Rightarrow> u8 list \<times> u8 list \<Rightarrow> u8 list \<times> u8 list" where
  "cons_spec c ql =
     (case ql of (q, l) \<Rightarrow>
        if c = 0x10 then (q, l)
        else if c = 0x15 then (q, [])
        else if c = 8 \<or> c = 0x7f then (q, butlast l)
        else if c \<noteq> 0 \<and> length q + length l < INPUT_BUF_SIZE then
          let c' = (if c = 13 then 10 else c); l' = l @ [c'] in
          if c' = 10 \<or> c' = 4 \<or> length q + length l' = INPUT_BUF_SIZE then (q @ l', []) else (q, l')
        else (q, l))"

lemma cons_fields_upd [simp]:
  "cons_buf (uartputc_sync c s) = cons_buf s" "cons_r (uartputc_sync c s) = cons_r s"
  "cons_w (uartputc_sync c s) = cons_w s" "cons_e (uartputc_sync c s) = cons_e s"
  "cons_buf (consputc k s) = cons_buf s" "cons_r (consputc k s) = cons_r s"
  "cons_w (consputc k s) = cons_w s" "cons_e (consputc k s) = cons_e s"
  "cons_buf (wakeup ch s) = cons_buf s" "cons_r (wakeup ch s) = cons_r s"
  "cons_w (wakeup ch s) = cons_w s" "cons_e (wakeup ch s) = cons_e s"
  "cons_buf (procdump s) = cons_buf s" "cons_r (procdump s) = cons_r s"
  "cons_w (procdump s) = cons_w s" "cons_e (procdump s) = cons_e s"
  by (simp_all add: uartputc_sync_def consputc_def wakeup_def each_proc_def procdump_def)

lemma cons_cong:
  assumes "cons_buf t = cons_buf s" "cons_r t = cons_r s" "cons_w t = cons_w s" "cons_e t = cons_e s"
  shows "cons_queue t = cons_queue s" "cons_line t = cons_line s" "cons_ok t = cons_ok s"
  using assms by (simp_all add: cons_queue_def cons_line_def cons_ok_def)

lemma cons_total:
  assumes "cons_ok s"
  shows "unat (cons_e s - cons_r s) = length (cons_queue s) + length (cons_line s)"
    and "ring_slice INPUT_BUF_SIZE (cons_buf s) (cons_r s) (unat (cons_e s - cons_r s)) = cons_queue s @ cons_line s"
proof -
  have "cons_e s - cons_r s = (cons_w s - cons_r s) + (cons_e s - cons_w s)" by simp
  also have "unat \<dots> = unat (cons_w s - cons_r s) + unat (cons_e s - cons_w s)"
    using assms by (subst unat_word_ariths) (simp add: cons_ok_def cons_queue_def cons_line_def INPUT_BUF_SIZE_def)
  finally show e: "unat (cons_e s - cons_r s) = length (cons_queue s) + length (cons_line s)"
    by (simp add: cons_queue_def cons_line_def)
  show "ring_slice INPUT_BUF_SIZE (cons_buf s) (cons_r s) (unat (cons_e s - cons_r s)) = cons_queue s @ cons_line s"
    unfolding e using cr.slice_append[of "cons_buf s" "cons_r s" "unat (cons_w s - cons_r s)" "unat (cons_e s - cons_w s)"]
    by (simp add: cons_queue_def cons_line_def)
qed

lemma erase_line:
  assumes "cons_e s \<noteq> cons_w s"
  shows "cons_line (s\<lparr>cons_e := cons_e s - 1\<rparr>) = butlast (cons_line s)"
    "cons_line s = butlast (cons_line s) @ [cons_buf s ! cons_ix (cons_e s - 1)]"
    "cons_queue (s\<lparr>cons_e := cons_e s - 1\<rparr>) = cons_queue s"
proof -
  let ?n = "unat (cons_e s - 1 - cons_w s)"
  have n: "Suc ?n = unat (cons_e s - cons_w s)"
    using u32_diff_pred[of "cons_e s" "cons_w s"] assms by (simp add: algebra_simps)
  have ix: "(unat (cons_w s) + ?n) mod INPUT_BUF_SIZE = cons_ix (cons_e s - 1)"
    using cr.index_end[of "cons_e s - 1" "cons_w s"] by (simp add: cons_ix_def)
  have "cons_line s = ring_slice INPUT_BUF_SIZE (cons_buf s) (cons_w s) ?n @ [cons_buf s ! cons_ix (cons_e s - 1)]"
    unfolding cons_line_def n[symmetric] cr.slice_Suc ix ..
  then show "cons_line s = butlast (cons_line s) @ [cons_buf s ! cons_ix (cons_e s - 1)]"
    "cons_line (s\<lparr>cons_e := cons_e s - 1\<rparr>) = butlast (cons_line s)"
    by (simp_all add: cons_line_def)
  show "cons_queue (s\<lparr>cons_e := cons_e s - 1\<rparr>) = cons_queue s" by (simp add: cons_queue_def)
qed

lemma line_empty_iff: "cons_line s = [] \<longleftrightarrow> cons_e s = cons_w s"
  by (simp add: cons_line_def ring_slice_def unat_eq_0)

lemma kill_line_spec:
  assumes "10 \<notin> set (cons_line s)" "length (cons_line s) \<le> n"
  shows "cons_line (kill_line n s) = [] \<and> cons_queue (kill_line n s) = cons_queue s \<and>
    cons_buf (kill_line n s) = cons_buf s"
  using assms
proof (induction n arbitrary: s)
  case (Suc n)
  show ?case
  proof (cases "cons_e s = cons_w s")
    case True
    then show ?thesis by (simp add: line_empty_iff)
  next
    case False
    let ?t = "consputc BACKSPACE (s\<lparr>cons_e := cons_e s - 1\<rparr>)"
    have t: "cons_line ?t = butlast (cons_line s)" "cons_queue ?t = cons_queue s" "cons_buf ?t = cons_buf s"
      using erase_line[OF False] cons_cong[of ?t "s\<lparr>cons_e := cons_e s - 1\<rparr>"] by simp_all
    have "cons_buf s ! cons_ix (cons_e s - 1) \<noteq> 10"
      using erase_line(2)[OF False] Suc.prems(1) by (metis in_set_conv_decomp)
    moreover have "10 \<notin> set (butlast (cons_line s))" "length (butlast (cons_line s)) \<le> n"
      using Suc.prems by (auto dest: in_set_butlastD)
    ultimately show ?thesis using Suc.IH[of ?t] t False by simp
  qed
qed simp

text \<open>A character is appended to the line.\<close>

lemma append_line:
  assumes ok: "cons_ok s" and room: "length (cons_queue s) + length (cons_line s) < INPUT_BUF_SIZE"
    and t: "t = s\<lparr>cons_buf := (cons_buf s)[cons_ix (cons_e s) := c], cons_e := cons_e s + 1\<rparr>"
  shows "cons_queue t = cons_queue s" "cons_line t = cons_line s @ [c]"
    "cons_queue (t\<lparr>cons_w := cons_e t\<rparr>) = cons_queue s @ cons_line s @ [c]" "cons_line (t\<lparr>cons_w := cons_e t\<rparr>) = []"
    "unat (cons_e t - cons_r t) = length (cons_queue s) + length (cons_line s) + 1"
proof -
  have len: "length (cons_buf s) = INPUT_BUF_SIZE" using ok by (simp add: cons_ok_def)
  note tot = cons_total[OF ok]
  have ix: "cons_ix (cons_e s) = unat (cons_e s) mod INPUT_BUF_SIZE" by (simp add: cons_ix_def)
  have lt: "unat (cons_e s - cons_r s) < INPUT_BUF_SIZE" using tot(1) room by simp
  have "unat (cons_e s - cons_w s) < INPUT_BUF_SIZE" using room by (simp add: cons_line_def)
  from cr.push_end[OF len this, of c] show "cons_line t = cons_line s @ [c]"
    by (simp add: t cons_line_def ix)
  have e: "cons_ix (cons_e s) = (unat (cons_r s) + unat (cons_e s - cons_r s)) mod INPUT_BUF_SIZE"
    unfolding ix by (rule cr.index_end)
  have "unat (cons_w s - cons_r s) \<le> unat (cons_e s - cons_r s)" using tot(1) by (simp add: cons_queue_def)
  from cr.slice_update[OF len this lt, of "cons_r s" c] show "cons_queue t = cons_queue s"
    by (simp add: t cons_queue_def e)
  from cr.push_end[OF len lt, of c] tot(2) show "cons_queue (t\<lparr>cons_w := cons_e t\<rparr>) = cons_queue s @ cons_line s @ [c]"
    by (simp add: t cons_queue_def ix)
  show "cons_line (t\<lparr>cons_w := cons_e t\<rparr>) = []" by (simp add: line_empty_iff)
  show "unat (cons_e t - cons_r t) = length (cons_queue s) + length (cons_line s) + 1"
    using u32_diff_Suc[of "cons_e s" "cons_r s"] lt tot(1) by (simp add: t INPUT_BUF_SIZE_def)
qed

lemma consoleintr_spec:
  assumes ok: "cons_ok s"
  shows "(cons_queue (consoleintr c s), cons_line (consoleintr c s)) = cons_spec c (cons_queue s, cons_line s) \<and>
    length (cons_buf (consoleintr c s)) = INPUT_BUF_SIZE"
proof -
  have len: "length (cons_buf s) = INPUT_BUF_SIZE" using ok by (simp add: cons_ok_def)
  let ?q = "cons_queue s" and ?l = "cons_line s"
  consider (dump) "c = 0x10" | (kill) "c = 0x15" | (erase) "c = 8 \<or> c = 0x7f"
    | (none) "c = 0 \<or> \<not> length ?q + length ?l < INPUT_BUF_SIZE" "c \<noteq> 0x10" "c \<noteq> 0x15" "c \<noteq> 8" "c \<noteq> 0x7f"
    | (put) "c \<noteq> 0" "length ?q + length ?l < INPUT_BUF_SIZE" "c \<noteq> 0x10" "c \<noteq> 0x15" "c \<noteq> 8" "c \<noteq> 0x7f"
    by blast
  then show ?thesis
  proof cases
    case dump
    then show ?thesis using cons_cong[of "procdump s" s] len by (simp add: consoleintr_def cons_spec_def)
  next
    case kill
    have "length ?l \<le> INPUT_BUF_SIZE" "10 \<notin> set ?l" using ok by (simp_all add: cons_ok_def)
    then show ?thesis using kill kill_line_spec[of s INPUT_BUF_SIZE] len by (simp add: consoleintr_def cons_spec_def)
  next
    case erase
    let ?t = "s\<lparr>cons_e := cons_e s - 1\<rparr>"
    have cs: "cons_spec c (?q, ?l) = (?q, butlast ?l)" using erase by (auto simp: cons_spec_def)
    have ci: "consoleintr c s = (if cons_e s \<noteq> cons_w s then consputc BACKSPACE ?t else s)"
      using erase by (auto simp: consoleintr_def)
    show ?thesis
    proof (cases "cons_e s = cons_w s")
      case True
      then have "?l = []" by (simp add: line_empty_iff)
      then show ?thesis using cs ci True len by simp
    next
      case False
      then show ?thesis using cs ci erase_line[OF False] cons_cong[of "consputc BACKSPACE ?t" ?t] len by simp
    qed
  next
    case none
    then show ?thesis using cons_total(1)[OF ok] len by (auto simp: consoleintr_def cons_spec_def)
  next
    case put
    define c' where "c' = (if c = 13 then 10 else c)"
    define s1 where "s1 = consputc (uint c') s"
    define t where "t = s1\<lparr>cons_buf := (cons_buf s1)[cons_ix (cons_e s1) := c'], cons_e := cons_e s1 + 1\<rparr>"
    have s1: "cons_queue s1 = ?q" "cons_line s1 = ?l" "cons_ok s1" using cons_cong[of s1 s] ok by (simp_all add: s1_def)
    note ap = append_line[OF s1(3) _ t_def, unfolded s1(1,2), OF put(2)]
    have ci: "consoleintr c s = (if c' = 10 \<or> c' = 4 \<or> unat (cons_e t - cons_r t) = INPUT_BUF_SIZE
        then wakeup (Some ConsoleChan) (t\<lparr>cons_w := cons_e t\<rparr>) else t)"
      using put cons_total(1)[OF ok] by (simp add: consoleintr_def Let_def c'_def s1_def t_def)
    have cs: "cons_spec c (?q, ?l) = (if c' = 10 \<or> c' = 4 \<or> length ?q + length ?l + 1 = INPUT_BUF_SIZE
        then (?q @ ?l @ [c'], []) else (?q, ?l @ [c']))"
      using put by (simp add: cons_spec_def Let_def c'_def)
    have w: "cons_queue (wakeup ch u) = cons_queue u" "cons_line (wakeup ch u) = cons_line u" for ch and u :: "'a const_scheme"
      using cons_cong[of "wakeup ch u" u] by simp_all
    have "length (cons_buf t) = INPUT_BUF_SIZE" using len by (simp add: t_def s1_def)
    then show ?thesis unfolding ci cs ap(5) using ap(1-4) w by simp
  qed
qed

lemma cons_spec_ok:
  assumes "cons_spec c (q, l) = (q', l')" "length q + length l \<le> INPUT_BUF_SIZE" "10 \<notin> set l"
  shows "length q' + length l' \<le> INPUT_BUF_SIZE" "10 \<notin> set l'"
  using assms by (auto simp: cons_spec_def Let_def split: if_splits dest: in_set_butlastD)

section \<open>Printed numbers\<close>

text \<open>The number that a string of digits denotes, with a sign in front.\<close>

definition digit_value :: "u8 \<Rightarrow> nat" where
  "digit_value d = (if unat d < 58 then unat d - 48 else unat d - 87)"

definition digits_value :: "nat \<Rightarrow> u8 list \<Rightarrow> nat" where
  "digits_value b ds = foldl (\<lambda>acc d. acc * b + digit_value d) 0 ds"

definition number_value :: "nat \<Rightarrow> u8 list \<Rightarrow> int" where
  "number_value b bs =
     (case bs of [] \<Rightarrow> 0 | c # cs \<Rightarrow> if c = chr (CHR ''-'') then - int (digits_value b cs) else int (digits_value b bs))"

lemma digits_table: "\<forall>k \<in> set [0..<16]. digit_value (digits ! k) = k \<and> digits ! k \<noteq> chr (CHR ''-'')"
  by code_simp

lemma digit_facts: "k < 16 \<Longrightarrow> digit_value (digits ! k) = k" "k < 16 \<Longrightarrow> digits ! k \<noteq> chr (CHR ''-'')"
  using digits_table by simp_all

definition print_base :: "u64 \<Rightarrow> bool" where
  "print_base base = (base = 10 \<or> base = 16)"

lemma print_base_bounds: "print_base base \<Longrightarrow> 1 < base" "print_base base \<Longrightarrow> 10 \<le> unat base" "print_base base \<Longrightarrow> unat base \<le> 16"
  by (auto simp: print_base_def)

lemma printint_digits_value:
  assumes "print_base base"
  shows "digits_value (unat base) (rev (printint_digits x base)) = unat x \<and>
    (\<forall>d \<in> set (printint_digits x base). d \<noteq> chr (CHR ''-'')) \<and> printint_digits x base \<noteq> []"
proof (induction "unat x" arbitrary: x rule: less_induct)
  case less
  note b = print_base_bounds[OF assms]
  have m: "unat (x mod base) < 16" using b(2,3) by (simp add: unat_mod) (meson less_le_trans mod_less_divisor zero_less_numeral less_le_trans)
  show ?case
  proof (cases "x div base = 0")
    case True
    then have "x mod base = x" by (metis add_0 mult_zero_left div_mult_mod_eq)
    then show ?thesis using True digit_facts m
      by (subst (1 2 3) printint_digits.simps) (simp add: digits_value_def)
  next
    case False
    then have "x \<noteq> 0" by auto
    then have "unat (x div base) < unat x"
      using b(2) by (simp add: unat_div unat_gt_0)
    note IH = less[OF this]
    have "digits_value (unat base) (rev (printint_digits x base)) = unat (x div base) * unat base + unat (x mod base)"
      using False b(1) IH digit_facts(1)[OF m]
      by (subst printint_digits.simps) (simp add: digits_value_def)
    also have "\<dots> = unat x" by (simp add: unat_div unat_mod)
    finally show ?thesis
      using False b(1) IH digit_facts(2)[OF m] by (subst (2 3) printint_digits.simps) simp
  qed
qed

lemma printint_digits_length:
  assumes "print_base base" "unat x < unat base ^ n" "0 < n"
  shows "length (printint_digits x base) \<le> n"
  using assms(2,3)
proof (induction n arbitrary: x)
  case (Suc n)
  note b = print_base_bounds[OF assms(1)]
  show ?case
  proof (cases "x div base = 0")
    case True
    then show ?thesis by (subst printint_digits.simps) simp
  next
    case False
    have lt: "unat (x div base) < unat base ^ n"
      using Suc.prems(1) b(2) by (simp add: unat_div div_less_iff_less_mult mult.commute)
    have "0 < n"
    proof (rule ccontr)
      assume "\<not> 0 < n"
      then have "unat (x div base) = 0" using lt by simp
      then show False using False by (simp add: unat_eq_0)
    qed
    with Suc.IH[OF lt] show ?thesis using b(1) by (subst printint_digits.simps) simp
  qed
qed simp

lemma sint_neg:
  assumes "sint (x :: u64) < 0"
  shows "int (unat (- x)) = - sint x" "unat (- x) \<le> 2 ^ 63"
proof -
  have s: "sint x = (uint x + 2 ^ 63) mod 2 ^ 64 - 2 ^ 63" using int_word_sint[of "uint x", where ?'a = 64] by simp
  have u: "0 \<le> uint x" "uint x < 2 ^ 64" using uint_bounded[of x] by simp_all
  have big: "2 ^ 63 \<le> uint x"
  proof (rule ccontr)
    assume "\<not> 2 ^ 63 \<le> uint x"
    then show False using assms s u by simp
  qed
  then have "(uint x + 2 ^ 63) mod 2 ^ 64 = uint x - 2 ^ 63" using u by (simp add: mod_pos_geq)
  then have sx: "sint x = uint x - 2 ^ 64" using s by simp
  have "uint (- x) = 2 ^ 64 - uint x"
    using big u by (simp add: uint_word_ariths(4) zmod_zminus1_eq_if)
  then show "int (unat (- x)) = - sint x" "unat (- x) \<le> 2 ^ 63"
    using sx big u by (simp_all add: unat_eq_nat_uint nat_le_iff)
qed

lemma sint_nonneg:
  assumes "\<not> sint (x :: u64) < 0"
  shows "int (unat x) = sint x"
proof -
  have s: "sint x = (uint x + 2 ^ 63) mod 2 ^ 64 - 2 ^ 63" using int_word_sint[of "uint x", where ?'a = 64] by simp
  have u: "0 \<le> uint x" "uint x < 2 ^ 64" using uint_bounded[of x] by simp_all
  have "uint x < 2 ^ 63"
  proof (rule ccontr)
    assume "\<not> uint x < 2 ^ 63"
    then have "(uint x + 2 ^ 63) mod 2 ^ 64 = uint x - 2 ^ 63" using u by (simp add: mod_pos_geq)
    then show False using assms s u by simp
  qed
  then show ?thesis using s u by simp
qed

section \<open>Properties\<close>

text \<open>
  C19. The line discipline refines its specification: seen as the queue of characters handed to the
  readers and the line being edited, \<^verbatim>\<open>consoleintr\<close> does exactly what
  \<^const>\<open>cons_spec\<close> says for every input character, and keeps the three indices of the ring
  consistent, also when they wrap around at \<open>2 ^ 32\<close>.
\<close>

theorem consoleintr_refines:
  assumes "cons_ok s"
  shows "cons_ok (consoleintr c s) \<and>
    (cons_queue (consoleintr c s), cons_line (consoleintr c s)) = cons_spec c (cons_queue s, cons_line s)"
proof -
  have sp: "cons_spec c (cons_queue s, cons_line s) = (cons_queue (consoleintr c s), cons_line (consoleintr c s))"
      "length (cons_buf (consoleintr c s)) = INPUT_BUF_SIZE"
    using consoleintr_spec[OF assms, of c] by simp_all
  with cons_spec_ok[OF sp(1)] assms show ?thesis by (simp add: cons_ok_def)
qed

definition cons_boot :: const where
  "cons_boot = kst.extend sched_boot
     \<lparr>uart_out = [], uart_in = [], tx_busy = False, cons_buf = replicate 128 0,
      cons_r = 0xFFFFFFFF, cons_w = 0xFFFFFFFF, cons_e = 0xFFFFFFFF\<rparr>"

theorem consoleintr_refines_witness:
  "cons_ok (consoleintr 104 cons_boot) \<and> cons_line (consoleintr 104 cons_boot) = [104] \<and> cons_e (consoleintr 104 cons_boot) = 0"
proof -
  have f: "cons_buf cons_boot = replicate 128 0" "cons_r cons_boot = 0xFFFFFFFF" "cons_w cons_boot = 0xFFFFFFFF"
      "cons_e cons_boot = 0xFFFFFFFF"
    by (simp_all add: cons_boot_def kst.defs)
  have e: "cons_queue cons_boot = []" "cons_line cons_boot = []"
    by (simp_all add: cons_queue_def cons_line_def f)
  have "cons_ok cons_boot" using e by (simp add: cons_ok_def f INPUT_BUF_SIZE_def)
  from consoleintr_refines[OF this, of 104] show ?thesis
    by (simp add: e cons_spec_def INPUT_BUF_SIZE_def Let_def) (simp add: consoleintr_def Let_def f INPUT_BUF_SIZE_def)
qed

text \<open>
  C20. Printing a number never overruns the 20-byte buffer of \<^verbatim>\<open>printint\<close>, for any 64-bit
  argument including the most negative one, and what is printed denotes the number, signed or
  unsigned, in base 10 or 16.
\<close>

theorem printint_correct:
  assumes "print_base base"
  shows "length (printint_buf xx base sign) \<le> 20 \<and>
    number_value (unat base) (printint xx base sign) = (if sign then sint xx else int (unat xx))"
proof -
  define neg where "neg = (sign \<and> sint xx < 0)"
  define x where "x = (if neg then - xx else xx)"
  note v = printint_digits_value[OF assms, of x]
  have buf: "printint_buf xx base sign = printint_digits x base @ (if neg then [chr (CHR ''-'')] else [])"
    by (simp add: printint_buf_def Let_def neg_def x_def)
  have pw: "10 ^ n \<le> unat base ^ n" for n using print_base_bounds(2)[OF assms] by (rule power_mono) simp
  have "unat x < 18446744073709551616" by (rule unat_u64_less)
  then have "unat x < unat base ^ 20" using pw[of 20] by simp
  then have l20: "length (printint_digits x base) \<le> 20" by (rule printint_digits_length[OF assms]) simp
  have l19: "length (printint_digits x base) \<le> 19" if neg
  proof -
    have "unat x \<le> 2 ^ 63" using that sint_neg(2)[of xx] by (simp add: neg_def x_def)
    then have "unat x < unat base ^ 19" using pw[of 19] by simp
    then show ?thesis by (rule printint_digits_length[OF assms]) simp
  qed
  have nv: "number_value (unat base) (rev (printint_digits x base)) = int (unat x)"
    using v by (cases "rev (printint_digits x base)") (auto simp: number_value_def rev_eq_Cons_iff)
  show ?thesis
  proof (cases neg)
    case True
    then have "- int (unat x) = sint xx" sign using sint_neg(1)[of xx] by (simp_all add: neg_def x_def)
    then show ?thesis unfolding printint_def buf using True l19 v by (simp add: number_value_def)
  next
    case False
    then have "int (unat x) = (if sign then sint xx else int (unat xx))"
      using sint_nonneg[of xx] by (auto simp: neg_def x_def)
    then show ?thesis unfolding printint_def buf using False l20 nv by simp
  qed
qed

theorem printint_correct_witness:
  "length (printint_buf 0x8000000000000000 10 True) \<le> 20 \<and>
   number_value 10 (printint 0x8000000000000000 10 True) = - (2 ^ 63)"
  using printint_correct[of 10 "0x8000000000000000" True] by (simp add: print_base_def)

end
