(* ===== verification/Xv6_Fsstate.thy ===== *)
theory Xv6_Fsstate
  imports Xv6_Console
begin

text \<open>
  The state of the file system and of open files, and sleep locks (\<^verbatim>\<open>kernel/sleeplock.c\<close>):
  \<^verbatim>\<open>struct buf\<close>, \<^verbatim>\<open>struct log\<close>, \<^verbatim>\<open>struct superblock\<close>, \<^verbatim>\<open>struct inode\<close>,
  \<^verbatim>\<open>struct file\<close> and \<^verbatim>\<open>struct pipe\<close>. A pointer to a buffer, an inode or a file is its
  index in the table; a pipe is the address of the page it was allocated in. Disk blocks are lists of
  \<^verbatim>\<open>BSIZE\<close> bytes; \<open>dwrites\<close> is the history of the writes that the disk has performed,
  which only serves to say what a crash leaves behind. The spin locks bracket the operations.
\<close>

text \<open>The open modes of \<^verbatim>\<open>kernel/fcntl.h\<close>.\<close>

definition O_RDONLY :: u32 where "O_RDONLY = 0"
definition O_WRONLY :: u32 where "O_WRONLY = 1"
definition O_RDWR :: u32 where "O_RDWR = 2"
definition O_CREATE :: u32 where "O_CREATE = 0x200"
definition O_TRUNC :: u32 where "O_TRUNC = 0x400"

record sleeplock =
  slk_locked :: bool
  slk_pid :: int

record buf =
  b_valid :: bool
  b_dev :: u32
  b_blockno :: u32
  b_lock :: sleeplock
  b_refcnt :: u32
  b_prev :: nat
  b_next :: nat
  b_data :: "u8 list"

record logst =
  l_start :: u32
  l_outstanding :: int
  l_committing :: bool
  l_dev :: u32
  l_n :: int
  l_block :: "u32 list"

record superblock =
  sb_magic :: u32
  sb_size :: u32
  sb_nblocks :: u32
  sb_ninodes :: u32
  sb_nlog :: u32
  sb_logstart :: u32
  sb_inodestart :: u32
  sb_bmapstart :: u32

record inode =
  i_dev :: u32
  i_inum :: u32
  i_ref :: int
  i_lock :: sleeplock
  i_valid :: bool
  i_type :: u16
  i_major :: u16
  i_minor :: u16
  i_nlink :: u16
  i_size :: u32
  i_addrs :: "u32 list"

datatype ftype = FD_NONE | FD_PIPE | FD_INODE | FD_DEVICE

record filest =
  f_type :: ftype
  f_ref :: int
  f_readable :: bool
  f_writable :: bool
  f_pipe :: u64
  f_ip :: "nat option"
  f_off :: u32
  f_major :: u16

record pipe =
  pi_data :: "u8 list"
  pi_nread :: u32
  pi_nwrite :: u32
  pi_readopen :: bool
  pi_writeopen :: bool

record fsst = const +
  disk :: "u32 \<Rightarrow> u8 list"
  dwrites :: "(u32 \<times> u8 list) list"
  bufs :: "buf list"
  bhead_prev :: nat
  bhead_next :: nat
  lg :: logst
  sb :: superblock
  itable :: "inode list"
  files :: "filest list"
  pipes :: "u64 \<rightharpoonup> pipe"

definition BSIZE :: nat where "BSIZE = 1024"
definition ROOTINO :: u32 where "ROOTINO = 1"
definition ROOTDEV :: u32 where "ROOTDEV = 1"
definition FSMAGIC :: u32 where "FSMAGIC = 0x10203040"
definition NDIRECT :: nat where "NDIRECT = 12"
definition NINDIRECT :: nat where "NINDIRECT = BSIZE div 4"
definition MAXFILE :: nat where "MAXFILE = NDIRECT + NINDIRECT"
definition IPB :: nat where "IPB = BSIZE div 64"
definition BPB :: nat where "BPB = BSIZE * 8"
definition DIRSIZ :: nat where "DIRSIZ = 14"
definition T_DIR :: u16 where "T_DIR = 1"
definition T_FILE :: u16 where "T_FILE = 2"
definition T_DEVICE :: u16 where "T_DEVICE = 3"

lemmas fs_consts = BSIZE_def ROOTINO_def ROOTDEV_def FSMAGIC_def NDIRECT_def NINDIRECT_def MAXFILE_def IPB_def BPB_def
  DIRSIZ_def T_DIR_def T_FILE_def T_DEVICE_def

definition upd_buf :: "nat \<Rightarrow> (buf \<Rightarrow> buf) \<Rightarrow> 'a fsst_scheme \<Rightarrow> 'a fsst_scheme" where
  "upd_buf b f s = s\<lparr>bufs := (bufs s)[b := f (bufs s ! b)]\<rparr>"

definition upd_inode :: "nat \<Rightarrow> (inode \<Rightarrow> inode) \<Rightarrow> 'a fsst_scheme \<Rightarrow> 'a fsst_scheme" where
  "upd_inode i f s = s\<lparr>itable := (itable s)[i := f (itable s ! i)]\<rparr>"

definition upd_file :: "nat \<Rightarrow> (filest \<Rightarrow> filest) \<Rightarrow> 'a fsst_scheme \<Rightarrow> 'a fsst_scheme" where
  "upd_file i f s = s\<lparr>files := (files s)[i := f (files s ! i)]\<rparr>"

definition upd_lg :: "(logst \<Rightarrow> logst) \<Rightarrow> 'a fsst_scheme \<Rightarrow> 'a fsst_scheme" where
  "upd_lg f s = s\<lparr>lg := f (lg s)\<rparr>"

lemma upd_buf_fields [simp]:
  "disk (upd_buf b f s) = disk s" "dwrites (upd_buf b f s) = dwrites s" "bhead_prev (upd_buf b f s) = bhead_prev s" "bhead_next (upd_buf b f s) = bhead_next s"
  "lg (upd_buf b f s) = lg s" "sb (upd_buf b f s) = sb s" "itable (upd_buf b f s) = itable s" "files (upd_buf b f s) = files s"
  "pipes (upd_buf b f s) = pipes s" "length (bufs (upd_buf b f s)) = length (bufs s)" "curproc (upd_buf b f s) = curproc s"
  "procs (upd_buf b f s) = procs s"
  by (simp_all add: upd_buf_def)

text \<open>\<^verbatim>\<open>printf\<close> with a format that fits its arguments.\<close>

definition kprintf :: "u8 list \<Rightarrow> parg list \<Rightarrow> 'a const_scheme \<Rightarrow> 'a const_scheme" where
  "kprintf fmt as s = (case printf fmt as s of Some s1 \<Rightarrow> s1 | None \<Rightarrow> s)"

section \<open>Sleep locks\<close>

definition initsleeplock :: sleeplock where
  "initsleeplock = \<lparr>slk_locked = False, slk_pid = 0\<rparr>"

text \<open>One round of the loop of \<^verbatim>\<open>acquiresleep\<close>: the lock is taken, or the process goes to sleep.\<close>

definition acquiresleep :: "lkid \<Rightarrow> sleeplock \<Rightarrow> 'a vmst_scheme \<Rightarrow> (unit outcome \<times> sleeplock \<times> 'a vmst_scheme) res" where
  "acquiresleep lk l s =
     (case curproc s of
        None \<Rightarrow> Inl (Panic ''kerneltrap'')
      | Some p \<Rightarrow>
          if slk_locked l then Inr (Blocks (SleeplockChan lk), l, sleep_on p (SleeplockChan lk) s)
          else Inr (Returns (), \<lparr>slk_locked = True, slk_pid = p_pid (procs s ! p)\<rparr>, s))"

definition releasesleep :: "lkid \<Rightarrow> sleeplock \<Rightarrow> 'a vmst_scheme \<Rightarrow> sleeplock \<times> 'a vmst_scheme" where
  "releasesleep lk l s = (\<lparr>slk_locked = False, slk_pid = 0\<rparr>, wakeup (Some (SleeplockChan lk)) s)"

text \<open>The callers of \<^verbatim>\<open>holdingsleep\<close> run in a process, so that \<^verbatim>\<open>myproc()\<close> is not null.\<close>

definition holdingsleep :: "sleeplock \<Rightarrow> 'a vmst_scheme \<Rightarrow> bool" where
  "holdingsleep l s =
     (case curproc s of None \<Rightarrow> False | Some p \<Rightarrow> slk_locked l \<and> slk_pid l = p_pid (procs s ! p))"

text \<open>
  The file system is followed through one process at a time: where it would have to wait for
  another process, the run stops there.
\<close>

definition lock_buf :: "nat \<Rightarrow> 'a fsst_scheme \<Rightarrow> 'a fsst_scheme res" where
  "lock_buf b s =
     andthen (acquiresleep (BufLock b) (b_lock (bufs s ! b)) s) (\<lambda>(r, l, s1).
       case r of Blocks ch \<Rightarrow> Inl (Sleeps ''buffer'') | Returns _ \<Rightarrow> Inr (upd_buf b (\<lambda>x. x\<lparr>b_lock := l\<rparr>) s1))"

definition unlock_buf :: "nat \<Rightarrow> 'a fsst_scheme \<Rightarrow> 'a fsst_scheme" where
  "unlock_buf b s =
     (case releasesleep (BufLock b) (b_lock (bufs s ! b)) s of (l, s1) \<Rightarrow> upd_buf b (\<lambda>x. x\<lparr>b_lock := l\<rparr>) s1)"

definition lock_inode :: "nat \<Rightarrow> 'a fsst_scheme \<Rightarrow> 'a fsst_scheme res" where
  "lock_inode i s =
     andthen (acquiresleep (InodeLock i) (i_lock (itable s ! i)) s) (\<lambda>(r, l, s1).
       case r of Blocks ch \<Rightarrow> Inl (Sleeps ''inode'') | Returns _ \<Rightarrow> Inr (upd_inode i (\<lambda>x. x\<lparr>i_lock := l\<rparr>) s1))"

definition unlock_inode :: "nat \<Rightarrow> 'a fsst_scheme \<Rightarrow> 'a fsst_scheme" where
  "unlock_inode i s =
     (case releasesleep (InodeLock i) (i_lock (itable s ! i)) s of (l, s1) \<Rightarrow> upd_inode i (\<lambda>x. x\<lparr>i_lock := l\<rparr>) s1)"

section \<open>Fields of disk blocks\<close>

definition get_le :: "nat \<Rightarrow> u8 list \<Rightarrow> nat \<Rightarrow> 'b::len word" where
  "get_le n bs off = le_word (take n (drop off bs))"

definition put_bytes :: "u8 list \<Rightarrow> nat \<Rightarrow> u8 list \<Rightarrow> u8 list" where
  "put_bytes bs off xs = take off bs @ xs @ drop (off + length xs) bs"

definition put_le :: "nat \<Rightarrow> u8 list \<Rightarrow> nat \<Rightarrow> 'b::len word \<Rightarrow> u8 list" where
  "put_le n bs off w = put_bytes bs off (le_bytes n w)"

lemma length_put_bytes [simp]: "off + length xs \<le> length bs \<Longrightarrow> length (put_bytes bs off xs) = length bs"
  by (simp add: put_bytes_def)

end
