(* ===== verification/Xv6_Bio.thy ===== *)
theory Xv6_Bio
  imports Xv6_Fsstate
begin

text \<open>
  The buffer cache, \<^verbatim>\<open>kernel/bio.c\<close>. The buffers form a doubly linked ring through
  \<^verbatim>\<open>prev\<close> and \<^verbatim>\<open>next\<close>, most recently used first; index \<^const>\<open>NBUF\<close> is the
  ring's head. A walk along the ring carries a bound, one more than the number of buffers, and
  reports when it is used up, which a well-formed ring never does. The disk performs a request at
  once; its driver is a component of its own.
\<close>

section \<open>The ring\<close>

definition bnext :: "'a fsst_scheme \<Rightarrow> nat \<Rightarrow> nat" where
  "bnext s i = (if i = NBUF then bhead_next s else b_next (bufs s ! i))"

definition bprev :: "'a fsst_scheme \<Rightarrow> nat \<Rightarrow> nat" where
  "bprev s i = (if i = NBUF then bhead_prev s else b_prev (bufs s ! i))"

definition set_next :: "nat \<Rightarrow> nat \<Rightarrow> 'a fsst_scheme \<Rightarrow> 'a fsst_scheme" where
  "set_next i j s = (if i = NBUF then s\<lparr>bhead_next := j\<rparr> else upd_buf i (\<lambda>b. b\<lparr>b_next := j\<rparr>) s)"

definition set_prev :: "nat \<Rightarrow> nat \<Rightarrow> 'a fsst_scheme \<Rightarrow> 'a fsst_scheme" where
  "set_prev i j s = (if i = NBUF then s\<lparr>bhead_prev := j\<rparr> else upd_buf i (\<lambda>b. b\<lparr>b_prev := j\<rparr>) s)"

text \<open>Linking buffer \<open>b\<close> in behind the head, the four assignments that \<^verbatim>\<open>binit\<close> and \<^verbatim>\<open>brelse\<close> share.\<close>

definition link_front :: "nat \<Rightarrow> 'a fsst_scheme \<Rightarrow> 'a fsst_scheme" where
  "link_front b s =
     (let s1 = set_next b (bnext s NBUF) s;
          s2 = set_prev b NBUF s1;
          s3 = set_prev (bnext s2 NBUF) b s2
      in set_next NBUF b s3)"

definition unlink_buf :: "nat \<Rightarrow> 'a fsst_scheme \<Rightarrow> 'a fsst_scheme" where
  "unlink_buf b s =
     (let s1 = set_prev (bnext s b) (bprev s b) s
      in set_next (bprev s1 b) (bnext s1 b) s1)"

definition binit :: "'a fsst_scheme \<Rightarrow> 'a fsst_scheme" where
  "binit s =
     fold (\<lambda>b s. link_front b (upd_buf b (\<lambda>x. x\<lparr>b_lock := initsleeplock\<rparr>) s)) [0..<NBUF]
       (s\<lparr>bhead_prev := NBUF, bhead_next := NBUF\<rparr>)"

section \<open>Operations\<close>

fun bget_cached :: "nat \<Rightarrow> u32 \<Rightarrow> u32 \<Rightarrow> nat \<Rightarrow> 'a fsst_scheme \<Rightarrow> nat option res" where
  "bget_cached 0 dev blockno b s = Inl OutOfFuel"
| "bget_cached (Suc k) dev blockno b s =
     (if b = NBUF then Inr None
      else if b_dev (bufs s ! b) = dev \<and> b_blockno (bufs s ! b) = blockno then Inr (Some b)
      else bget_cached k dev blockno (bnext s b) s)"

fun bget_lru :: "nat \<Rightarrow> nat \<Rightarrow> 'a fsst_scheme \<Rightarrow> nat option res" where
  "bget_lru 0 b s = Inl OutOfFuel"
| "bget_lru (Suc k) b s =
     (if b = NBUF then Inr None
      else if b_refcnt (bufs s ! b) = 0 then Inr (Some b)
      else bget_lru k (bprev s b) s)"

definition bget :: "u32 \<Rightarrow> u32 \<Rightarrow> 'a fsst_scheme \<Rightarrow> (nat \<times> 'a fsst_scheme) res" where
  "bget dev blockno s =
     andthen (bget_cached (Suc NBUF) dev blockno (bnext s NBUF) s) (\<lambda>r.
       case r of
         Some b \<Rightarrow> andthen (lock_buf b (upd_buf b (\<lambda>x. x\<lparr>b_refcnt := b_refcnt x + 1\<rparr>) s)) (\<lambda>s1. Inr (b, s1))
       | None \<Rightarrow>
           andthen (bget_lru (Suc NBUF) (bprev s NBUF) s) (\<lambda>r.
             case r of
               Some b \<Rightarrow> andthen (lock_buf b (upd_buf b (\<lambda>x. x\<lparr>b_dev := dev, b_blockno := blockno, b_valid := False,
                                                         b_refcnt := 1\<rparr>) s)) (\<lambda>s1. Inr (b, s1))
             | None \<Rightarrow> Inl (Panic ''bget: no buffers'')))"

definition virtio_disk_rw :: "nat \<Rightarrow> bool \<Rightarrow> 'a fsst_scheme \<Rightarrow> 'a fsst_scheme" where
  "virtio_disk_rw b wr s =
     (let n = b_blockno (bufs s ! b) in
      if wr then s\<lparr>disk := (disk s)(n := b_data (bufs s ! b)), dwrites := dwrites s @ [(n, b_data (bufs s ! b))]\<rparr>
      else upd_buf b (\<lambda>x. x\<lparr>b_data := disk s n\<rparr>) s)"

definition bread :: "u32 \<Rightarrow> u32 \<Rightarrow> 'a fsst_scheme \<Rightarrow> (nat \<times> 'a fsst_scheme) res" where
  "bread dev blockno s =
     andthen (bget dev blockno s) (\<lambda>(b, s1).
       if \<not> b_valid (bufs s1 ! b)
       then Inr (b, upd_buf b (\<lambda>x. x\<lparr>b_valid := True\<rparr>) (virtio_disk_rw b False s1))
       else Inr (b, s1))"

definition bwrite :: "nat \<Rightarrow> 'a fsst_scheme \<Rightarrow> 'a fsst_scheme res" where
  "bwrite b s =
     (if \<not> holdingsleep (b_lock (bufs s ! b)) s then Inl (Panic ''bwrite'') else Inr (virtio_disk_rw b True s))"

definition brelse :: "nat \<Rightarrow> 'a fsst_scheme \<Rightarrow> 'a fsst_scheme res" where
  "brelse b s =
     (if \<not> holdingsleep (b_lock (bufs s ! b)) s then Inl (Panic ''brelse'')
      else let s1 = unlock_buf b s;
               s2 = upd_buf b (\<lambda>x. x\<lparr>b_refcnt := b_refcnt x - 1\<rparr>) s1
           in if b_refcnt (bufs s2 ! b) = 0 then Inr (link_front b (unlink_buf b s2)) else Inr s2)"

definition bpin :: "nat \<Rightarrow> 'a fsst_scheme \<Rightarrow> 'a fsst_scheme" where
  "bpin b s = upd_buf b (\<lambda>x. x\<lparr>b_refcnt := b_refcnt x + 1\<rparr>) s"

definition bunpin :: "nat \<Rightarrow> 'a fsst_scheme \<Rightarrow> 'a fsst_scheme" where
  "bunpin b s = upd_buf b (\<lambda>x. x\<lparr>b_refcnt := b_refcnt x - 1\<rparr>) s"

text \<open>Assigning to \<^verbatim>\<open>b->data\<close>.\<close>

definition set_data :: "nat \<Rightarrow> u8 list \<Rightarrow> 'a fsst_scheme \<Rightarrow> 'a fsst_scheme" where
  "set_data b d s = upd_buf b (\<lambda>x. x\<lparr>b_data := d\<rparr>) s"

abbreviation data_of :: "'a fsst_scheme \<Rightarrow> nat \<Rightarrow> u8 list" where
  "data_of s b \<equiv> b_data (bufs s ! b)"

section \<open>The ring as a list\<close>

text \<open>\<open>chain f a xs z\<close>: following \<open>f\<close> from \<open>a\<close> visits \<open>xs\<close> and ends in \<open>z\<close>.\<close>

fun chain :: "(nat \<Rightarrow> nat) \<Rightarrow> nat \<Rightarrow> nat list \<Rightarrow> nat \<Rightarrow> bool" where
  "chain f a [] z = (f a = z)"
| "chain f a (x # xs) z = (f a = x \<and> chain f x xs z)"

lemma chain_append: "chain f a (us @ b # vs) z \<longleftrightarrow> chain f a us b \<and> chain f b vs z"
  by (induction us arbitrary: a) auto

lemma chain_cong: "(\<And>x. x \<in> set (a # xs) \<Longrightarrow> f x = g x) \<Longrightarrow> chain f a xs z = chain g a xs z"
  by (induction xs arbitrary: a) auto

lemma chain_redirect:
  "chain f a us b \<Longrightarrow> distinct (a # us) \<Longrightarrow> chain (f(last (a # us) := z)) a us z"
proof (induction us arbitrary: a)
  case (Cons x us)
  then show ?case by auto
qed simp

lemma chain_first: "chain f a xs z \<Longrightarrow> f a = hd (xs @ [z])"
  by (cases xs) auto

lemma chain_last: "chain f a xs z \<Longrightarrow> f (last (a # xs)) = z"
  by (induction xs arbitrary: a) auto

text \<open>The two directions of the ring agree on the list of buffers, most recently used first.\<close>

definition ring_of :: "'a fsst_scheme \<Rightarrow> nat list \<Rightarrow> bool" where
  "ring_of s xs =
     (length (bufs s) = NBUF \<and> distinct xs \<and> set xs \<subseteq> {..<NBUF} \<and> chain (bnext s) NBUF xs NBUF \<and>
      chain (bprev s) NBUF (rev xs) NBUF)"

definition lru :: "'a fsst_scheme \<Rightarrow> nat list \<Rightarrow> bool" where
  "lru s xs = (ring_of s xs \<and> set xs = {..<NBUF})"

lemma chain_remove:
  assumes "chain f a (us @ b # vs) z" "distinct (a # us @ b # vs)"
  shows "chain (f(last (a # us) := f b)) a (us @ vs) z"
proof (cases vs)
  case Nil
  with assms have "chain f a us b" "f b = z" by (auto simp: chain_append)
  with chain_redirect[of f a us b z] assms(2) Nil show ?thesis by simp
next
  case (Cons v ws)
  with assms have c: "chain f a us b" "f b = v" "chain f v ws z" by (auto simp: chain_append)
  have "last (a # us) \<notin> set (v # ws)" using assms(2) Cons by (cases us rule: rev_cases) auto
  then have "chain (f(last (a # us) := f b)) v ws z"
    using c(3) by (subst chain_cong[of v ws _ f]) auto
  moreover have "chain (f(last (a # us) := v)) a us v" using c(1) assms(2) by (intro chain_redirect) auto
  ultimately show ?thesis using Cons c(2) by (simp add: chain_append)
qed

lemma chain_push:
  "chain f a xs z \<Longrightarrow> b \<notin> set (a # xs) \<Longrightarrow> a \<notin> set xs \<Longrightarrow> chain (f(b := f a, a := b)) a (b # xs) z"
proof (cases xs)
  case (Cons y ys)
  assume "chain f a xs z" "b \<notin> set (a # xs)" "a \<notin> set xs"
  moreover from this have "chain (f(b := y, a := b)) y ys z = chain f y ys z" using Cons by (intro chain_cong) auto
  ultimately show ?thesis using Cons by auto
qed auto

lemma chain_snoc:
  "chain f a xs z \<Longrightarrow> b \<notin> set (a # xs) \<Longrightarrow> distinct (a # xs) \<Longrightarrow> chain (f(b := z, last (a # xs) := b)) a (xs @ [b]) z"
proof -
  assume "chain f a xs z" "b \<notin> set (a # xs)" "distinct (a # xs)"
  moreover from this have "chain (f(b := z)) a xs z" by (subst chain_cong[of a xs _ f]) auto
  ultimately have "chain ((f(b := z))(last (a # xs) := b)) a xs b" by (intro chain_redirect) auto
  moreover have "last (a # xs) \<noteq> b" using \<open>b \<notin> set (a # xs)\<close> last_in_set[of "a # xs"] by auto
  ultimately show ?thesis by (simp add: chain_append)
qed

lemma nth_list_update_if: "xs[i := y] ! j = (if i = j \<and> j < length xs then y else xs ! j)"
  by (cases "i < length xs") (auto simp: nth_list_update list_update_beyond)

text \<open>What the assignments to the links do.\<close>

lemma bnext_set_next: "i \<le> NBUF \<Longrightarrow> length (bufs s) = NBUF \<Longrightarrow> bnext (set_next i j s) = (bnext s)(i := j)"
  by (rule ext) (auto simp: bnext_def set_next_def upd_buf_def nth_list_update)

lemma bprev_set_prev: "i \<le> NBUF \<Longrightarrow> length (bufs s) = NBUF \<Longrightarrow> bprev (set_prev i j s) = (bprev s)(i := j)"
  by (rule ext) (auto simp: bprev_def set_prev_def upd_buf_def nth_list_update)

lemma bprev_set_next [simp]: "bprev (set_next i j s) = bprev s"
  by (rule ext) (auto simp: bprev_def set_next_def upd_buf_def nth_list_update_if)

lemma bnext_set_prev [simp]: "bnext (set_prev i j s) = bnext s"
  by (rule ext) (auto simp: bnext_def set_prev_def upd_buf_def nth_list_update_if)

lemma length_set_links [simp]:
  "length (bufs (set_next i j s)) = length (bufs s)" "length (bufs (set_prev i j s)) = length (bufs s)"
  by (simp_all add: set_next_def set_prev_def)

lemma bnext_unlink:
  assumes "bprev s b \<le> NBUF" "bnext s b \<le> NBUF" "length (bufs s) = NBUF"
  shows "bnext (unlink_buf b s) = (bnext s)(bprev s b := bnext s b)"
    and "bprev (unlink_buf b s) = (bprev s)(bnext s b := bprev s b)"
  using assms by (simp_all add: unlink_buf_def Let_def bnext_set_next bprev_set_prev fun_upd_def)

lemma bnext_link:
  assumes "b < NBUF" "bnext s NBUF \<le> NBUF" "length (bufs s) = NBUF"
  shows "bnext (link_front b s) = (bnext s)(b := bnext s NBUF, NBUF := b)"
    and "bprev (link_front b s) = (bprev s)(b := NBUF, bnext s NBUF := b)"
  using assms by (simp_all add: link_front_def Let_def bnext_set_next bprev_set_prev)

lemma length_link_unlink [simp]:
  "length (bufs (link_front b s)) = length (bufs s)" "length (bufs (unlink_buf b s)) = length (bufs s)"
  by (simp_all add: link_front_def unlink_buf_def Let_def)

lemma last_rev_hd: "last (a # rev xs) = hd (xs @ [a])"
  by (cases xs) auto

lemma ring_remove:
  assumes "ring_of s (us @ b # vs)"
  shows "ring_of (unlink_buf b s) (us @ vs)"
proof -
  let ?h = NBUF
  from assms have r: "length (bufs s) = ?h" "distinct (us @ b # vs)" "set (us @ b # vs) \<subseteq> {..<?h}"
    "chain (bnext s) ?h (us @ b # vs) ?h" "chain (bprev s) ?h (rev vs @ b # rev us) ?h"
    by (auto simp: ring_of_def)
  have nx: "bnext s b = last (?h # rev vs)"
    using r(4) chain_first[of "bnext s" b vs ?h] by (simp add: chain_append last_rev_hd del: last.simps)
  have pv: "bprev s b = last (?h # us)"
    using r(5) chain_first[of "bprev s" b "rev us" ?h] last_rev_hd[of ?h "rev us"] by (simp add: chain_append del: last.simps)
  have mem: "last (?h # rev vs) \<in> set (?h # vs)" "last (?h # us) \<in> set (?h # us)"
    using last_in_set[of "?h # rev vs"] last_in_set[of "?h # us"] by simp_all
  then have b: "bnext s b \<le> ?h" "bprev s b \<le> ?h" unfolding nx pv using r(3) by fastforce+
  have "chain ((bnext s)(last (?h # us) := bnext s b)) ?h (us @ vs) ?h"
    "chain ((bprev s)(last (?h # rev vs) := bprev s b)) ?h (rev vs @ rev us) ?h"
    using r by (auto intro!: chain_remove simp del: last.simps)
  then show ?thesis
    using r unfolding ring_of_def bnext_unlink[OF b(2,1) r(1)] nx[symmetric] pv[symmetric] by simp
qed

lemma ring_push:
  assumes "ring_of s xs" "b < NBUF" "b \<notin> set xs"
  shows "ring_of (link_front b s) (b # xs)"
proof -
  let ?h = NBUF
  from assms have r: "length (bufs s) = ?h" "distinct xs" "set xs \<subseteq> {..<?h}"
    "chain (bnext s) ?h xs ?h" "chain (bprev s) ?h (rev xs) ?h" "?h \<notin> set xs"
    by (auto simp: ring_of_def)
  have nx: "bnext s ?h = last (?h # rev xs)" using chain_first[OF r(4)] by (simp only: last_rev_hd)
  have "last (?h # rev xs) \<in> set (?h # xs)" using last_in_set[of "?h # rev xs"] by simp
  then have b: "bnext s ?h \<le> ?h" unfolding nx using r(3) by fastforce
  have "chain ((bnext s)(b := bnext s ?h, ?h := b)) ?h (b # xs) ?h" using r assms by (intro chain_push) auto
  moreover have "chain ((bprev s)(b := ?h, last (?h # rev xs) := b)) ?h (rev xs @ [b]) ?h"
    using r assms by (intro chain_snoc) auto
  ultimately show ?thesis
    using r assms unfolding ring_of_def bnext_link[OF assms(2) b r(1)] nx[symmetric] by simp
qed

lemma lru_move:
  assumes "lru s xs" "b < NBUF"
  shows "lru (link_front b (unlink_buf b s)) (b # remove1 b xs)"
proof -
  from assms have "b \<in> set xs" "distinct xs" by (auto simp: lru_def ring_of_def)
  then obtain us vs where xs: "xs = us @ b # vs" "b \<notin> set us" "b \<notin> set vs"
    by (metis distinct.simps(2) distinct_append not_distinct_conv_prefix split_list)
  have "ring_of (link_front b (unlink_buf b s)) (b # us @ vs)"
    using assms xs by (intro ring_push ring_remove) (auto simp: lru_def)
  then show ?thesis using assms xs by (auto simp: lru_def remove1_append)
qed

text \<open>A change of other fields of the buffers keeps the ring.\<close>

lemma ring_cong:
  assumes "length (bufs s') = length (bufs s)" "bhead_next s' = bhead_next s" "bhead_prev s' = bhead_prev s"
    "\<And>i. i < length (bufs s) \<Longrightarrow> b_next (bufs s' ! i) = b_next (bufs s ! i) \<and> b_prev (bufs s' ! i) = b_prev (bufs s ! i)"
  shows "ring_of s' xs = ring_of s xs"
proof -
  have c: "chain (bnext s') NBUF xs NBUF = chain (bnext s) NBUF xs NBUF"
    "chain (bprev s') NBUF (rev xs) NBUF = chain (bprev s) NBUF (rev xs) NBUF"
    if "length (bufs s) = NBUF" "set xs \<subseteq> {..<NBUF}"
    using that assms by (auto intro!: chain_cong simp: bnext_def bprev_def subset_iff)
  show ?thesis unfolding ring_of_def using c assms(1) by auto
qed

lemma ring_upd_buf:
  assumes "\<And>x. b_next (f x) = b_next x" "\<And>x. b_prev (f x) = b_prev x"
  shows "ring_of (upd_buf b f s) xs = ring_of s xs"
  by (rule ring_cong) (auto simp: upd_buf_def nth_list_update_if assms)

lemma binit_lru:
  assumes "length (bufs s) = NBUF"
  shows "lru (binit s) (rev [0..<NBUF])"
proof -
  let ?f = "\<lambda>b s. link_front b (upd_buf b (\<lambda>x. x\<lparr>b_lock := initsleeplock\<rparr>) s)"
  have "ring_of (fold ?f [0..<k] (s\<lparr>bhead_prev := NBUF, bhead_next := NBUF\<rparr>)) (rev [0..<k])" if "k \<le> NBUF" for k
    using that
  proof (induction k)
    case 0
    then show ?case using assms by (simp add: ring_of_def bnext_def bprev_def)
  next
    case (Suc k)
    let ?t = "fold ?f [0..<k] (s\<lparr>bhead_prev := NBUF, bhead_next := NBUF\<rparr>)"
    from Suc have "ring_of ?t (rev [0..<k])" by simp
    then have "ring_of (upd_buf k (\<lambda>x. x\<lparr>b_lock := initsleeplock\<rparr>) ?t) (rev [0..<k])"
      by (simp add: ring_upd_buf)
    then show ?case using Suc.prems by (auto intro: ring_push)
  qed
  from this[of NBUF] show ?thesis by (auto simp: lru_def binit_def)
qed

lemma find_SomeD: "find P xs = Some x \<Longrightarrow> x \<in> set xs \<and> P x"
  by (induction xs) (auto split: if_splits)

lemma find_skip: "\<forall>x \<in> set vs. \<not> P x \<Longrightarrow> P b \<Longrightarrow> find P (vs @ b # us) = Some b"
  by (induction vs) auto

text \<open>The two scans of \<^verbatim>\<open>bget\<close> find the most, respectively the least, recently used match.\<close>

lemma bget_cached_find:
  assumes "lru s xs"
  shows "bget_cached (Suc NBUF) dev n (bnext s NBUF) s
           = Inr (find (\<lambda>b. b_dev (bufs s ! b) = dev \<and> b_blockno (bufs s ! b) = n) xs)"
proof -
  have "chain (bnext s) a ys NBUF \<Longrightarrow> NBUF \<notin> set ys \<Longrightarrow> length ys < k \<Longrightarrow>
    bget_cached k dev n (bnext s a) s = Inr (find (\<lambda>b. b_dev (bufs s ! b) = dev \<and> b_blockno (bufs s ! b) = n) ys)"
    for a ys k
  proof (induction ys arbitrary: a k)
    case Nil
    then show ?case by (cases k) auto
  next
    case (Cons y ys)
    then show ?case by (cases k) auto
  qed
  moreover have "length xs = NBUF"
    using assms distinct_card[of xs] by (simp add: lru_def ring_of_def)
  ultimately show ?thesis using assms by (auto simp: lru_def ring_of_def simp del: bget_cached.simps)
qed

lemma bget_lru_find:
  assumes "lru s xs"
  shows "bget_lru (Suc NBUF) (bprev s NBUF) s = Inr (find (\<lambda>b. b_refcnt (bufs s ! b) = 0) (rev xs))"
proof -
  have "chain (bprev s) a ys NBUF \<Longrightarrow> NBUF \<notin> set ys \<Longrightarrow> length ys < k \<Longrightarrow>
    bget_lru k (bprev s a) s = Inr (find (\<lambda>b. b_refcnt (bufs s ! b) = 0) ys)" for a ys k
  proof (induction ys arbitrary: a k)
    case Nil
    then show ?case by (cases k) auto
  next
    case (Cons y ys)
    then show ?case by (cases k) auto
  qed
  moreover have "length (rev xs) = NBUF"
    using assms distinct_card[of xs] by (simp add: lru_def ring_of_def)
  ultimately show ?thesis using assms by (auto simp: lru_def ring_of_def simp del: bget_lru.simps)
qed

section \<open>The cache as a view of the disk\<close>

text \<open>
  What a reader of block \<open>n\<close> gets: the cached copy where there is one, else the block on the disk.
\<close>

definition holds_blk :: "'a fsst_scheme \<Rightarrow> nat \<Rightarrow> u32 \<Rightarrow> bool" where
  "holds_blk s i n = (b_dev (bufs s ! i) = ROOTDEV \<and> b_blockno (bufs s ! i) = n)"

definition blk :: "'a fsst_scheme \<Rightarrow> u32 \<Rightarrow> u8 list" where
  "blk s n = (case find (\<lambda>i. holds_blk s i n \<and> b_valid (bufs s ! i)) [0..<NBUF] of
                Some i \<Rightarrow> data_of s i | None \<Rightarrow> disk s n)"

text \<open>
  The state of the cache between calls, with \<open>P\<close> the blocks that the log has pinned, \<open>H\<close> the
  buffers that the running process \<open>pid\<close> holds, nobody else holding any: a buffer's count is its
  holder plus its pin; a buffer that is neither held nor pinned agrees with the disk; no block is
  cached twice.
\<close>

definition cur_ok :: "'a fsst_scheme \<Rightarrow> int \<Rightarrow> bool" where
  "cur_ok s pid = (case curproc s of None \<Rightarrow> False | Some p \<Rightarrow> p < length (procs s) \<and> p_pid (procs s ! p) = pid)"

definition buf_ok :: "(u32 \<Rightarrow> u8 list) \<Rightarrow> u32 set \<Rightarrow> int \<Rightarrow> bool \<Rightarrow> buf \<Rightarrow> bool" where
  "buf_ok d P pid h x =
     (b_refcnt x = (if h then 1 else 0) + (if b_dev x = ROOTDEV \<and> b_blockno x \<in> P then 1 else 0) \<and>
      slk_locked (b_lock x) = h \<and>
      (h \<longrightarrow> slk_pid (b_lock x) = pid \<and> b_valid x \<and> b_dev x = ROOTDEV) \<and>
      (b_dev x = ROOTDEV \<and> b_blockno x \<in> P \<longrightarrow> b_valid x) \<and>
      (b_dev x = ROOTDEV \<and> b_valid x \<longrightarrow>
         length (b_data x) = BSIZE \<and> (\<not> h \<and> b_blockno x \<notin> P \<longrightarrow> b_data x = d (b_blockno x))))"

definition bc_inv :: "'a fsst_scheme \<Rightarrow> u32 set \<Rightarrow> nat set \<Rightarrow> int \<Rightarrow> bool" where
  "bc_inv s P H pid =
     ((\<exists>xs. lru s xs) \<and> cur_ok s pid \<and> H \<subseteq> {..<NBUF} \<and> (\<forall>n. length (disk s n) = BSIZE) \<and>
      (\<forall>i < NBUF. buf_ok (disk s) P pid (i \<in> H) (bufs s ! i)) \<and>
      (\<forall>n \<in> P. \<exists>i < NBUF. holds_blk s i n) \<and>
      (\<forall>n. \<forall>i < NBUF. \<forall>j < NBUF. holds_blk s i n \<and> holds_blk s j n \<longrightarrow> i = j))"

lemma bc_invD:
  assumes "bc_inv s P H pid"
  shows "\<exists>xs. lru s xs" "length (bufs s) = NBUF" "cur_ok s pid" "H \<subseteq> {..<NBUF}" "length (disk s n) = BSIZE"
    "i < NBUF \<Longrightarrow> buf_ok (disk s) P pid (i \<in> H) (bufs s ! i)"
    "n \<in> P \<Longrightarrow> \<exists>i < NBUF. holds_blk s i n"
    "i < NBUF \<Longrightarrow> j < NBUF \<Longrightarrow> holds_blk s i n \<Longrightarrow> holds_blk s j n \<Longrightarrow> i = j"
  using assms by (auto simp: bc_inv_def lru_def ring_of_def)

lemma bc_invI:
  assumes "lru s xs" "cur_ok s pid" "H \<subseteq> {..<NBUF}" "\<And>n. length (disk s n) = BSIZE"
    "\<And>i. i < NBUF \<Longrightarrow> buf_ok (disk s) P pid (i \<in> H) (bufs s ! i)"
    "\<And>n. n \<in> P \<Longrightarrow> \<exists>i < NBUF. holds_blk s i n"
    "\<And>n i j. i < NBUF \<Longrightarrow> j < NBUF \<Longrightarrow> holds_blk s i n \<Longrightarrow> holds_blk s j n \<Longrightarrow> i = j"
  shows "bc_inv s P H pid"
  unfolding bc_inv_def using assms by blast

lemma blk_cached:
  assumes "bc_inv s P H pid" "i < NBUF" "holds_blk s i n" "b_valid (bufs s ! i)"
  shows "blk s n = data_of s i"
proof (cases "find (\<lambda>i. holds_blk s i n \<and> b_valid (bufs s ! i)) [0..<NBUF]")
  case None
  then show ?thesis using assms by (auto simp: find_None_iff)
next
  case (Some j)
  then have "j < NBUF" "holds_blk s j n" by (auto simp: find_Some_iff)
  with bc_invD(8)[OF assms(1,2)] assms Some show ?thesis by (auto simp: blk_def)
qed

lemma blk_uncached: "\<forall>i < NBUF. holds_blk s i n \<longrightarrow> \<not> b_valid (bufs s ! i) \<Longrightarrow> blk s n = disk s n"
  by (auto simp: blk_def find_Some_iff split: option.split)

lemma blk_clean:
  assumes "bc_inv s P H pid" "n \<notin> P" "\<forall>i \<in> H. \<not> holds_blk s i n"
  shows "blk s n = disk s n"
proof (cases "\<exists>i < NBUF. holds_blk s i n \<and> b_valid (bufs s ! i)")
  case True
  then obtain i where i: "i < NBUF" "holds_blk s i n" "b_valid (bufs s ! i)" by blast
  then show ?thesis using blk_cached[OF assms(1) i] bc_invD(6)[OF assms(1) i(1)] assms(2,3)
    by (auto simp: buf_ok_def holds_blk_def)
next
  case False
  then show ?thesis by (intro blk_uncached) blast
qed

text \<open>There is a free buffer as long as fewer buffers are held and pinned than there are.\<close>

lemma free_buffer:
  assumes inv: "bc_inv s P H pid" and room: "card P + card H < NBUF"
  shows "\<exists>i < NBUF. b_refcnt (bufs s ! i) = 0"
proof (rule ccontr)
  assume "\<not> ?thesis"
  then have all: "i \<in> H \<or> holds_blk s i (b_blockno (bufs s ! i)) \<and> b_blockno (bufs s ! i) \<in> P" if "i < NBUF" for i
    using bc_invD(6)[OF inv that] that by (auto simp: buf_ok_def holds_blk_def split: if_splits)
  let ?R = "{i. i < NBUF \<and> i \<notin> H}"
  have "inj_on (\<lambda>i. b_blockno (bufs s ! i)) ?R"
    using all bc_invD(8)[OF inv] by (intro inj_onI) (metis (mono_tags, lifting) mem_Collect_eq)
  moreover have "(\<lambda>i. b_blockno (bufs s ! i)) ` ?R \<subseteq> P" using all by auto
  ultimately have "card ?R \<le> card P" by (meson card_inj_on_le finite)
  moreover have "card {..<NBUF} \<le> card ?R + card H"
    using card_Un_le[of ?R H] bc_invD(4)[OF inv]
    by (metis (mono_tags, lifting) Un_iff card_mono finite_Un finite_lessThan finite_subset le_trans lessThan_iff mem_Collect_eq subsetI finite_Collect_conjI finite_Collect_less_nat)
  ultimately show False using room by simp
qed

text \<open>\<^verbatim>\<open>bread\<close> takes the buffer of the block, or an unused one, fills it if need be and locks it.\<close>

definition taken :: "u32 set \<Rightarrow> int \<Rightarrow> u32 \<Rightarrow> u8 list \<Rightarrow> buf \<Rightarrow> buf" where
  "taken P pid n d x =
     x\<lparr>b_dev := ROOTDEV, b_blockno := n, b_valid := True, b_refcnt := (if n \<in> P then 2 else 1),
       b_lock := \<lparr>slk_locked = True, slk_pid = pid\<rparr>, b_data := d\<rparr>"

lemma lock_buf_free:
  assumes "cur_ok s pid" "\<not> slk_locked (b_lock (bufs s ! b))"
  shows "lock_buf b s = Inr (upd_buf b (\<lambda>x. x\<lparr>b_lock := \<lparr>slk_locked = True, slk_pid = pid\<rparr>\<rparr>) s)"
  using assms by (auto simp: lock_buf_def acquiresleep_def cur_ok_def split: option.splits)

lemma cur_ok_upd_buf [simp]: "cur_ok (upd_buf b f s) pid = cur_ok s pid"
  by (simp add: cur_ok_def split: option.split)

lemma bufs_upd_buf: "b < length (bufs s) \<Longrightarrow> bufs (upd_buf b f s) ! i = (if i = b then f (bufs s ! b) else bufs s ! i)"
  by (simp add: upd_buf_def nth_list_update)

lemma upd_buf_twice [simp]: "upd_buf b g (upd_buf b f s) = upd_buf b (\<lambda>x. g (f x)) s" if "b < length (bufs s)"
  using that by (simp add: upd_buf_def)

lemma upd_buf_eqI: "f (bufs s ! b) = g (bufs s ! b) \<Longrightarrow> upd_buf b f s = upd_buf b g s"
  by (simp add: upd_buf_def)

lemma bread_eq:
  assumes inv: "bc_inv s P H pid" and nh: "\<forall>i \<in> H. \<not> holds_blk s i n"
    and room: "n \<in> P \<or> card P + card H < NBUF"
  obtains b where "b < NBUF" "b \<notin> H" "holds_blk s b n \<or> b_refcnt (bufs s ! b) = 0 \<and> (\<forall>i < NBUF. \<not> holds_blk s i n)"
    "bread ROOTDEV n s = Inr (b, upd_buf b (taken P pid n (blk s n)) s)"
proof -
  obtain xs where xs: "lru s xs" using bc_invD(1)[OF inv] by blast
  then have st: "set xs = {..<NBUF}" by (simp add: lru_def)
  let ?h = "\<lambda>b. b_dev (bufs s ! b) = ROOTDEV \<and> b_blockno (bufs s ! b) = n"
  note len = bc_invD(2)[OF inv] and cur = bc_invD(3)[OF inv] and ok = bc_invD(6)[OF inv]
  show ?thesis
  proof (cases "find ?h xs")
    case (Some b)
    then have b: "b < NBUF" "holds_blk s b n" using st by (auto simp: find_Some_iff holds_blk_def)
    then have bH: "b \<notin> H" using nh by blast
    note okb = ok[OF b(1)]
    have "blk s n = (if b_valid (bufs s ! b) then data_of s b else disk s n)"
    proof (cases "b_valid (bufs s ! b)")
      case False
      then have "\<forall>i < NBUF. holds_blk s i n \<longrightarrow> \<not> b_valid (bufs s ! i)" using bc_invD(8)[OF inv b(1)] b(2) by blast
      with blk_uncached False show ?thesis by auto
    qed (use blk_cached[OF inv b] in simp)
    then have "bread ROOTDEV n s = Inr (b, upd_buf b (taken P pid n (blk s n)) s)"
      using Some xs b bH okb cur len
      by (auto simp: bread_def bget_def bget_cached_find lock_buf_free bufs_upd_buf buf_ok_def holds_blk_def taken_def
          virtio_disk_rw_def Let_def simp del: bget_cached.simps intro!: upd_buf_eqI split: if_splits)
    with b bH show ?thesis by (intro that) auto
  next
    case None
    then have none: "\<forall>i < NBUF. \<not> holds_blk s i n" using st by (auto simp: find_None_iff holds_blk_def)
    with bc_invD(7)[OF inv] have nP: "n \<notin> P" by blast
    with room free_buffer[OF inv] obtain i where "i < NBUF" "b_refcnt (bufs s ! i) = 0" by auto
    with st obtain b where b: "find (\<lambda>b. b_refcnt (bufs s ! b) = 0) (rev xs) = Some b"
      by (cases "find (\<lambda>b. b_refcnt (bufs s ! b) = 0) (rev xs)") (auto simp: find_None_iff)
    then have b': "b \<in> set (rev xs)" "b_refcnt (bufs s ! b) = 0"
      by (auto dest: find_SomeD)
    then have lt: "b < NBUF" using st by simp
    then have bH: "b \<notin> H" using ok[OF lt] b' by (auto simp: buf_ok_def split: if_splits)
    have "blk s n = disk s n" using none by (intro blk_uncached) blast
    then have "bread ROOTDEV n s = Inr (b, upd_buf b (taken P pid n (blk s n)) s)"
      using None xs b lt bH ok[OF lt] cur len nP
      by (auto simp: bread_def bget_def bget_cached_find bget_lru_find lock_buf_free bufs_upd_buf buf_ok_def taken_def
          virtio_disk_rw_def Let_def simp del: bget_cached.simps bget_lru.simps intro!: upd_buf_eqI)
    with lt bH b' none show ?thesis by (intro that) auto
  qed
qed

lemma lru_upd_buf:
  assumes "\<And>x. b_next (f x) = b_next x" "\<And>x. b_prev (f x) = b_prev x"
  shows "lru (upd_buf b f s) xs = lru s xs"
  by (simp add: lru_def ring_upd_buf assms)

lemma taken_inv:
  assumes inv: "bc_inv s P H pid" and nh: "\<forall>i \<in> H. \<not> holds_blk s i n" and b: "b < NBUF" "b \<notin> H"
    and h: "holds_blk s b n \<or> b_refcnt (bufs s ! b) = 0 \<and> (\<forall>i < NBUF. \<not> holds_blk s i n)"
  shows "bc_inv (upd_buf b (taken P pid n (blk s n)) s) P (insert b H) pid"
    and "blk (upd_buf b (taken P pid n (blk s n)) s) = blk s"
proof -
  let ?s = "upd_buf b (taken P pid n (blk s n)) s"
  note len = bc_invD(2)[OF inv]
  have B: "bufs ?s ! i = (if i = b then taken P pid n (blk s n) (bufs s ! b) else bufs s ! i)" for i
    using len b by (simp add: bufs_upd_buf)
  have hb: "holds_blk ?s i m = (if i = b then m = n else holds_blk s i m)" for i m
    by (auto simp: holds_blk_def B taken_def)
  have only: "i = b" if "i < NBUF" "holds_blk s i n" for i using h bc_invD(8)[OF inv that(1) b(1) that(2)] that by blast
  have lenb: "length (blk s n) = BSIZE"
    using bc_invD(5,6)[OF inv] by (auto simp: blk_def find_Some_iff holds_blk_def buf_ok_def split: option.split)
  have lose: "b_dev (bufs s ! b) = ROOTDEV \<and> b_blockno (bufs s ! b) \<in> P \<longrightarrow> b_blockno (bufs s ! b) = n"
    using h bc_invD(6)[OF inv b(1)] by (auto simp: holds_blk_def buf_ok_def split: if_splits)
  have pin: "\<exists>i < NBUF. holds_blk ?s i m" if "m \<in> P" for m
    using bc_invD(7)[OF inv that] lose that b(1) unfolding hb by (metis holds_blk_def)
  have ok: "buf_ok (disk ?s) P pid (i \<in> insert b H) (bufs ?s ! i)" if "i < NBUF" for i
  proof (cases "i = b")
    case True
    then show ?thesis using lenb by (simp add: B buf_ok_def taken_def)
  next
    case False
    then show ?thesis using bc_invD(6)[OF inv that] by (simp add: B)
  qed
  have uq: "i = j" if "i < NBUF" "j < NBUF" "holds_blk ?s i m" "holds_blk ?s j m" for i j m
    using that(3,4) unfolding hb by (metis bc_invD(8)[OF inv that(1,2)] only[OF that(1)] only[OF that(2)])
  obtain xs where "lru s xs" using bc_invD(1)[OF inv] by blast
  then have "lru ?s xs" by (simp add: lru_upd_buf taken_def)
  from bc_invI[OF this _ _ _ ok pin uq] show inv': "bc_inv ?s P (insert b H) pid"
    using bc_invD(3-5)[OF inv] b by simp
  show "blk ?s = blk s"
  proof
    fix m
    show "blk ?s m = blk s m"
    proof (cases "m = n")
      case True
      then show ?thesis using blk_cached[OF inv' b(1), of m] by (simp add: hb B taken_def)
    next
      case mn: False
      show ?thesis
      proof (cases "\<exists>i < NBUF. i \<noteq> b \<and> holds_blk s i m \<and> b_valid (bufs s ! i)")
        case True
        then obtain i where i: "i < NBUF" "i \<noteq> b" "holds_blk s i m" "b_valid (bufs s ! i)" by blast
        then show ?thesis using blk_cached[OF inv' i(1), of m] blk_cached[OF inv i(1,3,4)] by (simp add: hb B)
      next
        case False
        then have "\<forall>i < NBUF. holds_blk ?s i m \<longrightarrow> \<not> b_valid (bufs ?s ! i)" using mn by (auto simp: hb B)
        from blk_uncached[OF this] have "blk ?s m = disk s m" by simp
        moreover have "blk s m = disk s m"
        proof (cases "holds_blk s b m")
          case True
          then have "m \<notin> P" using lose mn by (auto simp: holds_blk_def)
          moreover have "\<forall>i \<in> H. \<not> holds_blk s i m" using bc_invD(4,8)[OF inv] b True by (metis in_mono lessThan_iff)
          ultimately show ?thesis by (rule blk_clean[OF inv])
        qed (use False blk_uncached in metis)
        ultimately show ?thesis by simp
      qed
    qed
  qed
qed

text \<open>What the operations on buffers leave alone, and that they wake processes at most.\<close>

definition woken :: "proc list \<Rightarrow> proc list \<Rightarrow> bool" where
  "woken = list_all2 (\<lambda>q q'. q' = q \<or> p_state q = SLEEPING \<and> q' = q\<lparr>p_state := RUNNABLE\<rparr>)"

definition bio_strip :: "'a fsst_scheme \<Rightarrow> 'a fsst_scheme" where
  "bio_strip s = s\<lparr>procs := [], uart_out := [], disk := (\<lambda>_. []), dwrites := [], bufs := [], bhead_prev := 0, bhead_next := 0\<rparr>"

definition bio_frame :: "'a fsst_scheme \<Rightarrow> 'a fsst_scheme \<Rightarrow> bool" where
  "bio_frame s s' = (bio_strip s' = bio_strip s \<and> woken (procs s) (procs s'))"

lemma woken_refl [simp]: "woken ps ps"
  by (simp add: woken_def list_all2_refl)

lemma woken_trans:
  assumes "woken ps qs" "woken qs rs"
  shows "woken ps rs"
  unfolding woken_def by (rule list_all2_trans[OF _ assms[unfolded woken_def]]) auto

lemma bio_frame_refl [simp]: "bio_frame s s"
  by (simp add: bio_frame_def)

lemma bio_frame_trans: "bio_frame s s1 \<Longrightarrow> bio_frame s1 s2 \<Longrightarrow> bio_frame s s2"
  by (auto simp: bio_frame_def intro: woken_trans)

lemma bio_strip_fields:
  "lg (bio_strip s) = lg s" "sb (bio_strip s) = sb s" "itable (bio_strip s) = itable s" "files (bio_strip s) = files s"
  "pipes (bio_strip s) = pipes s" "curproc (bio_strip s) = curproc s" "mem (bio_strip s) = mem s"
  by (simp_all add: bio_strip_def)

lemma bio_frame_fields:
  assumes "bio_frame s s'"
  shows "lg s' = lg s" "sb s' = sb s" "itable s' = itable s" "files s' = files s" "pipes s' = pipes s"
    "curproc s' = curproc s" "mem s' = mem s" "woken (procs s) (procs s')"
  using assms bio_strip_fields[of s] bio_strip_fields[of s'] by (simp_all add: bio_frame_def)

lemma bio_frame_upd [simp]:
  "bio_frame s (upd_buf b f s') = bio_frame s s'" "bio_frame s (s'\<lparr>disk := d, dwrites := ws\<rparr>) = bio_frame s s'"
  "bio_frame s (set_next b j s') = bio_frame s s'" "bio_frame s (set_prev b j s') = bio_frame s s'"
  by (simp_all add: bio_frame_def bio_strip_def upd_buf_def set_next_def set_prev_def)

lemma bio_frame_link [simp]:
  "bio_frame s (link_front b s') = bio_frame s s'" "bio_frame s (unlink_buf b s') = bio_frame s s'"
  by (simp_all add: link_front_def unlink_buf_def Let_def)

lemma cur_ok_frame: "bio_frame s s' \<Longrightarrow> cur_ok s pid \<Longrightarrow> cur_ok s' pid"
  using bio_frame_fields(6,8)[of s s']
  by (auto simp: cur_ok_def woken_def list_all2_conv_all_nth split: option.splits)

text \<open>Buffers up to their links.\<close>

definition nolinks :: "buf \<Rightarrow> buf" where
  "nolinks x = x\<lparr>b_prev := 0, b_next := 0\<rparr>"

lemma nolinks_eqD:
  "nolinks x = nolinks y \<Longrightarrow>
     b_valid x = b_valid y \<and> b_dev x = b_dev y \<and> b_blockno x = b_blockno y \<and> b_lock x = b_lock y \<and>
     b_refcnt x = b_refcnt y \<and> b_data x = b_data y"
  by (cases x; cases y) (simp add: nolinks_def)

lemma nolinks_set [simp]:
  "nolinks (bufs (set_next i j s) ! k) = nolinks (bufs s ! k)" "nolinks (bufs (set_prev i j s) ! k) = nolinks (bufs s ! k)"
  by (auto simp: set_next_def set_prev_def upd_buf_def nth_list_update_if nolinks_def)

lemma nolinks_link [simp]:
  "nolinks (bufs (link_front b s) ! k) = nolinks (bufs s ! k)" "nolinks (bufs (unlink_buf b s) ! k) = nolinks (bufs s ! k)"
  by (simp_all add: link_front_def unlink_buf_def Let_def)

lemma disk_set [simp]:
  "disk (set_next i j s) = disk s" "disk (set_prev i j s) = disk s"
  "dwrites (set_next i j s) = dwrites s" "dwrites (set_prev i j s) = dwrites s"
  by (simp_all add: set_next_def set_prev_def)

lemma disk_link [simp]:
  "disk (link_front b s) = disk s" "disk (unlink_buf b s) = disk s"
  "dwrites (link_front b s) = dwrites s" "dwrites (unlink_buf b s) = dwrites s"
  by (simp_all add: link_front_def unlink_buf_def Let_def)

text \<open>The invariant and the view do not depend on the links, apart from the ring itself.\<close>

lemma nolinks_view:
  assumes "\<And>i. i < NBUF \<Longrightarrow> nolinks (bufs s' ! i) = nolinks (bufs s ! i)" "disk s' = disk s"
  shows "i < NBUF \<Longrightarrow> holds_blk s' i n = holds_blk s i n" "blk s' = blk s"
    "i < NBUF \<Longrightarrow> buf_ok d P pid h (bufs s' ! i) = buf_ok d P pid h (bufs s ! i)"
proof -
  have e: "b_valid (bufs s' ! i) = b_valid (bufs s ! i) \<and> b_dev (bufs s' ! i) = b_dev (bufs s ! i) \<and>
     b_blockno (bufs s' ! i) = b_blockno (bufs s ! i) \<and> b_lock (bufs s' ! i) = b_lock (bufs s ! i) \<and>
     b_refcnt (bufs s' ! i) = b_refcnt (bufs s ! i) \<and> data_of s' i = data_of s i" if "i < NBUF" for i
    using nolinks_eqD[OF assms(1)[OF that]] .
  show h: "holds_blk s' i n = holds_blk s i n" if "i < NBUF" for i n using e[OF that] by (simp add: holds_blk_def)
  show "buf_ok d P pid h (bufs s' ! i) = buf_ok d P pid h (bufs s ! i)" if "i < NBUF"
    using e[OF that] by (simp add: buf_ok_def)
  show "blk s' = blk s"
  proof
    fix n
    have "find (\<lambda>i. holds_blk s' i n \<and> b_valid (bufs s' ! i)) [0..<NBUF] = find (\<lambda>i. holds_blk s i n \<and> b_valid (bufs s ! i)) [0..<NBUF]"
      by (rule find_cong) (use e h in auto)
    then show "blk s' n = blk s n"
      using e by (auto simp: blk_def assms(2) dest: find_SomeD split: option.split)
  qed
qed

lemma bc_inv_relink:
  assumes "bc_inv s P H pid" "lru s' xs" "cur_ok s' pid" "disk s' = disk s"
    "\<And>i. i < NBUF \<Longrightarrow> nolinks (bufs s' ! i) = nolinks (bufs s ! i)"
  shows "bc_inv s' P H pid"
proof (rule bc_invI[OF assms(2,3)])
  show "\<exists>i < NBUF. holds_blk s' i n" if "n \<in> P" for n
    using bc_invD(7)[OF assms(1) that] nolinks_view(1)[OF assms(5,4)] by blast
  show "i = j" if "i < NBUF" "j < NBUF" "holds_blk s' i n" "holds_blk s' j n" for n i j
    using bc_invD(8)[OF assms(1) that(1,2), of n] that nolinks_view(1)[OF assms(5,4)] by blast
qed (use bc_invD(4-6)[OF assms(1)] nolinks_view(3)[OF assms(5,4)] assms(4) in simp_all)

text \<open>A change of one held buffer, of the pins and of who holds it, that keeps its block number.\<close>

lemma upd_held_inv:
  assumes inv: "bc_inv s P H pid" and b: "b < NBUF" and f: "\<And>x. b_next (f x) = b_next x" "\<And>x. b_prev (f x) = b_prev x"
    and id: "b_dev (f (bufs s ! b)) = b_dev (bufs s ! b)" "b_blockno (f (bufs s ! b)) = b_blockno (bufs s ! b)"
    and H': "H' - {b} = H - {b}" and P': "holds_blk s b m" "P' - {m} = P - {m}"
    and ok: "buf_ok (disk s) P' pid (b \<in> H') (f (bufs s ! b))"
  shows "bc_inv (upd_buf b f s) P' H' pid"
proof -
  let ?s = "upd_buf b f s"
  have B: "bufs ?s ! i = (if i = b then f (bufs s ! b) else bufs s ! i)" for i
    using bc_invD(2)[OF inv] b by (simp add: bufs_upd_buf)
  have hb: "holds_blk ?s i n = holds_blk s i n" for i n using id by (auto simp: holds_blk_def B)
  obtain xs where "lru s xs" using bc_invD(1)[OF inv] by blast
  then have l: "lru ?s xs" by (simp add: lru_upd_buf f)
  have ok': "buf_ok (disk ?s) P' pid (i \<in> H') (bufs ?s ! i)" if i: "i < NBUF" for i
  proof (cases "i = b")
    case False
    then have "b_dev (bufs s ! i) = ROOTDEV \<longrightarrow> b_blockno (bufs s ! i) \<noteq> m"
      using bc_invD(8)[OF inv i b, of m] P'(1) by (auto simp: holds_blk_def)
    then have "b_dev (bufs s ! i) = ROOTDEV \<longrightarrow> (b_blockno (bufs s ! i) \<in> P') = (b_blockno (bufs s ! i) \<in> P)"
      using P'(2) by blast
    moreover have "(i \<in> H') = (i \<in> H)" using H' False by blast
    ultimately show ?thesis using bc_invD(6)[OF inv i] False unfolding B buf_ok_def by (simp cong: conj_cong)
  qed (simp add: B ok)
  show ?thesis
  proof (rule bc_invI[OF l _ _ _ ok'])
    show "\<exists>i < NBUF. holds_blk ?s i n" if "n \<in> P'" for n
      unfolding hb using that P' b bc_invD(7)[OF inv, of n] by blast
    show "i = j" if "i < NBUF" "j < NBUF" "holds_blk ?s i n" "holds_blk ?s j n" for n i j
      using that bc_invD(8)[OF inv that(1,2)] unfolding hb by blast
    show "H' \<subseteq> {..<NBUF}" using H' b bc_invD(4)[OF inv] by blast
  qed (use bc_invD(3,5)[OF inv] in simp_all)
qed

lemma upd_held_blk:
  assumes inv: "bc_inv s P H pid" "bc_inv (upd_buf b f s) P' H' pid" and b: "b < NBUF" "holds_blk s b m" "b_valid (bufs s ! b)"
    and id: "b_dev (f (bufs s ! b)) = b_dev (bufs s ! b)" "b_blockno (f (bufs s ! b)) = b_blockno (bufs s ! b)"
      "b_valid (f (bufs s ! b))"
  shows "blk (upd_buf b f s) = (blk s)(m := b_data (f (bufs s ! b)))"
proof
  fix n
  let ?s = "upd_buf b f s"
  have B: "bufs ?s ! i = (if i = b then f (bufs s ! b) else bufs s ! i)" for i
    using bc_invD(2)[OF inv(1)] b by (simp add: bufs_upd_buf)
  have hb: "holds_blk ?s i n = holds_blk s i n" for i n using id by (auto simp: holds_blk_def B)
  show "blk ?s n = ((blk s)(m := b_data (f (bufs s ! b)))) n"
  proof (cases "n = m")
    case True
    then show ?thesis using blk_cached[OF inv(2) b(1), of m] b id by (simp add: hb B)
  next
    case False
    then have "\<not> holds_blk s b n" using b(2) by (auto simp: holds_blk_def)
    then have "find (\<lambda>i. holds_blk ?s i n \<and> b_valid (bufs ?s ! i)) [0..<NBUF] = find (\<lambda>i. holds_blk s i n \<and> b_valid (bufs s ! i)) [0..<NBUF]"
      by (intro find_cong) (auto simp: hb B)
    moreover have "data_of ?s i = data_of s i" if "holds_blk s i n" for i using that \<open>\<not> holds_blk s b n\<close> by (auto simp: B)
    ultimately show ?thesis using False by (auto simp: blk_def dest: find_SomeD split: option.split)
  qed
qed

lemma held_facts:
  assumes "bc_inv s P H pid" "b \<in> H"
  shows "b < NBUF" "holds_blk s b (b_blockno (bufs s ! b))" "b_valid (bufs s ! b)" "b_dev (bufs s ! b) = ROOTDEV"
    "b_lock (bufs s ! b) = \<lparr>slk_locked = True, slk_pid = pid\<rparr>" "length (data_of s b) = BSIZE"
    "b_refcnt (bufs s ! b) = (if b_blockno (bufs s ! b) \<in> P then 2 else 1)"
    "holdingsleep (b_lock (bufs s ! b)) s" "blk s (b_blockno (bufs s ! b)) = data_of s b"
proof -
  show b: "b < NBUF" using bc_invD(4)[OF assms(1)] assms(2) by blast
  note ok = bc_invD(6)[OF assms(1) b]
  then show "b_valid (bufs s ! b)" "b_dev (bufs s ! b) = ROOTDEV" "length (data_of s b) = BSIZE"
    "b_refcnt (bufs s ! b) = (if b_blockno (bufs s ! b) \<in> P then 2 else 1)"
    using assms(2) by (auto simp: buf_ok_def)
  then show h: "holds_blk s b (b_blockno (bufs s ! b))" by (simp add: holds_blk_def)
  show l: "b_lock (bufs s ! b) = \<lparr>slk_locked = True, slk_pid = pid\<rparr>"
    using ok assms(2) by (cases "b_lock (bufs s ! b)") (simp add: buf_ok_def)
  show "holdingsleep (b_lock (bufs s ! b)) s"
    using bc_invD(3)[OF assms(1)] by (auto simp: l holdingsleep_def cur_ok_def split: option.splits)
  show "blk s (b_blockno (bufs s ! b)) = data_of s b"
    using blk_cached[OF assms(1) b h] \<open>b_valid (bufs s ! b)\<close> .
qed

text \<open>The contract of each operation. \<open>num s b\<close> is the block that buffer \<open>b\<close> holds.\<close>

abbreviation num :: "'a fsst_scheme \<Rightarrow> nat \<Rightarrow> u32" where
  "num s b \<equiv> b_blockno (bufs s ! b)"

lemma bread_spec:
  assumes inv: "bc_inv s P H pid" and nh: "\<forall>i \<in> H. num s i \<noteq> n" and room: "n \<in> P \<or> card P + card H < NBUF"
  obtains b s' where "bread ROOTDEV n s = Inr (b, s')" "b \<notin> H" "bc_inv s' P (insert b H) pid" "num s' b = n"
    "data_of s' b = blk s n" "blk s' = blk s" "disk s' = disk s" "dwrites s' = dwrites s" "bio_frame s s'"
    "\<And>i. i \<noteq> b \<Longrightarrow> bufs s' ! i = bufs s ! i"
proof -
  have nh': "\<forall>i \<in> H. \<not> holds_blk s i n" using nh by (auto simp: holds_blk_def)
  from bread_eq[OF inv nh' room] obtain b where b: "b < NBUF" "b \<notin> H"
    "holds_blk s b n \<or> b_refcnt (bufs s ! b) = 0 \<and> (\<forall>i < NBUF. \<not> holds_blk s i n)"
    "bread ROOTDEV n s = Inr (b, upd_buf b (taken P pid n (blk s n)) s)" by metis
  show ?thesis
    by (rule that[OF b(4,2) taken_inv(1)[OF inv nh' b(1-3)] _ _ taken_inv(2)[OF inv nh' b(1-3)]])
      (use b(1) bc_invD(2)[OF inv] in \<open>simp_all add: bufs_upd_buf taken_def\<close>)
qed

lemma set_data_spec:
  assumes inv: "bc_inv s P H pid" and b: "b \<in> H" and d: "length d = BSIZE"
  shows "bc_inv (set_data b d s) P H pid" "blk (set_data b d s) = (blk s)(num s b := d)"
    "num (set_data b d s) i = num s i" "data_of (set_data b d s) i = (if i = b then d else data_of s i)"
    "disk (set_data b d s) = disk s" "dwrites (set_data b d s) = dwrites s" "bio_frame s (set_data b d s)"
proof -
  note h = held_facts[OF inv b]
  show i: "bc_inv (set_data b d s) P H pid"
    unfolding set_data_def using bc_invD(6)[OF inv h(1)] b d
    by (intro upd_held_inv[OF inv h(1) _ _ _ _ _ h(2)]) (auto simp: buf_ok_def)
  show "blk (set_data b d s) = (blk s)(num s b := d)"
    using upd_held_blk[OF inv i[unfolded set_data_def] h(1-3)] h(3) by (simp add: set_data_def)
qed (use held_facts(1)[OF inv b] bc_invD(2)[OF inv] in \<open>simp_all add: set_data_def bufs_upd_buf\<close>)

lemma bwrite_spec:
  assumes inv: "bc_inv s P H pid" and b: "b \<in> H"
  obtains s' where "bwrite b s = Inr s'" "bc_inv s' P H pid" "blk s' = blk s" "bufs s' = bufs s"
    "disk s' = (disk s)(num s b := data_of s b)" "dwrites s' = dwrites s @ [(num s b, data_of s b)]" "bio_frame s s'"
proof -
  note h = held_facts[OF inv b]
  let ?s = "virtio_disk_rw b True s"
  have e: "bufs ?s = bufs s" "disk ?s = (disk s)(num s b := data_of s b)" "dwrites ?s = dwrites s @ [(num s b, data_of s b)]"
    "bhead_next ?s = bhead_next s" "bhead_prev ?s = bhead_prev s" "procs ?s = procs s" "curproc ?s = curproc s"
    by (simp_all add: virtio_disk_rw_def Let_def)
  have hb: "holds_blk ?s = holds_blk s" by (rule ext)+ (simp add: holds_blk_def e)
  obtain xs where "lru s xs" using bc_invD(1)[OF inv] by blast
  then have l: "lru ?s xs" using ring_cong[of ?s s xs] by (simp add: lru_def e)
  have ok: "buf_ok (disk ?s) P pid (i \<in> H) (bufs ?s ! i)" if i: "i < NBUF" for i
  proof (cases "i = b")
    case True
    then show ?thesis using bc_invD(6)[OF inv i] b by (simp add: buf_ok_def e)
  next
    case False
    then have "b_dev (bufs s ! i) = ROOTDEV \<longrightarrow> num s i \<noteq> num s b"
      using bc_invD(8)[OF inv i h(1)] h(2) by (auto simp: holds_blk_def)
    then show ?thesis using bc_invD(6)[OF inv i] by (auto simp: buf_ok_def e)
  qed
  have inv': "bc_inv ?s P H pid"
    by (rule bc_invI[OF l _ _ _ ok])
      (use inv h(6) bc_invD(3,4,5,7,8)[OF inv] in \<open>auto simp: hb e cur_ok_def split: option.splits\<close>)
  have "blk ?s = blk s"
  proof
    fix n
    show "blk ?s n = blk s n"
    proof (cases "n = num s b")
      case True
      then show ?thesis using held_facts(9)[OF inv' b] h(9) by (simp add: e)
    next
      case False
      then show ?thesis by (simp add: blk_def hb e split: option.split)
    qed
  qed
  moreover have "bwrite b s = Inr ?s" using h(8) by (simp add: bwrite_def)
  moreover have "bio_frame s ?s" by (simp add: virtio_disk_rw_def Let_def)
  ultimately show ?thesis using inv' e by (intro that) auto
qed

lemma wakeup_fs:
  "procs (wakeup ch s) = map (\<lambda>i. if curproc s \<noteq> Some i \<and> p_state (procs s ! i) = SLEEPING \<and> p_chan (procs s ! i) = ch
      then (procs s ! i)\<lparr>p_state := RUNNABLE\<rparr> else procs s ! i) [0..<length (procs s)]"
  by (simp add: wakeup_def each_proc_def)

lemma wakeup_woken: "woken (procs s) (procs (wakeup ch s))"
  unfolding wakeup_fs woken_def by (auto simp: list_all2_conv_all_nth)

lemma wakeup_frame [simp]:
  "disk (wakeup ch s) = disk s" "dwrites (wakeup ch s) = dwrites s" "bufs (wakeup ch s) = bufs s"
  "bhead_next (wakeup ch s) = bhead_next s" "bhead_prev (wakeup ch s) = bhead_prev s" "lg (wakeup ch s) = lg s"
  "sb (wakeup ch s) = sb s" "itable (wakeup ch s) = itable s" "files (wakeup ch s) = files s" "pipes (wakeup ch s) = pipes s"
  by (simp_all add: wakeup_def each_proc_def)

lemma bio_frame_wakeup: "bio_frame s (wakeup ch s)"
  using wakeup_woken[of s ch] by (simp add: bio_frame_def bio_strip_def wakeup_def each_proc_def)

lemma bc_inv_frame:
  assumes "bc_inv s P H pid" "bio_frame s s'" "bufs s' = bufs s" "disk s' = disk s" "bhead_next s' = bhead_next s" "bhead_prev s' = bhead_prev s"
  shows "bc_inv s' P H pid" "blk s' = blk s"
proof -
  obtain xs where "lru s xs" using bc_invD(1)[OF assms(1)] by blast
  then have "lru s' xs" using ring_cong[of s' s xs] assms by (simp add: lru_def)
  then show "bc_inv s' P H pid"
    by (rule bc_inv_relink[OF assms(1)]) (use cur_ok_frame[OF assms(2) bc_invD(3)[OF assms(1)]] assms in simp_all)
  show "blk s' = blk s" by (rule nolinks_view) (simp_all add: assms)
qed

lemma lru_if: "lru x xs \<Longrightarrow> lru y ys \<Longrightarrow> lru (if c then x else y) (if c then xs else ys)"
  by simp

lemma brelse_spec:
  assumes inv: "bc_inv s P H pid" and b: "b \<in> H" and clean: "num s b \<notin> P \<Longrightarrow> data_of s b = disk s (num s b)"
  obtains s' where "brelse b s = Inr s'" "bc_inv s' P (H - {b}) pid" "blk s' = blk s" "disk s' = disk s"
    "dwrites s' = dwrites s" "bio_frame s s'" "\<And>i. i < NBUF \<Longrightarrow> num s' i = num s i \<and> data_of s' i = data_of s i"
proof -
  note h = held_facts[OF inv b]
  let ?w = "wakeup (Some (SleeplockChan (BufLock b))) s"
  let ?f = "\<lambda>x. x\<lparr>b_lock := \<lparr>slk_locked = False, slk_pid = 0\<rparr>, b_refcnt := b_refcnt x - 1\<rparr>"
  let ?s = "upd_buf b ?f ?w"
  have fw: "bio_frame s ?w" by (rule bio_frame_wakeup)
  have iw: "bc_inv ?w P H pid" "blk ?w = blk s" by (rule bc_inv_frame[OF inv fw]; simp)+
  have i2: "bc_inv ?s P (H - {b}) pid"
    by (rule upd_held_inv[OF iw(1) h(1), where m = "num s b"]) (use h clean in \<open>auto simp: buf_ok_def holds_blk_def\<close>)
  have B: "bufs ?s ! i = (if i = b then ?f (bufs s ! b) else bufs s ! i)" for i
    using bc_invD(2)[OF inv] h(1) by (simp add: bufs_upd_buf)
  have v2: "blk ?s = blk s"
    using upd_held_blk[OF iw(1) i2 h(1), of "num s b"] h iw(2) by (auto simp: holds_blk_def)
  define r where "r = (if b_refcnt (bufs ?s ! b) = 0 then link_front b (unlink_buf b ?s) else ?s)"
  have e: "brelse b s = Inr r"
    using h(1,8) bc_invD(2)[OF inv] by (simp add: brelse_def Let_def unlock_buf_def releasesleep_def r_def)
  have nl: "nolinks (bufs r ! i) = nolinks (bufs ?s ! i)" for i by (simp add: r_def)
  have dr: "disk r = disk ?s" "dwrites r = dwrites ?s" by (simp_all add: r_def)
  have fr: "bio_frame s r" unfolding r_def by (cases "b_refcnt (bufs ?s ! b) = 0") (simp_all add: fw)
  obtain xs where xs: "lru ?s xs" using bc_invD(1)[OF i2] by blast
  have "lru r (if b_refcnt (bufs ?s ! b) = 0 then b # remove1 b xs else xs)"
    unfolding r_def by (rule lru_if[OF lru_move[OF xs h(1)] xs])
  then obtain ys where lr: "lru r ys" ..
  have ir: "bc_inv r P (H - {b}) pid"
    by (rule bc_inv_relink[OF i2 lr cur_ok_frame[OF fr bc_invD(3)[OF inv]] dr(1) nl])
  have nd: "num r i = num s i \<and> data_of r i = data_of s i" for i
    using nolinks_eqD[OF nl[of i]] by (simp add: B)
  have vr: "blk r = blk s" using nolinks_view(2)[OF nl dr(1)] v2 by simp
  show ?thesis by (rule that[OF e ir vr _ _ fr nd]) (simp_all add: dr)
qed

lemma blk_cong:
  assumes "\<And>i. b_valid (bufs s' ! i) = b_valid (bufs s ! i) \<and> b_dev (bufs s' ! i) = b_dev (bufs s ! i) \<and>
      num s' i = num s i \<and> data_of s' i = data_of s i" "disk s' = disk s"
  shows "blk s' = blk s"
  by (rule ext) (simp add: blk_def holds_blk_def assms split: option.split)

lemma pin_spec:
  assumes inv: "bc_inv s P H pid" and b: "b \<in> H"
  shows "num s b \<notin> P \<Longrightarrow> bc_inv (bpin b s) (insert (num s b) P) H pid"
    and "num s b \<in> P \<Longrightarrow> bc_inv (bunpin b s) (P - {num s b}) H pid"
    and "blk (bpin b s) = blk s" "blk (bunpin b s) = blk s"
    and "disk (bpin b s) = disk s" "disk (bunpin b s) = disk s"
    and "dwrites (bpin b s) = dwrites s" "dwrites (bunpin b s) = dwrites s" "bio_frame s (bpin b s)" "bio_frame s (bunpin b s)"
    and "num (bpin b s) i = num s i" "num (bunpin b s) i = num s i"
    and "data_of (bpin b s) i = data_of s i" "data_of (bunpin b s) i = data_of s i"
proof -
  note h = held_facts[OF inv b]
  show "bc_inv (bpin b s) (insert (num s b) P) H pid" if "num s b \<notin> P"
    unfolding bpin_def by (rule upd_held_inv[OF inv h(1), where m = "num s b"]) (use h b that in \<open>auto simp: buf_ok_def\<close>)
  show "bc_inv (bunpin b s) (P - {num s b}) H pid" if "num s b \<in> P"
    unfolding bunpin_def by (rule upd_held_inv[OF inv h(1), where m = "num s b"]) (use h b that in \<open>auto simp: buf_ok_def\<close>)
  have B: "bufs (bpin b s) ! i = (if i = b then (bufs s ! b)\<lparr>b_refcnt := b_refcnt (bufs s ! b) + 1\<rparr> else bufs s ! i)"
    "bufs (bunpin b s) ! i = (if i = b then (bufs s ! b)\<lparr>b_refcnt := b_refcnt (bufs s ! b) - 1\<rparr> else bufs s ! i)" for i
    using h(1) bc_invD(2)[OF inv] by (simp_all add: bpin_def bunpin_def bufs_upd_buf)
  have d: "disk (bpin b s) = disk s" "disk (bunpin b s) = disk s" by (simp_all add: bpin_def bunpin_def)
  show "blk (bpin b s) = blk s" "blk (bunpin b s) = blk s" by (rule blk_cong; simp add: B d)+
  show "num (bpin b s) i = num s i" "num (bunpin b s) i = num s i"
    "data_of (bpin b s) i = data_of s i" "data_of (bunpin b s) i = data_of s i" by (simp_all add: B)
qed (simp_all add: bpin_def bunpin_def)

section \<open>The cache after boot\<close>

definition empty_buf :: buf where
  "empty_buf = \<lparr>b_valid = False, b_dev = 0, b_blockno = 0, b_lock = \<lparr>slk_locked = False, slk_pid = 0\<rparr>, b_refcnt = 0,
                b_prev = 0, b_next = 0, b_data = replicate 1024 0\<rparr>"

lemma nolinks_lock: "nolinks x = nolinks empty_buf \<Longrightarrow> nolinks (x\<lparr>b_lock := initsleeplock\<rparr>) = nolinks empty_buf"
  by (cases x) (simp add: nolinks_def empty_buf_def initsleeplock_def)

lemma binit_nolinks:
  assumes "bufs s = replicate NBUF empty_buf"
  shows "i < NBUF \<Longrightarrow> nolinks (bufs (binit s) ! i) = nolinks empty_buf"
    and "disk (binit s) = disk s" "dwrites (binit s) = dwrites s" "bio_frame s (binit s)"
proof -
  let ?f = "\<lambda>b s. link_front b (upd_buf b (\<lambda>x. x\<lparr>b_lock := initsleeplock\<rparr>) s)"
  have s0: "bio_frame s (s\<lparr>bhead_prev := NBUF, bhead_next := NBUF\<rparr>)" by (simp add: bio_frame_def bio_strip_def)
  have "(\<forall>i < NBUF. nolinks (bufs (fold ?f bs t) ! i) = nolinks empty_buf) \<and> disk (fold ?f bs t) = disk s \<and>
      dwrites (fold ?f bs t) = dwrites s \<and> bio_frame s (fold ?f bs t)"
    if "\<forall>i < NBUF. nolinks (bufs t ! i) = nolinks empty_buf" "disk t = disk s" "dwrites t = dwrites s" "bio_frame s t" for bs t
    using that
  proof (induction bs arbitrary: t)
    case (Cons b bs)
    have "\<forall>i < NBUF. nolinks (bufs (?f b t) ! i) = nolinks empty_buf"
      using Cons.prems(1) by (auto simp: upd_buf_def nth_list_update_if nolinks_lock)
    with Cons.IH[of "?f b t"] Cons.prems show ?case by simp
  qed simp
  from this[of "s\<lparr>bhead_prev := NBUF, bhead_next := NBUF\<rparr>" "[0..<NBUF]"] assms s0
  show "i < NBUF \<Longrightarrow> nolinks (bufs (binit s) ! i) = nolinks empty_buf" "disk (binit s) = disk s" "dwrites (binit s) = dwrites s"
    "bio_frame s (binit s)" by (simp_all add: binit_def)
qed

lemma binit_inv:
  assumes "bufs s = replicate NBUF empty_buf" "cur_ok s pid" "\<And>n. length (disk s n) = BSIZE"
  shows "bc_inv (binit s) {} {} pid" "blk (binit s) = disk s"
proof -
  note n = binit_nolinks[OF assms(1)]
  have z: "b_dev (bufs (binit s) ! i) = 0 \<and> b_refcnt (bufs (binit s) ! i) = 0 \<and> \<not> slk_locked (b_lock (bufs (binit s) ! i))"
    if "i < NBUF" for i using nolinks_eqD[OF n(1)[OF that]] by (simp add: empty_buf_def)
  have nh: "\<not> holds_blk (binit s) i m" if "i < NBUF" for i m using z[OF that] by (simp add: holds_blk_def ROOTDEV_def)
  have l: "length (bufs s) = NBUF" by (simp add: assms(1))
  show "bc_inv (binit s) {} {} pid"
    by (rule bc_invI[OF binit_lru[OF l] cur_ok_frame[OF n(4) assms(2)]])
      (use z nh assms(3) n(2) in \<open>auto simp: buf_ok_def ROOTDEV_def\<close>)
  show "blk (binit s) = disk s"
  proof
    fix m
    show "blk (binit s) m = disk s m" using blk_uncached[of "binit s" m] nh by (simp add: n(2))
  qed
qed

text \<open>A machine that has just booted, with an empty disk and process 5 running.\<close>

definition fs_boot :: fsst where
  "fs_boot = (const.extend cons_boot
     \<lparr>disk = (\<lambda>_. replicate 1024 0), dwrites = [], bufs = replicate 30 empty_buf, bhead_prev = 0, bhead_next = 0,
      lg = \<lparr>l_start = 2, l_outstanding = 0, l_committing = False, l_dev = 1, l_n = 0, l_block = replicate 30 0\<rparr>,
      sb = \<lparr>sb_magic = FSMAGIC, sb_size = 2000, sb_nblocks = 1953, sb_ninodes = 200, sb_nlog = 31, sb_logstart = 2,
            sb_inodestart = 33, sb_bmapstart = 46\<rparr>,
      itable = replicate 50 \<lparr>i_dev = 0, i_inum = 0, i_ref = 0, i_lock = \<lparr>slk_locked = False, slk_pid = 0\<rparr>, i_valid = False,
            i_type = 0, i_major = 0, i_minor = 0, i_nlink = 0, i_size = 0, i_addrs = replicate 13 0\<rparr>,
      files = replicate 100 \<lparr>f_type = FD_NONE, f_ref = 0, f_readable = False, f_writable = False, f_pipe = 0, f_ip = None,
            f_off = 0, f_major = 0\<rparr>,
      pipes = Map.empty\<rparr>)\<lparr>curproc := Some 5\<rparr>"

lemma fs_boot_fields [simp]:
  "bufs fs_boot = replicate NBUF empty_buf" "disk fs_boot = (\<lambda>_. replicate 1024 0)" "curproc fs_boot = Some 5"
  "dwrites fs_boot = []" "procs fs_boot = procs sched_boot" "lg fs_boot = \<lparr>l_start = 2, l_outstanding = 0, l_committing = False, l_dev = 1, l_n = 0, l_block = replicate 30 0\<rparr>"
  by (simp_all add: fs_boot_def const.defs cons_boot_def kst.defs NBUF_def MAXOPBLOCKS_def)

lemma fs_boot_cur: "cur_ok fs_boot 3"
  by (simp add: cur_ok_def sched_boot_ok(2)) (simp add: sched_boot_def vmst.defs)

lemma fs_boot_inv: "bc_inv (binit fs_boot) {} {} 3" "blk (binit fs_boot) = disk fs_boot"
  using binit_inv[OF _ fs_boot_cur] by (simp_all add: BSIZE_def)

section \<open>Properties\<close>

text \<open>
  C21. Reading through the cache is reading the disk as it will be when everything pinned has been
  written: \<^verbatim>\<open>bread\<close> returns a locked buffer that holds the current contents of the block, and
  neither the disk nor what any later reader gets has changed. It needs a free buffer only for a block
  that is not cached.
\<close>

theorem bread_returns_block:
  assumes "bc_inv s P H pid" and "\<forall>i \<in> H. num s i \<noteq> n" and "n \<in> P \<or> card P + card H < NBUF"
  shows "\<exists>b s'. bread ROOTDEV n s = Inr (b, s') \<and> b \<notin> H \<and> bc_inv s' P (insert b H) pid \<and> num s' b = n \<and>
    holdingsleep (b_lock (bufs s' ! b)) s' \<and> data_of s' b = blk s n \<and> blk s' = blk s \<and> disk s' = disk s"
proof -
  from bread_spec[OF assms] obtain b s' where r: "bread ROOTDEV n s = Inr (b, s')" "b \<notin> H" "bc_inv s' P (insert b H) pid"
    "num s' b = n" "data_of s' b = blk s n" "blk s' = blk s" "disk s' = disk s" by metis
  with held_facts(8)[OF r(3), of b] show ?thesis by auto
qed

theorem bread_returns_block_witness:
  "\<exists>b s'. bread ROOTDEV 7 (binit fs_boot) = Inr (b, s') \<and> data_of s' b = replicate 1024 0"
  using bread_returns_block[OF fs_boot_inv(1), of 7] by (auto simp: fs_boot_inv(2) NBUF_def MAXOPBLOCKS_def)

text \<open>
  C22. Replacement is least recently used: when the block is not cached, \<^verbatim>\<open>bget\<close> recycles the
  unused buffer that was released longest ago, and releasing the last reference to a buffer makes it
  the most recently used one.
\<close>

theorem buffer_replacement_lru:
  assumes "lru s xs" and "cur_ok s pid"
    and "\<forall>i < NBUF. \<not> (b_dev (bufs s ! i) = dev \<and> num s i = n)"
    and "xs = us @ b # vs" and "b_refcnt (bufs s ! b) = 0" and "\<forall>i \<in> set vs. b_refcnt (bufs s ! i) \<noteq> 0"
    and "\<not> slk_locked (b_lock (bufs s ! b))"
  shows "\<exists>s1 s2. bget dev n s = Inr (b, s1) \<and> lru s1 xs \<and> brelse b s1 = Inr s2 \<and> lru s2 (b # us @ vs)"
proof -
  let ?f = "\<lambda>x. x\<lparr>b_dev := dev, b_blockno := n, b_valid := False, b_refcnt := 1, b_lock := \<lparr>slk_locked = True, slk_pid = pid\<rparr>\<rparr>"
  let ?s1 = "upd_buf b ?f s"
  have st: "set xs = {..<NBUF}" "length (bufs s) = NBUF" "distinct xs" using assms(1) by (auto simp: lru_def ring_of_def)
  then have b: "b < NBUF" using assms(4) by auto
  have "find (\<lambda>b. b_dev (bufs s ! b) = dev \<and> num s b = n) xs = None" using assms(3) st by (auto simp: find_None_iff)
  moreover have "find (\<lambda>b. b_refcnt (bufs s ! b) = 0) (rev xs) = Some b"
    using assms(5,6) by (simp add: assms(4) find_skip)
  ultimately have g: "bget dev n s = Inr (b, ?s1)"
    using assms(1,2,7) b st by (simp add: bget_def bget_cached_find bget_lru_find lock_buf_free bufs_upd_buf
        del: bget_cached.simps bget_lru.simps)
  have l1: "lru ?s1 xs" using assms(1) by (simp add: lru_upd_buf)
  let ?w = "wakeup (Some (SleeplockChan (BufLock b))) ?s1"
  let ?u = "upd_buf b (\<lambda>x. x\<lparr>b_lock := \<lparr>slk_locked = False, slk_pid = 0\<rparr>, b_refcnt := b_refcnt x - 1\<rparr>) ?w"
  have "holdingsleep (b_lock (bufs ?s1 ! b)) ?s1"
    using assms(2) b st by (auto simp: holdingsleep_def cur_ok_def bufs_upd_buf split: option.splits)
  then have r: "brelse b ?s1 = Inr (link_front b (unlink_buf b ?u))"
    using b st by (simp add: brelse_def Let_def unlock_buf_def releasesleep_def bufs_upd_buf)
  have "lru ?w xs" using l1 ring_cong[of ?w ?s1 xs] by (simp add: lru_def)
  then have "lru ?u xs" by (simp add: lru_upd_buf)
  from lru_move[OF this b] have "lru (link_front b (unlink_buf b ?u)) (b # us @ vs)"
    using st(3) by (simp add: assms(4) remove1_append)
  with g l1 r show ?thesis by blast
qed

theorem buffer_replacement_lru_witness:
  "\<exists>s1 s2. bget 1 7 (binit fs_boot) = Inr (0, s1) \<and> lru s1 (rev [0..<NBUF]) \<and> brelse 0 s1 = Inr s2 \<and>
     lru s2 (0 # rev [1..<NBUF])"
proof -
  have l: "length (bufs fs_boot) = NBUF" by simp
  have n: "nolinks (bufs (binit fs_boot) ! i) = nolinks empty_buf" if "i < NBUF" for i
    using binit_nolinks(1)[of fs_boot] that by simp
  have z: "b_dev (bufs (binit fs_boot) ! i) = 0 \<and> b_refcnt (bufs (binit fs_boot) ! i) = 0 \<and> \<not> slk_locked (b_lock (bufs (binit fs_boot) ! i))"
    if "i < NBUF" for i using nolinks_eqD[OF n[OF that]] by (simp add: empty_buf_def)
  have "rev [0..<NBUF] = rev [1..<NBUF] @ 0 # []" by (simp add: NBUF_def MAXOPBLOCKS_def upt_rec)
  from buffer_replacement_lru[OF binit_lru[OF l] bc_invD(3)[OF fs_boot_inv(1)] _ this, of 1 7] show ?thesis
    using z by (simp add: NBUF_def MAXOPBLOCKS_def)
qed

end
