(* ===== verification/Xv6_Log.thy ===== *)
theory Xv6_Log
  imports Xv6_Bio
begin

text \<open>
  The log, \<^verbatim>\<open>kernel/log.c\<close>. The header block holds the number of logged blocks, a C
  \<^verbatim>\<open>int\<close>, and the home block numbers; the blocks follow it.
\<close>

section \<open>Operations\<close>

definition read_head :: "'a fsst_scheme \<Rightarrow> 'a fsst_scheme res" where
  "read_head s =
     andthen (bread (l_dev (lg s)) (l_start (lg s)) s) (\<lambda>(b, s1).
       let hd = data_of s1 b;
           n = sint (get_le 4 hd 0 :: u32);
           blocks = map (\<lambda>i. if int i < n then get_le 4 hd (4 + 4 * i) else l_block (lg s1) ! i) [0..<LOGBLOCKS]
       in if n > int LOGBLOCKS then Inl Overrun
          else brelse b (upd_lg (\<lambda>l. l\<lparr>l_n := n, l_block := blocks\<rparr>) s1))"

definition head_bytes :: "logst \<Rightarrow> u8 list \<Rightarrow> u8 list" where
  "head_bytes l d =
     put_bytes d 0 (le_bytes 4 (of_int (l_n l) :: u32) @ concat (map (\<lambda>w. le_bytes 4 w) (take (nat (l_n l)) (l_block l))))"

definition write_head :: "'a fsst_scheme \<Rightarrow> 'a fsst_scheme res" where
  "write_head s =
     andthen (bread (l_dev (lg s)) (l_start (lg s)) s) (\<lambda>(b, s1).
       andthen (bwrite b (set_data b (head_bytes (lg s1) (data_of s1 b)) s1)) (\<lambda>s2. brelse b s2))"

text \<open>The body of the loop of \<^verbatim>\<open>install_trans\<close>.\<close>

definition install_one :: "bool \<Rightarrow> nat \<Rightarrow> 'a fsst_scheme \<Rightarrow> 'a fsst_scheme res" where
  "install_one recovering tail s =
     (let s0 = (if recovering
                then kprintf (str ''recovering tail %d dst %d'' @ [10]) [AInt (of_nat tail), AInt (scast (l_block (lg s) ! tail))] s
                else s) in
     andthen (bread (l_dev (lg s0)) (l_start (lg s0) + of_nat tail + 1) s0) (\<lambda>(lbuf, s1).
     andthen (bread (l_dev (lg s1)) (l_block (lg s1) ! tail) s1) (\<lambda>(dbuf, s2).
     andthen (bwrite dbuf (set_data dbuf (data_of s2 lbuf) s2)) (\<lambda>s3.
       let s4 = (if recovering then s3 else bunpin dbuf s3) in
     andthen (brelse lbuf s4) (\<lambda>s5. brelse dbuf s5)))))"

definition install_trans :: "bool \<Rightarrow> 'a fsst_scheme \<Rightarrow> 'a fsst_scheme res" where
  "install_trans recovering s = for_each (install_one recovering) [0..<nat (l_n (lg s))] s"

definition recover_from_log :: "'a fsst_scheme \<Rightarrow> 'a fsst_scheme res" where
  "recover_from_log s =
     andthen (read_head s) (\<lambda>s1.
     andthen (install_trans True s1) (\<lambda>s2.
     write_head (upd_lg (\<lambda>l. l\<lparr>l_n := 0\<rparr>) s2)))"

definition initlog :: "u32 \<Rightarrow> 'a fsst_scheme \<Rightarrow> 'a fsst_scheme res" where
  "initlog dev s =
     (if 4 + 4 * LOGBLOCKS \<ge> BSIZE then Inl (Panic ''initlog: too big logheader'')
      else recover_from_log (upd_lg (\<lambda>l. l\<lparr>l_start := sb_logstart (sb s), l_dev := dev\<rparr>) s))"

definition begin_op :: "'a fsst_scheme \<Rightarrow> (unit outcome \<times> 'a fsst_scheme) res" where
  "begin_op s =
     (if l_committing (lg s) \<or> l_n (lg s) + (l_outstanding (lg s) + 1) * int MAXOPBLOCKS > int LOGBLOCKS
      then case curproc s of
             None \<Rightarrow> Inl (Panic ''kerneltrap'')
           | Some p \<Rightarrow> Inr (Blocks LogChan, sleep_on p LogChan s)
      else Inr (Returns (), upd_lg (\<lambda>l. l\<lparr>l_outstanding := l_outstanding l + 1\<rparr>) s))"

definition write_log_one :: "nat \<Rightarrow> 'a fsst_scheme \<Rightarrow> 'a fsst_scheme res" where
  "write_log_one tail s =
     andthen (bread (l_dev (lg s)) (l_start (lg s) + of_nat tail + 1) s) (\<lambda>(to, s1).
     andthen (bread (l_dev (lg s1)) (l_block (lg s1) ! tail) s1) (\<lambda>(from, s2).
     andthen (bwrite to (set_data to (data_of s2 from) s2)) (\<lambda>s3.
     andthen (brelse from s3) (\<lambda>s4. brelse to s4))))"

definition write_log :: "'a fsst_scheme \<Rightarrow> 'a fsst_scheme res" where
  "write_log s = for_each write_log_one [0..<nat (l_n (lg s))] s"

definition commit :: "'a fsst_scheme \<Rightarrow> 'a fsst_scheme res" where
  "commit s =
     (if l_n (lg s) > 0
      then andthen (write_log s) (\<lambda>s1.
           andthen (write_head s1) (\<lambda>s2.
           andthen (install_trans False s2) (\<lambda>s3.
           write_head (upd_lg (\<lambda>l. l\<lparr>l_n := 0\<rparr>) s3))))
      else Inr s)"

definition end_op :: "'a fsst_scheme \<Rightarrow> 'a fsst_scheme res" where
  "end_op s =
     (let s1 = upd_lg (\<lambda>l. l\<lparr>l_outstanding := l_outstanding l - 1\<rparr>) s in
      if l_committing (lg s1) then Inl (Panic ''log.committing'')
      else if l_outstanding (lg s1) = 0
      then andthen (commit (upd_lg (\<lambda>l. l\<lparr>l_committing := True\<rparr>) s1)) (\<lambda>s2.
             Inr (wakeup (Some LogChan) (upd_lg (\<lambda>l. l\<lparr>l_committing := False\<rparr>) s2)))
      else Inr (wakeup (Some LogChan) s1))"

definition log_write :: "nat \<Rightarrow> 'a fsst_scheme \<Rightarrow> 'a fsst_scheme res" where
  "log_write b s =
     (if l_n (lg s) \<ge> int LOGBLOCKS then Inl (Panic ''too big a transaction'')
      else if l_outstanding (lg s) < 1 then Inl (Panic ''log_write outside of trans'')
      else let n = nat (l_n (lg s)); bno = b_blockno (bufs s ! b);
               i = (case first_idx (\<lambda>w. w = bno) (take n (l_block (lg s))) of Some i \<Rightarrow> i | None \<Rightarrow> n);
               s1 = upd_lg (\<lambda>l. l\<lparr>l_block := (l_block l)[i := bno]\<rparr>) s
           in if i = n then Inr (upd_lg (\<lambda>l. l\<lparr>l_n := l_n l + 1\<rparr>) (bpin b s1)) else Inr s1)"

text \<open>\<^verbatim>\<open>begin_op\<close> by a process that does not have to wait.\<close>

definition begin_op_now :: "'a fsst_scheme \<Rightarrow> 'a fsst_scheme res" where
  "begin_op_now s =
     andthen (begin_op s) (\<lambda>(r, s1). case r of Blocks ch \<Rightarrow> Inl (Sleeps ''log'') | Returns _ \<Rightarrow> Inr s1)"

section \<open>Copying a block\<close>

text \<open>A sequence of block writes, and the disk after it.\<close>

definition written :: "(u32 \<Rightarrow> u8 list) \<Rightarrow> (u32 \<times> u8 list) list \<Rightarrow> u32 \<Rightarrow> u8 list" where
  "written d ws = fold (\<lambda>(n, x) f. f(n := x)) ws d"

lemma written_simps [simp]:
  "written d [] = d" "written d (w # ws) = written (d(fst w := snd w)) ws" "written d (us @ vs) = written (written d us) vs"
  by (simp_all add: written_def split_beta)

lemma written_other: "n \<notin> fst ` set ws \<Longrightarrow> written d ws n = d n"
  by (induction ws arbitrary: d) auto

lemma written_map:
  "distinct (map f ts) \<Longrightarrow> t \<in> set ts \<Longrightarrow> written d (map (\<lambda>t. (f t, g t)) ts) (f t) = g t"
proof (induction ts arbitrary: d)
  case (Cons a ts)
  show ?case
  proof (cases "t = a")
    case True
    then have "f t \<notin> fst ` set (map (\<lambda>t. (f t, g t)) ts)" using Cons.prems by (auto simp: image_iff)
    then show ?thesis using True by (simp add: written_other)
  next
    case False
    then show ?thesis using Cons by simp
  qed
qed simp

lemma lg_fields_upd [simp]:
  "bufs (upd_lg f s) = bufs s" "disk (upd_lg f s) = disk s" "dwrites (upd_lg f s) = dwrites s" "lg (upd_lg f s) = f (lg s)"
  "bhead_next (upd_lg f s) = bhead_next s" "bhead_prev (upd_lg f s) = bhead_prev s" "procs (upd_lg f s) = procs s"
  "curproc (upd_lg f s) = curproc s" "sb (upd_lg f s) = sb s" "itable (upd_lg f s) = itable s"
  by (simp_all add: upd_lg_def)

lemma bc_inv_upd_lg [simp]: "bc_inv (upd_lg f s) P H pid = bc_inv s P H pid" "blk (upd_lg f s) = blk s"
proof -
  have "ring_of (upd_lg f s) xs = ring_of s xs" for xs by (rule ring_cong) simp_all
  then show "bc_inv (upd_lg f s) P H pid = bc_inv s P H pid"
    by (simp add: bc_inv_def lru_def cur_ok_def holds_blk_def split: option.split)
  show "blk (upd_lg f s) = blk s" by (rule blk_cong) simp_all
qed

lemma read_two:
  assumes inv: "bc_inv s P {} pid" and km: "k \<noteq> m" and room: "card P + (if m \<in> P then 1 else 2) \<le> NBUF"
  obtains a s1 b s2 where "bread ROOTDEV k s = Inr (a, s1)" "bread ROOTDEV m s1 = Inr (b, s2)" "a \<noteq> b"
    "bc_inv s2 P {b, a} pid" "num s2 a = k" "num s2 b = m" "data_of s2 a = blk s k" "data_of s2 b = blk s m" "blk s2 = blk s"
    "disk s2 = disk s" "dwrites s2 = dwrites s" "bio_frame s s2" "lg s1 = lg s"
proof -
  obtain a s1 where a: "bread ROOTDEV k s = Inr (a, s1)" "bc_inv s1 P {a} pid" "num s1 a = k" "data_of s1 a = blk s k"
    "blk s1 = blk s" "disk s1 = disk s" "dwrites s1 = dwrites s" "bio_frame s s1"
    by (rule bread_spec[OF inv, of k]) (use room in \<open>auto split: if_splits\<close>)
  obtain b s2 where b: "bread ROOTDEV m s1 = Inr (b, s2)" "b \<noteq> a" "bc_inv s2 P {b, a} pid" "num s2 b = m" "data_of s2 b = blk s1 m"
    "blk s2 = blk s1" "disk s2 = disk s1" "dwrites s2 = dwrites s1" "bio_frame s1 s2" "\<And>i. i \<noteq> b \<Longrightarrow> bufs s2 ! i = bufs s1 ! i"
    by (rule bread_spec[OF a(2), of m]) (use room km a(3) in \<open>auto split: if_splits\<close>)
  show ?thesis
    by (rule that[OF a(1) b(1) _ b(3)]) (use a b b(10)[of a] bio_frame_trans[OF a(8) b(9)] bio_frame_fields(1)[OF a(8)] in auto)
qed

lemma write_held:
  assumes inv: "bc_inv s P H pid" and a: "a \<in> H" and d: "length d = BSIZE"
  obtains s' where "bwrite a (set_data a d s) = Inr s'" "bc_inv s' P H pid" "blk s' = (blk s)(num s a := d)"
    "disk s' = (disk s)(num s a := d)" "dwrites s' = dwrites s @ [(num s a, d)]" "bio_frame s s'"
    "\<And>i. num s' i = num s i \<and> data_of s' i = (if i = a then d else data_of s i)"
proof -
  note sd = set_data_spec[OF inv a d]
  from bwrite_spec[OF sd(1) a] obtain s' where w: "bwrite a (set_data a d s) = Inr s'" "bc_inv s' P H pid"
    "blk s' = blk (set_data a d s)" "bufs s' = bufs (set_data a d s)"
    "disk s' = (disk (set_data a d s))(num (set_data a d s) a := data_of (set_data a d s) a)"
    "dwrites s' = dwrites (set_data a d s) @ [(num (set_data a d s) a, data_of (set_data a d s) a)]" "bio_frame (set_data a d s) s'"
    by metis
  show ?thesis by (rule that[OF w(1,2)]) (use w sd bio_frame_trans[OF sd(7) w(7)] in simp_all)
qed

lemma release_two:
  assumes inv: "bc_inv s P {a, b} pid" and ab: "a \<noteq> b"
    and ca: "num s a \<notin> P \<Longrightarrow> data_of s a = disk s (num s a)" and cb: "num s b \<notin> P \<Longrightarrow> data_of s b = disk s (num s b)"
  obtains s1 s2 where "brelse a s = Inr s1" "brelse b s1 = Inr s2" "bc_inv s2 P {} pid" "blk s2 = blk s" "disk s2 = disk s"
    "dwrites s2 = dwrites s" "bio_frame s s2"
proof -
  obtain s1 where r1: "brelse a s = Inr s1" "bc_inv s1 P ({a, b} - {a}) pid" "blk s1 = blk s" "disk s1 = disk s" "dwrites s1 = dwrites s"
    "bio_frame s s1" "\<And>i. i < NBUF \<Longrightarrow> num s1 i = num s i \<and> data_of s1 i = data_of s i"
    by (rule brelse_spec[OF inv, of a]) (use ca in auto)
  have h: "{a, b} - {a} = {b}" using ab by auto
  have b: "b < NBUF" using held_facts(1)[OF inv, of b] by simp
  obtain s2 where r2: "brelse b s1 = Inr s2" "bc_inv s2 P ({b} - {b}) pid" "blk s2 = blk s1" "disk s2 = disk s1" "dwrites s2 = dwrites s1"
    "bio_frame s1 s2" by (rule brelse_spec[OF r1(2)[unfolded h], of b]) (use cb r1(4) r1(7)[OF b] in auto)
  show ?thesis by (rule that[OF r1(1) r2(1)]) (use r1 r2 bio_frame_trans[OF r1(6) r2(6)] in simp_all)
qed

lemma blk_length: "bc_inv s P H pid \<Longrightarrow> length (blk s n) = BSIZE"
  using bc_invD(5,6)[of s P H pid] by (auto simp: blk_def find_Some_iff holds_blk_def buf_ok_def split: option.split)

section \<open>The phases of a commit\<close>

text \<open>
  The blocks of the log, and the state of the log with \<open>bs\<close> the blocks of the current transaction:
  they are distinct, fit, and are not blocks of the log itself.
\<close>

definition log_region :: "u32 \<Rightarrow> u32 set" where
  "log_region start = {n. unat start \<le> unat n \<and> unat n \<le> unat start + LOGBLOCKS}"

definition log_ok :: "logst \<Rightarrow> u32 list \<Rightarrow> bool" where
  "log_ok l bs =
     (l_dev l = ROOTDEV \<and> l_n l = int (length bs) \<and> length bs \<le> LOGBLOCKS \<and> length (l_block l) = LOGBLOCKS \<and>
      take (length bs) (l_block l) = bs \<and> distinct bs \<and> (\<forall>b \<in> set bs. b \<notin> log_region (l_start l)) \<and>
      unat (l_start l) + LOGBLOCKS < 2 ^ 32)"

abbreviation logblk :: "u32 \<Rightarrow> nat \<Rightarrow> u32" where
  "logblk start t \<equiv> start + of_nat t + 1"

lemma log_okD:
  assumes "log_ok l bs"
  shows "l_dev l = ROOTDEV" "l_n l = int (length bs)" "length bs \<le> LOGBLOCKS" "length (l_block l) = LOGBLOCKS"
    "t < length bs \<Longrightarrow> l_block l ! t = bs ! t" "distinct bs" "b \<in> set bs \<Longrightarrow> b \<notin> log_region (l_start l)"
    "unat (l_start l) + LOGBLOCKS < 2 ^ 32"
proof -
  show "l_block l ! t = bs ! t" if "t < length bs"
    using assms that nth_take[of t "length bs" "l_block l"] by (simp add: log_ok_def)
qed (use assms in \<open>auto simp: log_ok_def\<close>)

lemma unat_logblk:
  assumes "unat start + LOGBLOCKS < 2 ^ 32" "t < LOGBLOCKS"
  shows "unat (logblk start t) = unat start + t + 1"
proof -
  have "unat (start + of_nat (t + 1)) = unat start + (t + 1)"
    using assms by (simp add: unat_word_ariths unat_of_nat take_bit_eq_mod LOGBLOCKS_def MAXOPBLOCKS_def del: of_nat_add of_nat_Suc)
  then show ?thesis by (simp add: ac_simps)
qed

lemma logblk_region:
  assumes "unat start + LOGBLOCKS < 2 ^ 32" "t < LOGBLOCKS"
  shows "logblk start t \<in> log_region start" "start \<in> log_region start" "logblk start t \<noteq> start"
    "t' < LOGBLOCKS \<Longrightarrow> logblk start t = logblk start t' \<longleftrightarrow> t = t'"
proof -
  note u = unat_logblk[OF assms(1)]
  show "logblk start t \<in> log_region start" using u[OF assms(2)] assms(2) unfolding log_region_def by simp
  show "start \<in> log_region start" by (simp add: log_region_def)
  show "logblk start t \<noteq> start"
  proof
    assume "logblk start t = start"
    then have "unat (logblk start t) = unat start" by (rule arg_cong)
    then show False using u[OF assms(2)] by simp
  qed
  show "logblk start t = logblk start t' \<longleftrightarrow> t = t'" if "t' < LOGBLOCKS"
    using u[OF assms(2)] u[OF that] by (metis add_left_cancel add_right_cancel)
qed

lemma write_log_one_spec:
  assumes inv: "bc_inv s (set bs) {} pid" and ok: "log_ok (lg s) bs" and t: "t < length bs" and room: "length bs < NBUF"
  obtains s' where "write_log_one t s = Inr s'" "bc_inv s' (set bs) {} pid" "bio_frame s s'"
    "disk s' = (disk s)(logblk (l_start (lg s)) t := blk s (bs ! t))" "blk s' = (blk s)(logblk (l_start (lg s)) t := blk s (bs ! t))"
    "dwrites s' = dwrites s @ [(logblk (l_start (lg s)) t, blk s (bs ! t))]"
proof -
  let ?k = "logblk (l_start (lg s)) t" and ?m = "bs ! t"
  note l = log_okD[OF ok]
  have k: "?k \<in> log_region (l_start (lg s))" using logblk_region(1)[OF l(8)] t l(3) by simp
  then have km: "?k \<noteq> ?m" "?k \<notin> set bs" using l(7) t by (auto simp del: of_nat_numeral)
  have room': "card (set bs) + (if ?m \<in> set bs then 1 else 2) \<le> NBUF" using room t distinct_card[OF l(6)] by simp
  obtain a s1 b s2 where r: "bread ROOTDEV ?k s = Inr (a, s1)" "bread ROOTDEV ?m s1 = Inr (b, s2)" "a \<noteq> b"
    "bc_inv s2 (set bs) {b, a} pid" "num s2 a = ?k" "num s2 b = ?m" "data_of s2 b = blk s ?m" "blk s2 = blk s"
    "disk s2 = disk s" "dwrites s2 = dwrites s" "bio_frame s s2" "lg s1 = lg s"
    by (rule read_two[OF inv km(1) room'])
  obtain s3 where w: "bwrite a (set_data a (data_of s2 b) s2) = Inr s3" "bc_inv s3 (set bs) {b, a} pid"
    "blk s3 = (blk s2)(num s2 a := data_of s2 b)" "disk s3 = (disk s2)(num s2 a := data_of s2 b)"
    "dwrites s3 = dwrites s2 @ [(num s2 a, data_of s2 b)]" "bio_frame s2 s3"
    "\<And>i. num s3 i = num s2 i \<and> data_of s3 i = (if i = a then data_of s2 b else data_of s2 i)"
    by (rule write_held[OF r(4), of a "data_of s2 b"]) (use r(7) blk_length[OF inv] in auto)
  obtain s4 s5 where f: "brelse b s3 = Inr s4" "brelse a s4 = Inr s5" "bc_inv s5 (set bs) {} pid" "blk s5 = blk s3" "disk s5 = disk s3"
    "dwrites s5 = dwrites s3" "bio_frame s3 s5"
    by (rule release_two[OF w(2)]) (use r(3,5,6) w(4,7) t in auto)
  have "write_log_one t s = Inr s5"
    using r(1,2,12) w(1) f(1,2) l(1,5) t by (simp add: write_log_one_def)
  moreover have "bio_frame s s5" by (rule bio_frame_trans[OF bio_frame_trans[OF r(11) w(6)] f(7)])
  ultimately show ?thesis
    by (rule that[OF _ f(3)]) (use f w r in simp_all)
qed

text \<open>All the blocks that \<^verbatim>\<open>write_log\<close> and \<^verbatim>\<open>install_trans\<close> write, in order.\<close>

definition log_copies :: "u32 \<Rightarrow> u32 list \<Rightarrow> (u32 \<Rightarrow> u8 list) \<Rightarrow> nat \<Rightarrow> (u32 \<times> u8 list) list" where
  "log_copies start bs d n = map (\<lambda>t. (logblk start t, d (bs ! t))) [0..<n]"

definition home_copies :: "u32 \<Rightarrow> u32 list \<Rightarrow> (u32 \<Rightarrow> u8 list) \<Rightarrow> nat \<Rightarrow> (u32 \<times> u8 list) list" where
  "home_copies start bs d n = map (\<lambda>t. (bs ! t, d (logblk start t))) [0..<n]"

lemma log_copies_other: "\<lbrakk>n \<le> LOGBLOCKS; unat start + LOGBLOCKS < 2 ^ 32; m \<notin> log_region start\<rbrakk> \<Longrightarrow>
    written d (log_copies start bs d' n) m = d m"
  using logblk_region(1)[of start] by (intro written_other) (auto simp: log_copies_def)

lemma write_log_spec:
  assumes inv: "bc_inv s (set bs) {} pid" and ok: "log_ok (lg s) bs" and room: "length bs < NBUF"
  obtains s' where "write_log s = Inr s'" "bc_inv s' (set bs) {} pid" "bio_frame s s'"
    "disk s' = written (disk s) (log_copies (l_start (lg s)) bs (blk s) (length bs))"
    "blk s' = written (blk s) (log_copies (l_start (lg s)) bs (blk s) (length bs))"
    "dwrites s' = dwrites s @ log_copies (l_start (lg s)) bs (blk s) (length bs)"
proof -
  let ?st = "l_start (lg s)"
  note l = log_okD[OF ok]
  have "\<exists>s'. for_each write_log_one [0..<n] s = Inr s' \<and> bc_inv s' (set bs) {} pid \<and> bio_frame s s' \<and>
      disk s' = written (disk s) (log_copies ?st bs (blk s) n) \<and> blk s' = written (blk s) (log_copies ?st bs (blk s) n) \<and>
      dwrites s' = dwrites s @ log_copies ?st bs (blk s) n" if "n \<le> length bs" for n
    using that
  proof (induction n)
    case 0
    then show ?case using inv by (simp add: log_copies_def)
  next
    case (Suc n)
    then obtain s1 where s1: "for_each write_log_one [0..<n] s = Inr s1" "bc_inv s1 (set bs) {} pid" "bio_frame s s1"
      "disk s1 = written (disk s) (log_copies ?st bs (blk s) n)" "blk s1 = written (blk s) (log_copies ?st bs (blk s) n)"
      "dwrites s1 = dwrites s @ log_copies ?st bs (blk s) n" by auto
    have lg: "lg s1 = lg s" by (rule bio_frame_fields(1)[OF s1(3)])
    have "blk s1 (bs ! n) = blk s (bs ! n)"
      unfolding s1(5) using Suc.prems l(3,7,8) by (intro log_copies_other) auto
    with write_log_one_spec[OF s1(2), of n] ok Suc.prems room obtain s2 where
      "write_log_one n s1 = Inr s2" "bc_inv s2 (set bs) {} pid" "bio_frame s1 s2"
      "disk s2 = (disk s1)(logblk ?st n := blk s (bs ! n))" "blk s2 = (blk s1)(logblk ?st n := blk s (bs ! n))"
      "dwrites s2 = dwrites s1 @ [(logblk ?st n, blk s (bs ! n))]" unfolding lg by auto
    then show ?case
      using s1 bio_frame_trans[OF s1(3)] by (auto simp: for_each_append log_copies_def)
  qed
  from this[of "length bs"] show ?thesis using l(2) by (auto simp: write_log_def intro: that)
qed

lemma kprintf_fields:
  "bio_frame s (kprintf fmt as s)" "bufs (kprintf fmt as s) = bufs s" "disk (kprintf fmt as s) = disk s"
  "dwrites (kprintf fmt as s) = dwrites s" "bhead_next (kprintf fmt as s) = bhead_next s" "bhead_prev (kprintf fmt as s) = bhead_prev s"
  by (auto simp: kprintf_def printf_def bio_frame_def bio_strip_def split: option.split)

lemma kprintf_inv:
  assumes "bc_inv s P H pid"
  shows "bc_inv (kprintf fmt as s) P H pid" "blk (kprintf fmt as s) = blk s"
  by (rule bc_inv_frame[OF assms kprintf_fields(1)]; simp add: kprintf_fields)+

lemma install_one_spec:
  assumes inv: "bc_inv s P {} pid" and ok: "log_ok (lg s) bs" and t: "t < length bs" and room: "card P + (if rec then 2 else 1) \<le> NBUF"
    and P: "P \<inter> log_region (l_start (lg s)) = {}" "bs ! t \<in> P \<longleftrightarrow> \<not> rec"
  obtains s' where "install_one rec t s = Inr s'" "bc_inv s' (P - {bs ! t}) {} pid" "bio_frame s s'"
    "disk s' = (disk s)(bs ! t := blk s (logblk (l_start (lg s)) t))" "blk s' = (blk s)(bs ! t := blk s (logblk (l_start (lg s)) t))"
    "dwrites s' = dwrites s @ [(bs ! t, blk s (logblk (l_start (lg s)) t))]"
proof -
  let ?k = "logblk (l_start (lg s)) t" and ?m = "bs ! t"
  define z where "z = (if rec then kprintf (str ''recovering tail %d dst %d'' @ [10]) [AInt (of_nat t), AInt (scast (l_block (lg s) ! t))] s else s)"
  have z: "bc_inv z P {} pid" "blk z = blk s" "bio_frame s z" "disk z = disk s" "dwrites z = dwrites s"
    using inv kprintf_inv[OF inv] kprintf_fields by (auto simp: z_def)
  have lz: "lg z = lg s" by (rule bio_frame_fields(1)[OF z(3)])
  note l = log_okD[OF ok]
  have k: "?k \<in> log_region (l_start (lg s))" using logblk_region(1)[OF l(8)] t l(3) by simp
  then have km: "?k \<noteq> ?m" "?k \<notin> P" using l(7) t P(1) by (auto simp del: of_nat_numeral)
  obtain a s1 b s2 where r: "bread ROOTDEV ?k z = Inr (a, s1)" "bread ROOTDEV ?m s1 = Inr (b, s2)" "a \<noteq> b"
    "bc_inv s2 P {b, a} pid" "num s2 a = ?k" "num s2 b = ?m" "data_of s2 a = blk z ?k" "blk s2 = blk z"
    "disk s2 = disk z" "dwrites s2 = dwrites z" "bio_frame z s2" "lg s1 = lg z"
    by (rule read_two[OF z(1) km(1)]) (use room P(2) in auto)
  have dk: "data_of s2 a = disk s ?k" using r(7) blk_clean[OF inv km(2)] z(2) by simp
  obtain s3 where w: "bwrite b (set_data b (data_of s2 a) s2) = Inr s3" "bc_inv s3 P {b, a} pid"
    "blk s3 = (blk s2)(num s2 b := data_of s2 a)" "disk s3 = (disk s2)(num s2 b := data_of s2 a)"
    "dwrites s3 = dwrites s2 @ [(num s2 b, data_of s2 a)]" "bio_frame s2 s3"
    "\<And>i. num s3 i = num s2 i \<and> data_of s3 i = (if i = b then data_of s2 a else data_of s2 i)"
    by (rule write_held[OF r(4), of b "data_of s2 a"]) (use r(7) blk_length[OF z(1)] in auto)
  define s4 where "s4 = (if rec then s3 else bunpin b s3)"
  have bH: "b \<in> {b, a}" by simp
  note pin = pin_spec[OF w(2) bH]
  have nb: "num s3 b = ?m" using w(7) r(6) by simp
  have s4: "bc_inv s4 (P - {?m}) {a, b} pid"
    using w(2) pin(2) P(2) nb by (cases rec) (simp_all add: s4_def insert_commute)
  have s4': "blk s4 = blk s3" "disk s4 = disk s3" "dwrites s4 = dwrites s3" "bio_frame s3 s4"
    "num s4 i = num s3 i" "data_of s4 i = data_of s3 i" for i
    using pin by (simp_all add: s4_def)
  obtain s5 s6 where f: "brelse a s4 = Inr s5" "brelse b s5 = Inr s6" "bc_inv s6 (P - {?m}) {} pid" "blk s6 = blk s4" "disk s6 = disk s4"
    "dwrites s6 = dwrites s4" "bio_frame s4 s6"
    by (rule release_two[OF s4 r(3)]) (use r(3,5,6,9) w(4,7) s4' dk km z(4) in auto)
  have "install_one rec t s = Inr s6"
    using r(1,2,12) w(1) f(1,2) l(1,5) t lz
    by (simp add: install_one_def Let_def z_def[symmetric] s4_def[symmetric])
  moreover have "bio_frame s s6"
    by (rule bio_frame_trans[OF bio_frame_trans[OF bio_frame_trans[OF bio_frame_trans[OF z(3) r(11)] w(6)] s4'(4)] f(7)])
  ultimately show ?thesis
    by (rule that[OF _ f(3)]) (use f w r z s4' in simp_all)
qed

lemma install_spec:
  assumes inv: "bc_inv s (if rec then {} else set bs) {} pid" and ok: "log_ok (lg s) bs" and room: "length bs < NBUF \<or> rec"
  obtains s' where "install_trans rec s = Inr s'" "bc_inv s' {} {} pid" "bio_frame s s'"
    "disk s' = written (disk s) (home_copies (l_start (lg s)) bs (blk s) (length bs))"
    "dwrites s' = dwrites s @ home_copies (l_start (lg s)) bs (blk s) (length bs)"
proof -
  let ?st = "l_start (lg s)" and ?P = "\<lambda>n. if rec then {} else set (drop n bs)"
  note l = log_okD[OF ok]
  have "\<exists>s'. for_each (install_one rec) [0..<n] s = Inr s' \<and> bc_inv s' (?P n) {} pid \<and> bio_frame s s' \<and>
      disk s' = written (disk s) (home_copies ?st bs (blk s) n) \<and> blk s' = written (blk s) (home_copies ?st bs (blk s) n) \<and>
      dwrites s' = dwrites s @ home_copies ?st bs (blk s) n" if "n \<le> length bs" for n
    using that
  proof (induction n)
    case 0
    then show ?case using inv by (cases rec) (simp_all add: home_copies_def)
  next
    case (Suc n)
    then obtain s1 where s1: "for_each (install_one rec) [0..<n] s = Inr s1" "bc_inv s1 (?P n) {} pid" "bio_frame s s1"
      "disk s1 = written (disk s) (home_copies ?st bs (blk s) n)" "blk s1 = written (blk s) (home_copies ?st bs (blk s) n)"
      "dwrites s1 = dwrites s @ home_copies ?st bs (blk s) n" by auto
    have lg: "lg s1 = lg s" by (rule bio_frame_fields(1)[OF s1(3)])
    have dr: "drop n bs = bs ! n # drop (Suc n) bs" using Suc.prems by (simp add: Cons_nth_drop_Suc)
    have "bs ! n \<notin> set (drop (Suc n) bs)" using l(6) dr by (metis distinct.simps(2) distinct_drop)
    then have P': "?P n - {bs ! n} = ?P (Suc n)" "bs ! n \<in> ?P n \<longleftrightarrow> \<not> rec" using dr by auto
    have "card (set (drop n bs)) \<le> length bs" using card_length[of "drop n bs"] by simp
    then have room': "card (?P n) + (if rec then 2 else 1) \<le> NBUF" using room by (auto simp: NBUF_def MAXOPBLOCKS_def)
    have dis: "?P n \<inter> log_region ?st = {}" using l(7) by (auto dest: in_set_dropD)
    have "logblk ?st n \<notin> fst ` set (home_copies ?st bs (blk s) n)"
      using logblk_region(1)[OF l(8), of n] l(3,7) Suc.prems by (auto simp: home_copies_def)
    then have "blk s1 (logblk ?st n) = blk s (logblk ?st n)" unfolding s1(5) by (rule written_other)
    with install_one_spec[OF s1(2), of bs n rec] ok Suc.prems room' dis P' obtain s2 where
      "install_one rec n s1 = Inr s2" "bc_inv s2 (?P (Suc n)) {} pid" "bio_frame s1 s2"
      "disk s2 = (disk s1)(bs ! n := blk s (logblk ?st n))" "blk s2 = (blk s1)(bs ! n := blk s (logblk ?st n))"
      "dwrites s2 = dwrites s1 @ [(bs ! n, blk s (logblk ?st n))]" unfolding lg by auto
    then show ?case
      using s1 bio_frame_trans[OF s1(3)] by (auto simp: for_each_append home_copies_def)
  qed
  from this[of "length bs"] obtain s' where "for_each (install_one rec) [0..<length bs] s = Inr s'" "bc_inv s' {} {} pid" "bio_frame s s'"
    "disk s' = written (disk s) (home_copies ?st bs (blk s) (length bs))" "dwrites s' = dwrites s @ home_copies ?st bs (blk s) (length bs)"
    by (auto split: if_splits)
  then show ?thesis using l(2) by (intro that) (simp_all add: install_trans_def)
qed

lemma write_head_spec:
  assumes inv: "bc_inv s P {} pid" and dev: "l_dev (lg s) = ROOTDEV" and st: "l_start (lg s) \<notin> P" and room: "card P < NBUF"
    and len: "4 + 4 * min (nat (l_n (lg s))) (length (l_block (lg s))) \<le> BSIZE"
  obtains s' where "write_head s = Inr s'" "bc_inv s' P {} pid" "bio_frame s s'"
    "disk s' = (disk s)(l_start (lg s) := head_bytes (lg s) (blk s (l_start (lg s))))"
    "blk s' = (blk s)(l_start (lg s) := head_bytes (lg s) (blk s (l_start (lg s))))"
    "dwrites s' = dwrites s @ [(l_start (lg s), head_bytes (lg s) (blk s (l_start (lg s))))]"
proof -
  let ?k = "l_start (lg s)" and ?d = "head_bytes (lg s) (blk s (l_start (lg s)))"
  obtain a s1 where a: "bread ROOTDEV ?k s = Inr (a, s1)" "bc_inv s1 P {a} pid" "num s1 a = ?k" "data_of s1 a = blk s ?k"
    "blk s1 = blk s" "disk s1 = disk s" "dwrites s1 = dwrites s" "bio_frame s s1"
    by (rule bread_spec[OF inv, of ?k]) (use room in auto)
  have lg: "lg s1 = lg s" by (rule bio_frame_fields(1)[OF a(8)])
  have "length (concat (map (\<lambda>w. le_bytes 4 w) (take m ws))) = 4 * min m (length ws)" for m and ws :: "u32 list"
    by (simp add: length_concat comp_def sum_list_triv)
  then have ld: "length ?d = BSIZE"
    using len blk_length[OF inv, of ?k] by (simp add: head_bytes_def)
  obtain s2 where w: "bwrite a (set_data a ?d s1) = Inr s2" "bc_inv s2 P {a} pid" "blk s2 = (blk s1)(num s1 a := ?d)"
    "disk s2 = (disk s1)(num s1 a := ?d)" "dwrites s2 = dwrites s1 @ [(num s1 a, ?d)]" "bio_frame s1 s2"
    "\<And>i. num s2 i = num s1 i \<and> data_of s2 i = (if i = a then ?d else data_of s1 i)"
    by (rule write_held[OF a(2) _ ld, of a]) auto
  obtain s3 where r: "brelse a s2 = Inr s3" "bc_inv s3 P ({a} - {a}) pid" "blk s3 = blk s2" "disk s3 = disk s2" "dwrites s3 = dwrites s2"
    "bio_frame s2 s3" by (rule brelse_spec[OF w(2), of a]) (use w(4,7) a(3) in auto)
  have "write_head s = Inr s3" using a(1,4) w(1) r(1) dev lg by (simp add: write_head_def)
  moreover have "bio_frame s s3" by (rule bio_frame_trans[OF bio_frame_trans[OF a(8) w(6)] r(6)])
  ultimately show ?thesis by (intro that[of s3]) (use r w a in simp_all)
qed

section \<open>The header block\<close>

lemma sint_of_nat_u32: "n < 2 ^ 31 \<Longrightarrow> sint (of_nat n :: u32) = int n"
  by (simp add: sint_uint uint_nat unat_of_nat signed_take_bit_int_eq_self take_bit_nat_eq_self)

lemma get_le_put:
  assumes "off + length xs \<le> length d" "k + n \<le> length xs"
  shows "get_le n (put_bytes d off xs) (off + k) = (get_le n xs k :: 'b::len word)"
  using assms by (simp add: get_le_def put_bytes_def)

lemma get_le_append1: "k + n \<le> length xs \<Longrightarrow> get_le n (xs @ ys) k = (get_le n xs k :: 'b::len word)"
  by (simp add: get_le_def)

lemma get_le_append2: "length xs = m \<Longrightarrow> get_le n (xs @ ys) (m + k) = (get_le n ys k :: 'b::len word)"
  by (simp add: get_le_def)

lemma get_le_le_bytes: "LENGTH('b) \<le> 8 * n \<Longrightarrow> get_le n (le_bytes n w) 0 = (w :: 'b::len word)"
  by (simp add: get_le_def le_word_le_bytes)

lemma length_concat_le: "length (concat (map (\<lambda>w. le_bytes n w) ws)) = n * length ws"
  by (simp add: length_concat comp_def sum_list_triv)

lemma get_le_concat:
  fixes ws :: "'b::len word list"
  assumes "i < length ws" "LENGTH('b) \<le> 8 * n"
  shows "get_le n (concat (map (\<lambda>w. le_bytes n w) ws)) (n * i) = ws ! i"
  using assms
proof (induction ws arbitrary: i)
  case (Cons w ws)
  show ?case
  proof (cases i)
    case 0
    then show ?thesis using Cons.prems by (simp add: get_le_append1 get_le_le_bytes)
  next
    case (Suc j)
    then show ?thesis using Cons by (simp add: get_le_append2)
  qed
qed simp

lemma head_bytes_decode:
  assumes "length d = BSIZE" "log_ok l bs"
  shows "sint (get_le 4 (head_bytes l d) 0 :: u32) = int (length bs)"
    and "i < length bs \<Longrightarrow> get_le 4 (head_bytes l d) (4 + 4 * i) = bs ! i" and "length (head_bytes l d) = BSIZE"
proof -
  let ?h = "le_bytes 4 (of_int (l_n l) :: u32)" and ?c = "concat (map (\<lambda>w. le_bytes 4 w) (take (nat (l_n l)) (l_block l)))"
  note l = log_okD[OF assms(2)]
  have tk: "take (nat (l_n l)) (l_block l) = bs" using assms(2) by (simp add: log_ok_def)
  have lc: "length (?h @ ?c) = 4 + 4 * length bs" using length_concat_le[of 4 bs] by (simp add: tk)
  have fit: "0 + length (?h @ ?c) \<le> length d" using l(3) assms(1) unfolding lc by (simp add: BSIZE_def LOGBLOCKS_def MAXOPBLOCKS_def)
  have g: "get_le 4 (head_bytes l d) k = (get_le 4 (?h @ ?c) k :: u32)" if "k + 4 \<le> 4 + 4 * length bs" for k
    using get_le_put[OF fit, of k 4] that unfolding head_bytes_def lc by simp
  have "get_le 4 (head_bytes l d) 0 = (of_int (l_n l) :: u32)"
    using g[of 0] by (simp add: get_le_append1 get_le_le_bytes)
  then show "sint (get_le 4 (head_bytes l d) 0 :: u32) = int (length bs)"
    using l(2,3) by (simp add: sint_of_nat_u32 LOGBLOCKS_def MAXOPBLOCKS_def)
  show "get_le 4 (head_bytes l d) (4 + 4 * i) = bs ! i" if "i < length bs"
    using g[of "4 + 4 * i"] that get_le_concat[of i bs 4] by (simp add: tk get_le_append2)
  show "length (head_bytes l d) = BSIZE" using fit assms(1) by (simp add: head_bytes_def)
qed

text \<open>What a header block says: the blocks of a committed transaction.\<close>

definition header_is :: "u8 list \<Rightarrow> u32 list \<Rightarrow> bool" where
  "header_is h bs = (sint (get_le 4 h 0 :: u32) = int (length bs) \<and> (\<forall>i < length bs. get_le 4 h (4 + 4 * i) = bs ! i))"

lemma header_is_head_bytes: "length d = BSIZE \<Longrightarrow> log_ok l bs \<Longrightarrow> header_is (head_bytes l d) bs"
  by (simp add: header_is_def head_bytes_decode)

lemma log_ok_empty: "log_ok l bs \<Longrightarrow> log_ok (l\<lparr>l_n := 0\<rparr>) []"
  by (simp add: log_ok_def)

lemma read_head_spec:
  assumes inv: "bc_inv s {} {} pid" and dev: "l_dev (lg s) = ROOTDEV" and h: "header_is (disk s (l_start (lg s))) bs"
    and n: "length bs \<le> LOGBLOCKS"
  obtains s' where "read_head s = Inr s'" "bc_inv s' {} {} pid" "disk s' = disk s" "sb s' = sb s" "l_start (lg s') = l_start (lg s)"
    "l_dev (lg s') = ROOTDEV" "l_n (lg s') = int (length bs)" "length (l_block (lg s')) = LOGBLOCKS" "take (length bs) (l_block (lg s')) = bs"
proof -
  let ?k = "l_start (lg s)"
  obtain a s1 where a: "bread ROOTDEV ?k s = Inr (a, s1)" "bc_inv s1 {} {a} pid" "num s1 a = ?k" "data_of s1 a = blk s ?k"
    "disk s1 = disk s" "bio_frame s s1"
    by (rule bread_spec[OF inv, of ?k]) (auto simp: NBUF_def MAXOPBLOCKS_def)
  have d: "data_of s1 a = disk s ?k" using a(4) blk_clean[OF inv, of ?k] by simp
  let ?hd = "disk s ?k" and ?n = "sint (get_le 4 (disk s (l_start (lg s))) 0 :: u32)"
  let ?bl = "map (\<lambda>i. if int i < ?n then get_le 4 ?hd (4 + 4 * i) else l_block (lg s1) ! i) [0..<LOGBLOCKS]"
  let ?f = "\<lambda>l. l\<lparr>l_n := ?n, l_block := ?bl\<rparr>"
  have inv1: "bc_inv (upd_lg ?f s1) {} {a} pid" using a(2) by simp
  obtain s2 where r: "brelse a (upd_lg ?f s1) = Inr s2" "bc_inv s2 {} ({a} - {a}) pid" "disk s2 = disk (upd_lg ?f s1)" "bio_frame (upd_lg ?f s1) s2"
    by (rule brelse_spec[OF inv1, of a]) (use d a(3,5) in auto)
  have n': "?n = int (length bs)" using h by (simp add: header_is_def)
  have e: "read_head s = Inr s2" using a(1) r(1) dev n n' by (simp add: read_head_def Let_def d cong: if_cong)
  have lg1: "lg s1 = lg s" "sb s1 = sb s" by (rule bio_frame_fields[OF a(6)])+
  have lg2: "lg s2 = ?f (lg s1)" "sb s2 = sb s1" using bio_frame_fields(1,2)[OF r(4)] by simp_all
  have "take (length bs) ?bl = bs"
    using h n by (intro nth_equalityI) (simp_all add: header_is_def)
  then show ?thesis by (intro that[OF e]) (use r a lg1 lg2 n' dev in simp_all)
qed

lemma recover_spec:
  assumes inv: "bc_inv s {} {} pid" and dev: "l_dev (lg s) = ROOTDEV" and h: "header_is (disk s (l_start (lg s))) bs"
    and bs: "length bs \<le> LOGBLOCKS" "distinct bs" "\<forall>b \<in> set bs. b \<notin> log_region (l_start (lg s))"
    and st: "unat (l_start (lg s)) + LOGBLOCKS < 2 ^ 32"
  obtains s' where "recover_from_log s = Inr s'" "bc_inv s' {} {} pid" "header_is (disk s' (l_start (lg s))) []"
    "\<And>n. n \<noteq> l_start (lg s) \<Longrightarrow> disk s' n = written (disk s) (home_copies (l_start (lg s)) bs (disk s) (length bs)) n"
proof -
  let ?st = "l_start (lg s)"
  obtain s1 where s1: "read_head s = Inr s1" "bc_inv s1 {} {} pid" "disk s1 = disk s" "l_start (lg s1) = ?st"
    "l_dev (lg s1) = ROOTDEV" "l_n (lg s1) = int (length bs)" "length (l_block (lg s1)) = LOGBLOCKS" "take (length bs) (l_block (lg s1)) = bs"
    by (rule read_head_spec[OF inv dev h bs(1)])
  have ok1: "log_ok (lg s1) bs" using s1 bs st by (simp add: log_ok_def)
  have b1: "blk s1 = disk s" using blk_clean[OF s1(2)] s1(3) by auto
  obtain s2 where s2: "install_trans True s1 = Inr s2" "bc_inv s2 {} {} pid" "bio_frame s1 s2"
    "disk s2 = written (disk s1) (home_copies ?st bs (blk s1) (length bs))"
    by (rule install_spec[of s1 True bs pid]) (use s1 ok1 in auto)
  let ?z = "upd_lg (\<lambda>l. l\<lparr>l_n := 0\<rparr>) s2"
  have lg2: "lg s2 = lg s1" by (rule bio_frame_fields(1)[OF s2(3)])
  have okz: "log_ok (lg ?z) []" using log_ok_empty[OF ok1] lg2 by simp
  have iz: "bc_inv ?z {} {} pid" using s2(2) by simp
  obtain s3 where s3: "write_head ?z = Inr s3" "bc_inv s3 {} {} pid" "bio_frame ?z s3"
    "disk s3 = (disk ?z)(l_start (lg ?z) := head_bytes (lg ?z) (blk ?z (l_start (lg ?z))))"
    by (rule write_head_spec[OF iz]) (use log_okD(1)[OF okz] in \<open>auto simp: NBUF_def MAXOPBLOCKS_def BSIZE_def\<close>)
  have e: "recover_from_log s = Inr s3" using s1(1) s2(1) s3(1) by (simp add: recover_from_log_def)
  have hd: "header_is (disk s3 ?st) []"
    using header_is_head_bytes[OF blk_length[OF iz] okz] s3(4) lg2 s1(4) by simp
  show ?thesis
    by (rule that[OF e s3(2) hd]) (use s3(4) s2(4) s1(3,4) lg2 b1 in simp)
qed

text \<open>The writes of a commit, in order: the log, the header, the home blocks, the cleared header.\<close>

lemma commit_spec:
  assumes inv: "bc_inv s (set bs) {} pid" and ok: "log_ok (lg s) bs" and ne: "bs \<noteq> []" and room: "length bs < NBUF"
  obtains s' h1 h0 where "commit s = Inr s'" "bc_inv s' {} {} pid" "header_is h1 bs" "header_is h0 []"
    "length h1 = BSIZE" "length h0 = BSIZE" "log_ok (lg s') []" "l_start (lg s') = l_start (lg s)"
    "dwrites s' = dwrites s @ log_copies (l_start (lg s)) bs (blk s) (length bs) @ [(l_start (lg s), h1)] @
       map (\<lambda>b. (b, blk s b)) bs @ [(l_start (lg s), h0)]"
    "disk s' = written (disk s) (log_copies (l_start (lg s)) bs (blk s) (length bs) @ [(l_start (lg s), h1)] @
       map (\<lambda>b. (b, blk s b)) bs @ [(l_start (lg s), h0)])"
proof -
  let ?st = "l_start (lg s)" and ?LC = "log_copies (l_start (lg s)) bs (blk s) (length bs)"
  note l = log_okD[OF ok]
  have st: "?st \<notin> set bs" using l(7)[of ?st] by (auto simp: log_region_def)
  have c: "card (set bs) = length bs" by (rule distinct_card[OF l(6)])
  obtain s1 where s1: "write_log s = Inr s1" "bc_inv s1 (set bs) {} pid" "bio_frame s s1" "disk s1 = written (disk s) ?LC"
    "blk s1 = written (blk s) ?LC" "dwrites s1 = dwrites s @ ?LC" by (rule write_log_spec[OF inv ok room])
  have lg1: "lg s1 = lg s" by (rule bio_frame_fields(1)[OF s1(3)])
  let ?h1 = "head_bytes (lg s) (blk s1 ?st)"
  obtain s2 where s2: "write_head s1 = Inr s2" "bc_inv s2 (set bs) {} pid" "bio_frame s1 s2" "disk s2 = (disk s1)(?st := ?h1)"
    "blk s2 = (blk s1)(?st := ?h1)" "dwrites s2 = dwrites s1 @ [(?st, ?h1)]"
    by (rule write_head_spec[OF s1(2)]) (use l(1,2,3,4) lg1 st c room in \<open>auto simp: BSIZE_def LOGBLOCKS_def MAXOPBLOCKS_def\<close>)
  have lg2: "lg s2 = lg s" using bio_frame_fields(1)[OF s2(3)] lg1 by simp
  have HC: "home_copies ?st bs (blk s2) (length bs) = map (\<lambda>b. (b, blk s b)) bs"
  proof (rule nth_equalityI)
    fix i assume "i < length (home_copies ?st bs (blk s2) (length bs))"
    then have i: "i < length bs" by (simp add: home_copies_def)
    have "distinct (map (logblk ?st) [0..<length bs])"
      using logblk_region(4)[OF l(8)] l(3) by (auto simp: distinct_map inj_on_def)
    then have "written (blk s) ?LC (logblk ?st i) = blk s (bs ! i)"
      unfolding log_copies_def using i by (intro written_map) auto
    moreover have "logblk ?st i \<noteq> ?st" using logblk_region(3)[OF l(8), of i] i l(3) by simp
    ultimately show "home_copies ?st bs (blk s2) (length bs) ! i = map (\<lambda>b. (b, blk s b)) bs ! i"
      using i by (simp add: home_copies_def s2(5) s1(5))
  qed (simp add: home_copies_def)
  obtain s3 where s3: "install_trans False s2 = Inr s3" "bc_inv s3 {} {} pid" "bio_frame s2 s3"
    "disk s3 = written (disk s2) (map (\<lambda>b. (b, blk s b)) bs)" "dwrites s3 = dwrites s2 @ map (\<lambda>b. (b, blk s b)) bs"
    by (rule install_spec[of s2 False bs pid]) (use s2 ok lg2 room HC in auto)
  let ?z = "upd_lg (\<lambda>l. l\<lparr>l_n := 0\<rparr>) s3"
  have lg3: "lg s3 = lg s" using bio_frame_fields(1)[OF s3(3)] lg2 by simp
  have okz: "log_ok (lg ?z) []" using log_ok_empty[OF ok] lg3 by simp
  have iz: "bc_inv ?z {} {} pid" using s3(2) by simp
  let ?h0 = "head_bytes (lg ?z) (blk ?z ?st)"
  obtain s4 where s4: "write_head ?z = Inr s4" "bc_inv s4 {} {} pid" "bio_frame ?z s4" "disk s4 = (disk ?z)(?st := ?h0)"
    "dwrites s4 = dwrites ?z @ [(?st, ?h0)]"
    by (rule write_head_spec[OF iz]) (use l(1) lg3 in \<open>auto simp: NBUF_def MAXOPBLOCKS_def BSIZE_def\<close>)
  have e: "commit s = Inr s4" using s1(1) s2(1) s3(1) s4(1) l(2) ne by (simp add: commit_def)
  have lg4: "lg s4 = lg ?z" by (rule bio_frame_fields(1)[OF s4(3)])
  show ?thesis
    by (rule that[OF e s4(2) header_is_head_bytes[OF blk_length[OF s1(2)] ok] header_is_head_bytes[OF blk_length[OF iz] okz]])
      (use head_bytes_decode(3)[OF blk_length[OF s1(2)] ok] head_bytes_decode(3)[OF blk_length[OF iz] okz] okz lg4 lg3 s1 s2 s3 s4 in simp_all)
qed

end
