(* ===== verification/Xv6_Trans.thy ===== *)
theory Xv6_Trans
  imports Xv6_Log
begin

text \<open>
  Transactions as the file system uses them: reading a block, changing it in the cache and recording
  it with \<^verbatim>\<open>log_write\<close> (\<^verbatim>\<open>kernel/log.c\<close>), releasing it. The lemmas say what each of the three does
  to the blocks as the system sees them (\<open>blk\<close>); \<^verbatim>\<open>kernel/fs.c\<close> is verified on top of them.
\<close>

section \<open>The state inside a transaction\<close>

text \<open>The blocks \<open>bs\<close> are logged and not yet on the disk; the process holds the buffers \<open>H\<close>.\<close>

definition tx_inv :: "'a fsst_scheme \<Rightarrow> u32 list \<Rightarrow> nat set \<Rightarrow> int \<Rightarrow> bool" where
  "tx_inv s bs H pid = (bc_inv s (set bs) H pid \<and> log_ok (lg s) bs \<and> l_outstanding (lg s) \<ge> 1)"

definition logged :: "u32 \<Rightarrow> u32 list \<Rightarrow> u32 list" where
  "logged n bs = (if n \<in> set bs then bs else bs @ [n])"

lemma set_logged [simp]: "set (logged n bs) = insert n (set bs)"
  by (auto simp: logged_def)

lemma length_logged: "length (logged n bs) = (if n \<in> set bs then length bs else length bs + 1)"
  by (simp add: logged_def)

text \<open>What a block operation inside a transaction leaves alone.\<close>

definition tx_frame :: "'a fsst_scheme \<Rightarrow> 'a fsst_scheme \<Rightarrow> bool" where
  "tx_frame s s' = (bio_frame (upd_lg (\<lambda>_. lg s') s) s' \<and> disk s' = disk s \<and> dwrites s' = dwrites s \<and>
     l_start (lg s') = l_start (lg s) \<and> l_outstanding (lg s') = l_outstanding (lg s) \<and> l_committing (lg s') = l_committing (lg s))"

lemma tx_frame_refl [simp]: "tx_frame s s"
  by (simp add: tx_frame_def upd_lg_def)

lemma bio_frame_upd_lg: "bio_frame s s' \<Longrightarrow> bio_frame (upd_lg f s) (upd_lg f s')"
  unfolding bio_frame_def bio_strip_def upd_lg_def by (cases s; cases s') simp

lemma tx_frame_trans:
  assumes "tx_frame s s1" "tx_frame s1 s2"
  shows "tx_frame s s2"
proof -
  have "bio_frame (upd_lg (\<lambda>_. lg s2) (upd_lg (\<lambda>_. lg s1) s)) (upd_lg (\<lambda>_. lg s2) s1)"
    using assms by (intro bio_frame_upd_lg) (simp add: tx_frame_def)
  moreover have "upd_lg (\<lambda>_. lg s2) (upd_lg (\<lambda>_. lg s1) s) = upd_lg (\<lambda>_. lg s2) s" by (simp add: upd_lg_def)
  ultimately show ?thesis using assms bio_frame_trans by (auto simp: tx_frame_def)
qed

lemma tx_frame_fields:
  assumes "tx_frame s s'"
  shows "sb s' = sb s" "itable s' = itable s" "curproc s' = curproc s" "l_start (lg s') = l_start (lg s)"
    "disk s' = disk s" "dwrites s' = dwrites s" "l_outstanding (lg s') = l_outstanding (lg s)"
  using assms bio_frame_fields(2,3,6)[of "upd_lg (\<lambda>_. lg s') s" s'] by (auto simp: tx_frame_def)

lemma tx_frame_bio: "bio_frame s s' \<Longrightarrow> disk s' = disk s \<Longrightarrow> dwrites s' = dwrites s \<Longrightarrow> tx_frame s s'"
  using bio_frame_fields(1)[of s s'] by (simp add: tx_frame_def upd_lg_def)

section \<open>Reading, changing and releasing a block\<close>

lemma tx_read:
  assumes inv: "tx_inv s bs H pid" and nh: "\<forall>i \<in> H. num s i \<noteq> n" and room: "n \<in> set bs \<or> length bs + card H < NBUF"
  obtains b s' where "bread ROOTDEV n s = Inr (b, s')" "b \<notin> H" "tx_inv s' bs (insert b H) pid" "num s' b = n"
    "data_of s' b = blk s n" "blk s' = blk s" "tx_frame s s'" "\<And>i. i \<noteq> b \<Longrightarrow> bufs s' ! i = bufs s ! i"
proof -
  have i: "bc_inv s (set bs) H pid" "log_ok (lg s) bs" "l_outstanding (lg s) \<ge> 1" using inv by (simp_all add: tx_inv_def)
  have c: "card (set bs) = length bs" by (rule distinct_card[OF log_okD(6)[OF i(2)]])
  obtain b s' where r: "bread ROOTDEV n s = Inr (b, s')" "b \<notin> H" "bc_inv s' (set bs) (insert b H) pid" "num s' b = n"
    "data_of s' b = blk s n" "blk s' = blk s" "disk s' = disk s" "dwrites s' = dwrites s" "bio_frame s s'"
    "\<And>i. i \<noteq> b \<Longrightarrow> bufs s' ! i = bufs s ! i"
    by (rule bread_spec[OF i(1) nh]) (use room c in auto)
  have "tx_inv s' bs (insert b H) pid" using r(3) i(2,3) bio_frame_fields(1)[OF r(9)] by (simp add: tx_inv_def)
  from that[OF r(1,2) this r(4-6) tx_frame_bio[OF r(9,7,8)] r(10)] show ?thesis .
qed

lemma tx_release:
  assumes inv: "tx_inv s bs H pid" and b: "b \<in> H" and clean: "num s b \<in> set bs \<or> data_of s b = disk s (num s b)"
  obtains s' where "brelse b s = Inr s'" "tx_inv s' bs (H - {b}) pid" "blk s' = blk s" "tx_frame s s'"
    "\<And>i. i < NBUF \<Longrightarrow> num s' i = num s i \<and> data_of s' i = data_of s i"
proof -
  have i: "bc_inv s (set bs) H pid" "log_ok (lg s) bs" "l_outstanding (lg s) \<ge> 1" using inv by (simp_all add: tx_inv_def)
  obtain s' where r: "brelse b s = Inr s'" "bc_inv s' (set bs) (H - {b}) pid" "blk s' = blk s" "disk s' = disk s"
    "dwrites s' = dwrites s" "bio_frame s s'" "\<And>i. i < NBUF \<Longrightarrow> num s' i = num s i \<and> data_of s' i = data_of s i"
    by (rule brelse_spec[OF i(1) b]) (use clean in auto)
  have "tx_inv s' bs (H - {b}) pid" using r(2) i(2,3) bio_frame_fields(1)[OF r(6)] by (simp add: tx_inv_def)
  from that[OF r(1) this r(3) tx_frame_bio[OF r(6,4,5)] r(7)] show ?thesis .
qed

lemma log_ok_logged:
  assumes ok: "log_ok l bs" and n: "n \<notin> log_region (l_start l)" "n \<notin> set bs" and room: "length bs < LOGBLOCKS"
  shows "log_ok (l\<lparr>l_block := (l_block l)[length bs := n], l_n := l_n l + 1\<rparr>) (bs @ [n])"
  using assms by (auto simp: log_ok_def take_Suc_conv_app_nth)

lemma log_write_eq:
  assumes ok: "log_ok (lg s) bs" and out: "l_outstanding (lg s) \<ge> 1" and room: "length bs < LOGBLOCKS"
  shows "log_write b s = Inr (if num s b \<in> set bs then s
    else upd_lg (\<lambda>l. l\<lparr>l_block := (l_block l)[length bs := num s b], l_n := l_n l + 1\<rparr>) (bpin b s))"
proof -
  note l = log_okD[OF ok]
  have t: "take (length bs) (l_block (lg s)) = bs" using ok by (simp add: log_ok_def)
  show ?thesis
  proof (cases "num s b \<in> set bs")
    case True
    then obtain i where i: "first_idx (\<lambda>w. w = num s b) bs = Some i"
      by (cases "first_idx (\<lambda>w. w = num s b) bs") (auto simp: first_idx_None_iff)
    then have "i < length bs" "i \<noteq> length bs" "bs ! i = num s b" by (auto dest: first_idx_SomeD)
    moreover from this have "(l_block (lg s))[i := num s b] = l_block (lg s)"
      using l(5)[of i] by (metis list_update_id)
    then have "upd_lg (\<lambda>l. l\<lparr>l_block := (l_block l)[i := num s b]\<rparr>) s = s" by (simp add: upd_lg_def)
    ultimately show ?thesis using True i t l(2) out room by (simp add: log_write_def Let_def)
  next
    case False
    then have "first_idx (\<lambda>w. w = num s b) bs = None" by (auto simp: first_idx_None_iff)
    then show ?thesis using False t l(2) out room
      by (simp add: log_write_def Let_def bpin_def upd_buf_def upd_lg_def)
  qed
qed

lemma tx_write:
  assumes inv: "tx_inv s bs H pid" and b: "b \<in> H" and d: "length d = BSIZE"
    and n: "num s b \<notin> log_region (l_start (lg s))" and room: "length bs < LOGBLOCKS"
  obtains s' where "log_write b (set_data b d s) = Inr s'" "tx_inv s' (logged (num s b) bs) H pid" "blk s' = (blk s)(num s b := d)"
    "tx_frame s s'" "\<And>i. num s' i = num s i \<and> data_of s' i = (if i = b then d else data_of s i)"
proof -
  have i: "bc_inv s (set bs) H pid" "log_ok (lg s) bs" "l_outstanding (lg s) \<ge> 1" using inv by (simp_all add: tx_inv_def)
  note sd = set_data_spec[OF i(1) b d]
  have lg: "lg (set_data b d s) = lg s" by (rule bio_frame_fields(1)[OF sd(7)])
  note p = pin_spec[OF sd(1) b]
  have e: "log_write b (set_data b d s) = Inr (if num s b \<in> set bs then set_data b d s
      else upd_lg (\<lambda>l. l\<lparr>l_block := (l_block l)[length bs := num s b], l_n := l_n l + 1\<rparr>) (bpin b (set_data b d s)))"
    using log_write_eq[of "set_data b d s" bs b] i(2,3) room lg sd(3) by simp
  have lp: "lg (bpin b (set_data b d s)) = lg s" using bio_frame_fields(1)[OF p(9)] lg by simp
  show ?thesis
  proof (cases "num s b \<in> set bs")
    case True
    show ?thesis
      by (rule that[of "set_data b d s"]) (use e True i lg sd in \<open>simp_all add: tx_inv_def logged_def tx_frame_bio\<close>)
  next
    case False
    let ?z = "bpin b (set_data b d s)" and ?f = "\<lambda>l. l\<lparr>l_block := (l_block l)[length bs := num s b], l_n := l_n l + 1\<rparr>"
    have z: "tx_frame s ?z" using bio_frame_trans[OF sd(7) p(9)] sd(5,6) p(5,7) by (intro tx_frame_bio) simp_all
    have "tx_frame ?z (upd_lg ?f ?z)" by (simp add: tx_frame_def upd_lg_def)
    note fr = tx_frame_trans[OF z this]
    have "log_ok (?f (lg s)) (bs @ [num s b])" by (rule log_ok_logged[OF i(2) n False room])
    moreover have "bc_inv ?z (insert (num s b) (set bs)) H pid" using p(1) sd(3) False by simp
    ultimately have "tx_inv (upd_lg ?f ?z) (logged (num s b) bs) H pid"
      using i(3) lp False by (simp add: tx_inv_def logged_def)
    from that[OF _ this _ fr] show ?thesis using e False p sd(2-4) by simp
  qed
qed

text \<open>Reading a block and letting go of it, and changing a block: the two patterns of \<^verbatim>\<open>kernel/fs.c\<close>.\<close>

lemma tx_clean:
  assumes inv: "tx_inv s bs H pid" and nh: "\<forall>i \<in> H. num s i \<noteq> n"
  shows "n \<in> set bs \<or> blk s n = disk s n"
  using assms blk_clean[of s "set bs" H pid n] by (auto simp: tx_inv_def holds_blk_def)

lemma tx_inv_held: "tx_inv s bs H pid \<Longrightarrow> b \<in> H \<Longrightarrow> b < NBUF \<and> blk s (num s b) = data_of s b \<and> length (data_of s b) = BSIZE"
  using held_facts(1,6,9)[of s "set bs" H pid b] by (simp add: tx_inv_def)

lemma tx_peek:
  assumes inv: "tx_inv s bs H pid" and nh: "\<forall>i \<in> H. num s i \<noteq> n" and room: "n \<in> set bs \<or> length bs + card H < NBUF"
  obtains b s1 s2 where "bread ROOTDEV n s = Inr (b, s1)" "data_of s1 b = blk s n" "tx_frame s s1" "brelse b s1 = Inr s2"
    "tx_inv s2 bs H pid" "blk s2 = blk s" "tx_frame s s2" "\<And>i. i \<in> H \<Longrightarrow> num s2 i = num s i \<and> data_of s2 i = data_of s i"
proof -
  obtain b s1 where r: "bread ROOTDEV n s = Inr (b, s1)" "b \<notin> H" "tx_inv s1 bs (insert b H) pid" "num s1 b = n"
    "data_of s1 b = blk s n" "blk s1 = blk s" "tx_frame s s1" "\<And>i. i \<noteq> b \<Longrightarrow> bufs s1 ! i = bufs s ! i"
    by (rule tx_read[OF inv nh room]) blast
  obtain s2 where f: "brelse b s1 = Inr s2" "tx_inv s2 bs (insert b H - {b}) pid" "blk s2 = blk s1" "tx_frame s1 s2"
    "\<And>i. i < NBUF \<Longrightarrow> num s2 i = num s1 i \<and> data_of s2 i = data_of s1 i"
    by (rule tx_release[OF r(3), of b]) (use r(4,5) tx_clean[OF inv nh] tx_frame_fields(5)[OF r(7)] in auto)
  have "num s2 i = num s i \<and> data_of s2 i = data_of s i" if "i \<in> H" for i
  proof -
    have "i \<noteq> b" using that r(2) by auto
    then show ?thesis using f(5)[of i] r(8)[of i] tx_inv_held[OF inv that] by simp
  qed
  then show ?thesis
    by (intro that[OF r(1,5,7) f(1)]) (use f(2,3) r(2,6) tx_frame_trans[OF r(7) f(4)] in auto)
qed

lemma tx_update:
  assumes inv: "tx_inv s bs H pid" and nh: "\<forall>i \<in> H. num s i \<noteq> n" and room: "length bs + card H < NBUF"
    and n: "n \<notin> log_region (l_start (lg s))" and d: "length (f (blk s n)) = BSIZE"
  obtains b s1 s2 s3 where "bread ROOTDEV n s = Inr (b, s1)" "data_of s1 b = blk s n" "tx_frame s s1"
    "log_write b (set_data b (f (data_of s1 b)) s1) = Inr s2" "brelse b s2 = Inr s3"
    "tx_inv s3 (logged n bs) H pid" "blk s3 = (blk s)(n := f (blk s n))" "tx_frame s s3"
    "\<And>i. i \<in> H \<Longrightarrow> num s3 i = num s i \<and> data_of s3 i = data_of s i"
proof -
  have room': "n \<in> set bs \<or> length bs + card H < NBUF" "length bs < LOGBLOCKS"
    using room by (simp_all add: LOGBLOCKS_def NBUF_def MAXOPBLOCKS_def)
  obtain b s1 where r: "bread ROOTDEV n s = Inr (b, s1)" "b \<notin> H" "tx_inv s1 bs (insert b H) pid" "num s1 b = n"
    "data_of s1 b = blk s n" "blk s1 = blk s" "tx_frame s s1" "\<And>i. i \<noteq> b \<Longrightarrow> bufs s1 ! i = bufs s ! i"
    by (rule tx_read[OF inv nh room'(1)]) blast
  obtain s2 where w: "log_write b (set_data b (f (data_of s1 b)) s1) = Inr s2" "tx_inv s2 (logged (num s1 b) bs) (insert b H) pid"
    "blk s2 = (blk s1)(num s1 b := f (data_of s1 b))" "tx_frame s1 s2"
    "\<And>i. num s2 i = num s1 i \<and> data_of s2 i = (if i = b then f (data_of s1 b) else data_of s1 i)"
    by (rule tx_write[OF r(3), of b "f (data_of s1 b)"]) (use r(4,5) n d room'(2) tx_frame_fields(4)[OF r(7)] in auto)
  obtain s3 where x: "brelse b s2 = Inr s3" "tx_inv s3 (logged (num s1 b) bs) (insert b H - {b}) pid" "blk s3 = blk s2" "tx_frame s2 s3"
    "\<And>i. i < NBUF \<Longrightarrow> num s3 i = num s2 i \<and> data_of s3 i = data_of s2 i"
    by (rule tx_release[OF w(2), of b]) (use w(5) r(4) in auto)
  have "num s3 i = num s i \<and> data_of s3 i = data_of s i" if "i \<in> H" for i
  proof -
    have "i \<noteq> b" using that r(2) by auto
    then show ?thesis using x(5)[of i] w(5)[of i] r(8)[of i] tx_inv_held[OF inv that] by simp
  qed
  then show ?thesis
    by (intro that[OF r(1,5,7) w(1) x(1)]) (use x(2,3) w(3) r tx_frame_trans[OF tx_frame_trans[OF r(7) w(4)] x(4)] in auto)
qed

lemma le_word_zeros: "le_word (replicate k 0) = 0"
  by (induction k) simp_all

end
