(* ===== verification/Xv6_Inode.thy ===== *)
theory Xv6_Inode
  imports Xv6_Trans
begin

text \<open>
  Disk blocks and inodes, the first part of \<^verbatim>\<open>kernel/fs.c\<close>: the super block, the bitmap of
  free blocks, inodes on disk and in memory, and reading and writing file contents. A run stops where
  the process would have to wait for a lock that another process holds.
\<close>

section \<open>Super block and free blocks\<close>

definition readsb :: "u32 \<Rightarrow> 'a fsst_scheme \<Rightarrow> 'a fsst_scheme res" where
  "readsb dev s =
     andthen (bread dev 1 s) (\<lambda>(bp, s1).
       let d = data_of s1 bp in
       brelse bp (s1\<lparr>sb := \<lparr>sb_magic = get_le 4 d 0, sb_size = get_le 4 d 4, sb_nblocks = get_le 4 d 8, sb_ninodes = get_le 4 d 12,
                          sb_nlog = get_le 4 d 16, sb_logstart = get_le 4 d 20, sb_inodestart = get_le 4 d 24,
                          sb_bmapstart = get_le 4 d 28\<rparr>\<rparr>))"

definition bzero :: "u32 \<Rightarrow> u32 \<Rightarrow> 'a fsst_scheme \<Rightarrow> 'a fsst_scheme res" where
  "bzero dev bno s =
     andthen (bread dev bno s) (\<lambda>(bp, s1).
     andthen (log_write bp (set_data bp (replicate BSIZE 0) s1)) (\<lambda>s2. brelse bp s2))"

definition BBLOCK :: "u32 \<Rightarrow> superblock \<Rightarrow> u32" where
  "BBLOCK b k = b div of_nat BPB + sb_bmapstart k"

definition bit_mask :: "nat \<Rightarrow> u8" where
  "bit_mask bi = push_bit (bi mod 8) 1"

definition bit_free :: "u8 list \<Rightarrow> nat \<Rightarrow> bool" where
  "bit_free d bi = (d ! (bi div 8) AND bit_mask bi = 0)"

definition set_bitmap :: "u8 list \<Rightarrow> nat \<Rightarrow> u8 list" where
  "set_bitmap d bi = d[bi div 8 := d ! (bi div 8) OR bit_mask bi]"

definition clear_bitmap :: "u8 list \<Rightarrow> nat \<Rightarrow> u8 list" where
  "clear_bitmap d bi = d[bi div 8 := d ! (bi div 8) AND NOT (bit_mask bi)]"

text \<open>The outer loop of \<^verbatim>\<open>balloc\<close> over the bitmap blocks, whose first bits are the list.\<close>

fun balloc_loop :: "nat list \<Rightarrow> u32 \<Rightarrow> 'a fsst_scheme \<Rightarrow> (u32 \<times> 'a fsst_scheme) res" where
  "balloc_loop [] dev s = Inr (0, kprintf (str ''balloc: out of blocks'' @ [10]) [] s)"
| "balloc_loop (b # bs) dev s =
     andthen (bread dev (BBLOCK (of_nat b) (sb s)) s) (\<lambda>(bp, s1).
       case find (\<lambda>bi. b + bi < unat (sb_size (sb s1)) \<and> bit_free (data_of s1 bp) bi) [0..<BPB] of
         Some bi \<Rightarrow>
           andthen (log_write bp (set_data bp (set_bitmap (data_of s1 bp) bi) s1)) (\<lambda>s2.
           andthen (brelse bp s2) (\<lambda>s3.
           andthen (bzero dev (of_nat (b + bi)) s3) (\<lambda>s4. Inr (of_nat (b + bi), s4))))
       | None \<Rightarrow> andthen (brelse bp s1) (\<lambda>s2. balloc_loop bs dev s2))"

definition bitmap_starts :: "superblock \<Rightarrow> nat list" where
  "bitmap_starts k = map (\<lambda>j. j * BPB) [0..<(unat (sb_size k) + BPB - 1) div BPB]"

definition balloc :: "u32 \<Rightarrow> 'a fsst_scheme \<Rightarrow> (u32 \<times> 'a fsst_scheme) res" where
  "balloc dev s = balloc_loop (bitmap_starts (sb s)) dev s"

definition bfree :: "u32 \<Rightarrow> u32 \<Rightarrow> 'a fsst_scheme \<Rightarrow> 'a fsst_scheme res" where
  "bfree dev b s =
     andthen (bread dev (BBLOCK b (sb s)) s) (\<lambda>(bp, s1).
       let bi = unat b mod BPB in
       if bit_free (data_of s1 bp) bi then Inl (Panic ''freeing free block'')
       else andthen (log_write bp (set_data bp (clear_bitmap (data_of s1 bp) bi) s1)) (\<lambda>s2. brelse bp s2))"

section \<open>Inodes\<close>

text \<open>The on-disk inode, 64 bytes, 16 of them in a block.\<close>

record dinode =
  d_type :: u16
  d_major :: u16
  d_minor :: u16
  d_nlink :: u16
  d_size :: u32
  d_addrs :: "u32 list"

definition IBLOCK :: "u32 \<Rightarrow> superblock \<Rightarrow> u32" where
  "IBLOCK i k = i div of_nat IPB + sb_inodestart k"

definition dinode_off :: "u32 \<Rightarrow> nat" where
  "dinode_off inum = 64 * (unat inum mod IPB)"

definition get_dinode :: "u8 list \<Rightarrow> nat \<Rightarrow> dinode" where
  "get_dinode d off =
     \<lparr>d_type = get_le 2 d off, d_major = get_le 2 d (off + 2), d_minor = get_le 2 d (off + 4), d_nlink = get_le 2 d (off + 6),
      d_size = get_le 4 d (off + 8), d_addrs = map (\<lambda>k. get_le 4 d (off + 12 + 4 * k)) [0..<NDIRECT + 1]\<rparr>"

definition dinode_bytes :: "dinode \<Rightarrow> u8 list" where
  "dinode_bytes di =
     le_bytes 2 (d_type di) @ le_bytes 2 (d_major di) @ le_bytes 2 (d_minor di) @ le_bytes 2 (d_nlink di) @
     le_bytes 4 (d_size di) @ concat (map (\<lambda>w. le_bytes 4 w) (d_addrs di))"

definition put_dinode :: "u8 list \<Rightarrow> nat \<Rightarrow> dinode \<Rightarrow> u8 list" where
  "put_dinode d off di = put_bytes d off (dinode_bytes di)"

definition iinit :: "'a fsst_scheme \<Rightarrow> 'a fsst_scheme" where
  "iinit s = s\<lparr>itable := map (\<lambda>ip. ip\<lparr>i_lock := initsleeplock\<rparr>) (itable s)\<rparr>"

definition iget :: "u32 \<Rightarrow> u32 \<Rightarrow> 'a fsst_scheme \<Rightarrow> (nat \<times> 'a fsst_scheme) res" where
  "iget dev inum s =
     (case first_idx (\<lambda>ip. i_ref ip > 0 \<and> i_dev ip = dev \<and> i_inum ip = inum) (itable s) of
        Some i \<Rightarrow> Inr (i, upd_inode i (\<lambda>ip. ip\<lparr>i_ref := i_ref ip + 1\<rparr>) s)
      | None \<Rightarrow>
          case first_idx (\<lambda>ip. i_ref ip = 0) (itable s) of
            None \<Rightarrow> Inl (Panic ''iget: no inodes'')
          | Some i \<Rightarrow> Inr (i, upd_inode i (\<lambda>ip. ip\<lparr>i_dev := dev, i_inum := inum, i_ref := 1, i_valid := False\<rparr>) s))"

fun ialloc_loop :: "nat list \<Rightarrow> u32 \<Rightarrow> u16 \<Rightarrow> 'a fsst_scheme \<Rightarrow> (nat option \<times> 'a fsst_scheme) res" where
  "ialloc_loop [] dev type s = Inr (None, kprintf (str ''ialloc: no inodes'' @ [10]) [] s)"
| "ialloc_loop (inum # is) dev type s =
     andthen (bread dev (IBLOCK (of_nat inum) (sb s)) s) (\<lambda>(bp, s1).
       let off = dinode_off (of_nat inum); d = data_of s1 bp in
       if d_type (get_dinode d off) = 0 then
         andthen (log_write bp (set_data bp (put_le 2 (put_bytes d off (replicate 64 0)) off type) s1)) (\<lambda>s2.
         andthen (brelse bp s2) (\<lambda>s3.
         andthen (iget dev (of_nat inum) s3) (\<lambda>(i, s4). Inr (Some i, s4))))
       else andthen (brelse bp s1) (\<lambda>s2. ialloc_loop is dev type s2))"

definition ialloc :: "u32 \<Rightarrow> u16 \<Rightarrow> 'a fsst_scheme \<Rightarrow> (nat option \<times> 'a fsst_scheme) res" where
  "ialloc dev type s = ialloc_loop [1..<unat (sb_ninodes (sb s))] dev type s"

definition to_dinode :: "inode \<Rightarrow> dinode" where
  "to_dinode ip = \<lparr>d_type = i_type ip, d_major = i_major ip, d_minor = i_minor ip, d_nlink = i_nlink ip, d_size = i_size ip,
                   d_addrs = i_addrs ip\<rparr>"

definition iupdate :: "nat \<Rightarrow> 'a fsst_scheme \<Rightarrow> 'a fsst_scheme res" where
  "iupdate i s =
     (let ip = itable s ! i in
      andthen (bread (i_dev ip) (IBLOCK (i_inum ip) (sb s)) s) (\<lambda>(bp, s1).
        let ip = itable s1 ! i in
        andthen (log_write bp (set_data bp (put_dinode (data_of s1 bp) (dinode_off (i_inum ip)) (to_dinode ip)) s1))
          (\<lambda>s2. brelse bp s2)))"

definition idup :: "nat \<Rightarrow> 'a fsst_scheme \<Rightarrow> 'a fsst_scheme" where
  "idup i s = upd_inode i (\<lambda>ip. ip\<lparr>i_ref := i_ref ip + 1\<rparr>) s"

definition ilock :: "nat option \<Rightarrow> 'a fsst_scheme \<Rightarrow> 'a fsst_scheme res" where
  "ilock ipo s =
     (case ipo of
        None \<Rightarrow> Inl (Panic ''ilock'')
      | Some i \<Rightarrow>
          if i_ref (itable s ! i) < 1 then Inl (Panic ''ilock'')
          else andthen (lock_inode i s) (\<lambda>s1.
            if \<not> i_valid (itable s1 ! i) then
              let ip = itable s1 ! i in
              andthen (bread (i_dev ip) (IBLOCK (i_inum ip) (sb s1)) s1) (\<lambda>(bp, s2).
                let di = get_dinode (data_of s2 bp) (dinode_off (i_inum ip)) in
                andthen (brelse bp (upd_inode i (\<lambda>ip. ip\<lparr>i_type := d_type di, i_major := d_major di, i_minor := d_minor di,
                      i_nlink := d_nlink di, i_size := d_size di, i_addrs := d_addrs di\<rparr>) s2)) (\<lambda>s3.
                let s4 = upd_inode i (\<lambda>ip. ip\<lparr>i_valid := True\<rparr>) s3 in
                if i_type (itable s4 ! i) = 0 then Inl (Panic ''ilock: no type'') else Inr s4))
            else Inr s1))"

definition iunlock :: "nat option \<Rightarrow> 'a fsst_scheme \<Rightarrow> 'a fsst_scheme res" where
  "iunlock ipo s =
     (case ipo of
        None \<Rightarrow> Inl (Panic ''iunlock'')
      | Some i \<Rightarrow>
          if \<not> holdingsleep (i_lock (itable s ! i)) s \<or> i_ref (itable s ! i) < 1 then Inl (Panic ''iunlock'')
          else Inr (unlock_inode i s))"

section \<open>File contents\<close>

definition bmap :: "nat \<Rightarrow> u32 \<Rightarrow> 'a fsst_scheme \<Rightarrow> (u32 \<times> 'a fsst_scheme) res" where
  "bmap i bn s =
     (if unat bn < NDIRECT then
        let addr = i_addrs (itable s ! i) ! unat bn in
        if addr = 0 then
          andthen (balloc (i_dev (itable s ! i)) s) (\<lambda>(addr, s1).
            if addr = 0 then Inr (0, s1)
            else Inr (addr, upd_inode i (\<lambda>ip. ip\<lparr>i_addrs := (i_addrs ip)[unat bn := addr]\<rparr>) s1))
        else Inr (addr, s)
      else
        let bn = bn - of_nat NDIRECT in
        if unat bn < NINDIRECT then
          let addr = i_addrs (itable s ! i) ! NDIRECT in
          andthen (if addr = 0 then
                     andthen (balloc (i_dev (itable s ! i)) s) (\<lambda>(addr, s1).
                       if addr = 0 then Inr (0, s1)
                       else Inr (addr, upd_inode i (\<lambda>ip. ip\<lparr>i_addrs := (i_addrs ip)[NDIRECT := addr]\<rparr>) s1))
                   else Inr (addr, s)) (\<lambda>(addr, s1).
            if addr = 0 then Inr (0, s1)
            else andthen (bread (i_dev (itable s1 ! i)) addr s1) (\<lambda>(bp, s2).
              let a = get_le 4 (data_of s2 bp) (4 * unat bn) in
              if a = 0 then
                andthen (balloc (i_dev (itable s2 ! i)) s2) (\<lambda>(a, s3).
                andthen (if a \<noteq> 0 then log_write bp (set_data bp (put_le 4 (data_of s3 bp) (4 * unat bn) a) s3) else Inr s3)
                  (\<lambda>s4. andthen (brelse bp s4) (\<lambda>s5. Inr (a, s5))))
              else andthen (brelse bp s2) (\<lambda>s3. Inr (a, s3))))
        else Inl (Panic ''bmap: out of range''))"

definition trunc_direct :: "nat \<Rightarrow> nat \<Rightarrow> 'a fsst_scheme \<Rightarrow> 'a fsst_scheme res" where
  "trunc_direct i k s =
     (if i_addrs (itable s ! i) ! k \<noteq> 0
      then andthen (bfree (i_dev (itable s ! i)) (i_addrs (itable s ! i) ! k) s) (\<lambda>s1.
             Inr (upd_inode i (\<lambda>ip. ip\<lparr>i_addrs := (i_addrs ip)[k := 0]\<rparr>) s1))
      else Inr s)"

definition trunc_entry :: "nat \<Rightarrow> nat \<Rightarrow> nat \<Rightarrow> 'a fsst_scheme \<Rightarrow> 'a fsst_scheme res" where
  "trunc_entry i bp j s =
     (let a = get_le 4 (data_of s bp) (4 * j) in
      if a \<noteq> 0 then bfree (i_dev (itable s ! i)) a s else Inr s)"

definition itrunc :: "nat \<Rightarrow> 'a fsst_scheme \<Rightarrow> 'a fsst_scheme res" where
  "itrunc i s =
     andthen (for_each (trunc_direct i) [0..<NDIRECT] s) (\<lambda>s1.
     andthen (if i_addrs (itable s1 ! i) ! NDIRECT \<noteq> 0 then
                andthen (bread (i_dev (itable s1 ! i)) (i_addrs (itable s1 ! i) ! NDIRECT) s1) (\<lambda>(bp, s2).
                andthen (for_each (trunc_entry i bp) [0..<NINDIRECT] s2) (\<lambda>s3.
                andthen (brelse bp s3) (\<lambda>s4.
                andthen (bfree (i_dev (itable s4 ! i)) (i_addrs (itable s4 ! i) ! NDIRECT) s4) (\<lambda>s5.
                Inr (upd_inode i (\<lambda>ip. ip\<lparr>i_addrs := (i_addrs ip)[NDIRECT := 0]\<rparr>) s5)))))
              else Inr s1) (\<lambda>s2.
     iupdate i (upd_inode i (\<lambda>ip. ip\<lparr>i_size := 0\<rparr>) s2)))"

definition iput :: "nat \<Rightarrow> 'a fsst_scheme \<Rightarrow> 'a fsst_scheme res" where
  "iput i s =
     (let ip = itable s ! i in
      andthen (if i_ref ip = 1 \<and> i_valid ip \<and> i_nlink ip = 0 then
                 andthen (lock_inode i s) (\<lambda>s1.
                 andthen (itrunc i s1) (\<lambda>s2.
                 andthen (iupdate i (upd_inode i (\<lambda>ip. ip\<lparr>i_type := 0\<rparr>) s2)) (\<lambda>s3.
                 Inr (unlock_inode i (upd_inode i (\<lambda>ip. ip\<lparr>i_valid := False\<rparr>) s3)))))
               else Inr s) (\<lambda>s1.
      Inr (upd_inode i (\<lambda>ip. ip\<lparr>i_ref := i_ref ip - 1\<rparr>) s1)))"

definition iunlockput :: "nat \<Rightarrow> 'a fsst_scheme \<Rightarrow> 'a fsst_scheme res" where
  "iunlockput i s = andthen (iunlock (Some i) s) (\<lambda>s1. iput i s1)"

definition reclaim_one :: "u32 \<Rightarrow> nat \<Rightarrow> 'a fsst_scheme \<Rightarrow> 'a fsst_scheme res" where
  "reclaim_one dev inum s =
     andthen (bread dev (IBLOCK (of_nat inum) (sb s)) s) (\<lambda>(bp, s1).
       let di = get_dinode (data_of s1 bp) (dinode_off (of_nat inum)) in
       andthen (if d_type di \<noteq> 0 \<and> d_nlink di = 0
                then andthen (iget dev (of_nat inum) (kprintf (str ''ireclaim: orphaned inode %d'' @ [10]) [AInt (of_nat inum)] s1))
                       (\<lambda>(i, s2). Inr (Some i, s2))
                else Inr (None, s1)) (\<lambda>(ipo, s2).
       andthen (brelse bp s2) (\<lambda>s3.
         case ipo of
           None \<Rightarrow> Inr s3
         | Some i \<Rightarrow>
             andthen (begin_op_now s3) (\<lambda>s4.
             andthen (ilock (Some i) s4) (\<lambda>s5.
             andthen (iunlock (Some i) s5) (\<lambda>s6.
             andthen (iput i s6) (\<lambda>s7. end_op s7)))))))"

definition ireclaim :: "u32 \<Rightarrow> 'a fsst_scheme \<Rightarrow> 'a fsst_scheme res" where
  "ireclaim dev s = for_each (reclaim_one dev) [1..<unat (sb_ninodes (sb s))] s"

definition fsinit :: "u32 \<Rightarrow> 'a fsst_scheme \<Rightarrow> 'a fsst_scheme res" where
  "fsinit dev s =
     andthen (readsb dev s) (\<lambda>s1.
       if sb_magic (sb s1) \<noteq> FSMAGIC then Inl (Panic ''invalid file system'')
       else andthen (initlog dev s1) (\<lambda>s2. ireclaim dev s2))"

record stat =
  st_dev :: u32
  st_ino :: u32
  st_type :: u16
  st_nlink :: u16
  st_size :: u64

definition stati :: "inode \<Rightarrow> stat" where
  "stati ip = \<lparr>st_dev = i_dev ip, st_ino = i_inum ip, st_type = i_type ip, st_nlink = i_nlink ip, st_size = ucast (i_size ip)\<rparr>"

text \<open>
  Where \<^verbatim>\<open>readi\<close> puts data and where \<^verbatim>\<open>writei\<close> takes it from: user memory, kernel memory,
  or a local variable of the caller, whose bytes are then part of the result or of the argument.
\<close>

datatype dest = ToUser u64 | ToKernel u64 | ToLocal

datatype source = FromUser u64 | FromKernel u64 | FromLocal "u8 list"

fun dest_copy :: "dest \<Rightarrow> u8 list \<Rightarrow> 'a fsst_scheme \<Rightarrow> (int \<times> 'a fsst_scheme) res" where
  "dest_copy (ToUser a) bs s = either_copyout True a bs s"
| "dest_copy (ToKernel a) bs s = either_copyout False a bs s"
| "dest_copy ToLocal bs s = Inr (0, s)"

fun dest_add :: "dest \<Rightarrow> nat \<Rightarrow> dest" where
  "dest_add (ToUser a) m = ToUser (a + of_nat m)"
| "dest_add (ToKernel a) m = ToKernel (a + of_nat m)"
| "dest_add ToLocal m = ToLocal"

fun source_copy :: "source \<Rightarrow> nat \<Rightarrow> 'a fsst_scheme \<Rightarrow> (int \<times> u8 list \<times> 'a fsst_scheme) res" where
  "source_copy (FromUser a) m s = either_copyin True a m s"
| "source_copy (FromKernel a) m s = either_copyin False a m s"
| "source_copy (FromLocal bs) m s = Inr (0, take m bs, s)"

fun source_add :: "source \<Rightarrow> nat \<Rightarrow> source" where
  "source_add (FromUser a) m = FromUser (a + of_nat m)"
| "source_add (FromKernel a) m = FromKernel (a + of_nat m)"
| "source_add (FromLocal bs) m = FromLocal (drop m bs)"

text \<open>
  The loops of \<^verbatim>\<open>readi\<close> and \<^verbatim>\<open>writei\<close>: \<open>left\<close> is \<^verbatim>\<open>n - tot\<close>; the result has
  \<^verbatim>\<open>tot\<close> and, for \<^verbatim>\<open>readi\<close>, the bytes read, for \<^verbatim>\<open>writei\<close>, the offset reached.
\<close>

definition step_len :: "nat \<Rightarrow> u32 \<Rightarrow> nat" where
  "step_len n off = min n (BSIZE - unat off mod BSIZE)"

lemma step_len_pos: "0 < n \<Longrightarrow> 0 < step_len n off"
  by (simp add: step_len_def BSIZE_def)

function readi_loop :: "nat \<Rightarrow> dest \<Rightarrow> u32 \<Rightarrow> nat \<Rightarrow> nat \<Rightarrow> u8 list \<Rightarrow> 'a fsst_scheme \<Rightarrow> (int \<times> u8 list \<times> 'a fsst_scheme) res" where
  "readi_loop i dst off left tot acc s =
     (if left = 0 then Inr (int tot, acc, s)
      else andthen (bmap i (off div of_nat BSIZE) s) (\<lambda>(addr, s1).
        if addr = 0 then Inr (int tot, acc, s1)
        else andthen (bread (i_dev (itable s1 ! i)) addr s1) (\<lambda>(bp, s2).
          let m = step_len left off;
              bs = take m (drop (unat off mod BSIZE) (data_of s2 bp)) in
          andthen (dest_copy dst bs s2) (\<lambda>(r, s3).
            if r = -1 then andthen (brelse bp s3) (\<lambda>s4. Inr (-1, acc, s4))
            else andthen (brelse bp s3) (\<lambda>s4. readi_loop i (dest_add dst m) (off + of_nat m) (left - m) (tot + m) (acc @ bs) s4)))))"
  by pat_completeness auto
termination
  by (relation "measure (\<lambda>(i, dst, off, left, tot, acc, s). left)") (auto intro!: diff_less step_len_pos)

declare readi_loop.simps [simp del]

definition readi :: "nat \<Rightarrow> dest \<Rightarrow> u32 \<Rightarrow> u32 \<Rightarrow> 'a fsst_scheme \<Rightarrow> (int \<times> u8 list \<times> 'a fsst_scheme) res" where
  "readi i dst off n s =
     (let size = i_size (itable s ! i) in
      if off > size \<or> off + n < off then Inr (0, [], s)
      else let n = (if off + n > size then size - off else n)
           in readi_loop i dst off (unat n) 0 [] s)"

function writei_loop :: "nat \<Rightarrow> source \<Rightarrow> u32 \<Rightarrow> nat \<Rightarrow> nat \<Rightarrow> 'a fsst_scheme \<Rightarrow> (nat \<times> u32 \<times> 'a fsst_scheme) res" where
  "writei_loop i src off left tot s =
     (if left = 0 then Inr (tot, off, s)
      else andthen (bmap i (off div of_nat BSIZE) s) (\<lambda>(addr, s1).
        if addr = 0 then Inr (tot, off, s1)
        else andthen (bread (i_dev (itable s1 ! i)) addr s1) (\<lambda>(bp, s2).
          let m = step_len left off in
          andthen (source_copy src m s2) (\<lambda>(r, bs, s3).
            let s4 = set_data bp (put_bytes (data_of s3 bp) (unat off mod BSIZE) bs) s3 in
            if r = -1 then andthen (brelse bp s4) (\<lambda>s5. Inr (tot, off, s5))
            else andthen (log_write bp s4) (\<lambda>s5.
                 andthen (brelse bp s5) (\<lambda>s6.
                 writei_loop i (source_add src m) (off + of_nat m) (left - m) (tot + m) s6))))))"
  by pat_completeness auto
termination
  by (relation "measure (\<lambda>(i, src, off, left, tot, s). left)") (auto intro!: diff_less step_len_pos)

declare writei_loop.simps [simp del]

definition writei :: "nat \<Rightarrow> source \<Rightarrow> u32 \<Rightarrow> u32 \<Rightarrow> 'a fsst_scheme \<Rightarrow> (int \<times> 'a fsst_scheme) res" where
  "writei i src off n s =
     (if off > i_size (itable s ! i) \<or> off + n < off then Inr (-1, s)
      else if off + n > of_nat (MAXFILE * BSIZE) then Inr (-1, s)
      else andthen (writei_loop i src off (unat n) 0 s) (\<lambda>(tot, off', s1).
        let s2 = (if off' > i_size (itable s1 ! i) then upd_inode i (\<lambda>ip. ip\<lparr>i_size := off'\<rparr>) s1 else s1) in
        andthen (iupdate i s2) (\<lambda>s3. Inr (int tot, s3))))"

end
