(* ===== verification/Xv6_Dir.thy ===== *)
theory Xv6_Dir
  imports Xv6_Inode
begin

text \<open>
  Directories and path names, the second part of \<^verbatim>\<open>kernel/fs.c\<close>. A directory entry has 16
  bytes: an inode number and a name of at most \<^const>\<open>DIRSIZ\<close> characters, padded with zeros and not
  terminated when it has that many. A path is the characters of a C string, without its terminator; a
  local array is taken to hold zeros before its first use, which nothing relies on.
\<close>

section \<open>Directories\<close>

definition namecmp :: "u8 list \<Rightarrow> u8 list \<Rightarrow> int" where
  "namecmp a b = strncmp (cptr_of a) (cptr_of b) DIRSIZ"

definition de_inum :: "u8 list \<Rightarrow> u16" where
  "de_inum de = get_le 2 de 0"

definition de_name :: "u8 list \<Rightarrow> u8 list" where
  "de_name de = take DIRSIZ (drop 2 de)"

text \<open>The offsets of the entries of a directory; its size does not change while they are read.\<close>

definition de_offsets :: "u32 \<Rightarrow> nat list" where
  "de_offsets sz = map (\<lambda>k. 16 * k) [0..<(unat sz + 15) div 16]"

fun dirlookup_loop :: "nat list \<Rightarrow> nat \<Rightarrow> u8 list \<Rightarrow> 'a fsst_scheme \<Rightarrow> ((nat \<times> u32) option \<times> 'a fsst_scheme) res" where
  "dirlookup_loop [] dp nm s = Inr (None, s)"
| "dirlookup_loop (off # offs) dp nm s =
     andthen (readi dp ToLocal (of_nat off) 16 s) (\<lambda>(r, de, s1).
       if r \<noteq> 16 then Inl (Panic ''dirlookup read'')
       else if de_inum de = 0 then dirlookup_loop offs dp nm s1
       else if namecmp nm (de_name de) = 0
       then andthen (iget (i_dev (itable s1 ! dp)) (ucast (de_inum de)) s1) (\<lambda>(i, s2). Inr (Some (i, of_nat off), s2))
       else dirlookup_loop offs dp nm s1)"

definition dirlookup :: "nat \<Rightarrow> u8 list \<Rightarrow> 'a fsst_scheme \<Rightarrow> ((nat \<times> u32) option \<times> 'a fsst_scheme) res" where
  "dirlookup dp nm s =
     (if i_type (itable s ! dp) \<noteq> T_DIR then Inl (Panic ''dirlookup not DIR'')
      else dirlookup_loop (de_offsets (i_size (itable s ! dp))) dp nm s)"

text \<open>The search for an empty entry; \<open>stop\<close> is the offset after the last one.\<close>

fun dirlink_slot :: "nat list \<Rightarrow> nat \<Rightarrow> nat \<Rightarrow> 'a fsst_scheme \<Rightarrow> (nat \<times> 'a fsst_scheme) res" where
  "dirlink_slot [] stop dp s = Inr (stop, s)"
| "dirlink_slot (off # offs) stop dp s =
     andthen (readi dp ToLocal (of_nat off) 16 s) (\<lambda>(r, de, s1).
       if r \<noteq> 16 then Inl (Panic ''dirlink read'')
       else if de_inum de = 0 then Inr (off, s1)
       else dirlink_slot offs stop dp s1)"

definition de_bytes :: "u32 \<Rightarrow> u8 list \<Rightarrow> u8 list" where
  "de_bytes inum nm = le_bytes 2 (ucast inum :: u16) @ strncpy (cptr_of nm) DIRSIZ"

definition dirlink :: "nat \<Rightarrow> u8 list \<Rightarrow> u32 \<Rightarrow> 'a fsst_scheme \<Rightarrow> (int \<times> 'a fsst_scheme) res" where
  "dirlink dp nm inum s =
     andthen (dirlookup dp nm s) (\<lambda>(r, s1).
       case r of
         Some (ip, _) \<Rightarrow> andthen (iput ip s1) (\<lambda>s2. Inr (-1, s2))
       | None \<Rightarrow>
           let offs = de_offsets (i_size (itable s1 ! dp)) in
           andthen (dirlink_slot offs (16 * length offs) dp s1) (\<lambda>(off, s2).
           andthen (writei dp (FromLocal (de_bytes inum nm)) (of_nat off) 16 s2) (\<lambda>(r, s3).
             if r \<noteq> 16 then Inr (-1, s3) else Inr (0, s3))))"

section \<open>Paths\<close>

abbreviation slash :: u8 where
  "slash \<equiv> 0x2f"

definition skipelem :: "u8 list \<Rightarrow> u8 list \<Rightarrow> (u8 list \<times> u8 list) option" where
  "skipelem path nm =
     (let p = dropWhile (\<lambda>c. c = slash) path in
      if p = [] then None
      else let e = takeWhile (\<lambda>c. c \<noteq> slash) p;
               len = length e;
               nm' = (if len \<ge> DIRSIZ then take DIRSIZ e @ drop DIRSIZ nm else e @ [0] @ drop (len + 1) nm)
           in Some (dropWhile (\<lambda>c. c = slash) (dropWhile (\<lambda>c. c \<noteq> slash) p), nm'))"

lemma skipelem_shorter: "skipelem path nm = Some (p, nm') \<Longrightarrow> length p < length path"
proof -
  assume a: "skipelem path nm = Some (p, nm')"
  let ?q = "dropWhile (\<lambda>c. c = slash) path"
  from a have q: "?q \<noteq> []" "p = dropWhile (\<lambda>c. c = slash) (dropWhile (\<lambda>c. c \<noteq> slash) ?q)"
    by (auto simp: skipelem_def Let_def split: if_splits)
  have "length p \<le> length (dropWhile (\<lambda>c. c \<noteq> slash) ?q)" unfolding q(2) by (rule length_dropWhile_le)
  also have "\<dots> < length ?q" using q(1) hd_dropWhile[OF q(1)] by (cases ?q) (simp_all add: le_imp_less_Suc length_dropWhile_le)
  also have "\<dots> \<le> length path" by (rule length_dropWhile_le)
  finally show ?thesis .
qed

function namex_loop :: "nat \<Rightarrow> bool \<Rightarrow> u8 list \<Rightarrow> u8 list \<Rightarrow> 'a fsst_scheme \<Rightarrow> (nat option \<times> u8 list \<times> 'a fsst_scheme) res" where
  "namex_loop ip parent path nm s =
     (case skipelem path nm of
        None \<Rightarrow> if parent then andthen (iput ip s) (\<lambda>s1. Inr (None, nm, s1)) else Inr (Some ip, nm, s)
      | Some (path', nm') \<Rightarrow>
          andthen (ilock (Some ip) s) (\<lambda>s1.
            if i_type (itable s1 ! ip) \<noteq> T_DIR then andthen (iunlockput ip s1) (\<lambda>s2. Inr (None, nm', s2))
            else if parent \<and> path' = [] then andthen (iunlock (Some ip) s1) (\<lambda>s2. Inr (Some ip, nm', s2))
            else andthen (dirlookup ip nm' s1) (\<lambda>(r, s2).
              case r of
                None \<Rightarrow> andthen (iunlockput ip s2) (\<lambda>s3. Inr (None, nm', s3))
              | Some (next, _) \<Rightarrow> andthen (iunlockput ip s2) (\<lambda>s3. namex_loop next parent path' nm' s3))))"
  by pat_completeness auto
termination
  by (relation "measure (\<lambda>(ip, parent, path, nm, s). length path)") (auto dest: skipelem_shorter)

declare namex_loop.simps [simp del]

definition namex :: "u8 list \<Rightarrow> bool \<Rightarrow> 'a fsst_scheme \<Rightarrow> (nat option \<times> u8 list \<times> 'a fsst_scheme) res" where
  "namex path parent s =
     andthen (if path \<noteq> [] \<and> hd path = slash then iget ROOTDEV ROOTINO s
              else case curproc s of
                     None \<Rightarrow> Inl (Panic ''kerneltrap'')
                   | Some p \<Rightarrow>
                       (case p_cwd (procs s ! p) of
                          None \<Rightarrow> Inl (Panic ''kerneltrap'')
                        | Some ip \<Rightarrow> Inr (ip, idup ip s))) (\<lambda>(ip, s1).
     namex_loop ip parent path (replicate DIRSIZ 0) s1)"

definition namei :: "u8 list \<Rightarrow> 'a fsst_scheme \<Rightarrow> (nat option \<times> 'a fsst_scheme) res" where
  "namei path s = andthen (namex path False s) (\<lambda>(r, nm, s1). Inr (r, s1))"

definition nameiparent :: "u8 list \<Rightarrow> 'a fsst_scheme \<Rightarrow> (nat option \<times> u8 list \<times> 'a fsst_scheme) res" where
  "nameiparent path s = namex path True s"

end
