(* ===== verification/Xv6_Ucopy.thy ===== *)
theory Xv6_Ucopy
  imports Xv6_Uvm
begin

text \<open>
  User memory as the process sees it, and what \<^verbatim>\<open>copyout\<close> and \<^verbatim>\<open>copyin\<close> of
  \<^verbatim>\<open>kernel/vm.c\<close> do to it when the pages are present: the bytes of an address space are read
  through its leaf entries, and storing through one page leaves every other page of the address
  space, the page table and the free list alone.
\<close>

section \<open>User memory\<close>

definition user_at :: "memory \<Rightarrow> u64 \<Rightarrow> u64 \<Rightarrow> u8" where
  "user_at m pt va = m (PTE2PA (leaf m pt va) + (va - PGROUNDDOWN va))"

definition user_ok :: "memory \<Rightarrow> u64 \<Rightarrow> bool \<Rightarrow> u64 \<Rightarrow> bool" where
  "user_ok m pt w va \<longleftrightarrow> va < TRAPFRAME \<and> bit (leaf m pt va) 0 \<and> bit (leaf m pt va) 4 \<and> (w \<longrightarrow> bit (leaf m pt va) 2)"

definition user_range :: "memory \<Rightarrow> u64 \<Rightarrow> bool \<Rightarrow> u64 \<Rightarrow> nat \<Rightarrow> bool" where
  "user_range m pt w va n \<longleftrightarrow> unat va + n \<le> unat TRAPFRAME \<and> (\<forall>k < n. user_ok m pt w (va + of_nat k))"

definition user_bytes :: "memory \<Rightarrow> u64 \<Rightarrow> u64 \<Rightarrow> nat \<Rightarrow> u8 list" where
  "user_bytes m pt va n = map (\<lambda>k. user_at m pt (va + of_nat k)) [0..<n]"

text \<open>The user bytes from \<open>va\<close> on are now \<open>bs\<close>; the page table and the free list are as before.\<close>

definition user_wrote :: "'a kmem_scheme \<Rightarrow> memory \<Rightarrow> u64 \<Rightarrow> u64 list \<Rightarrow> u64 \<Rightarrow> u8 list \<Rightarrow> bool" where
  "user_wrote s m' pt ps va bs \<longleftrightarrow>
     as_ok (s\<lparr>mem := m'\<rparr>) pt ps \<and> (\<forall>vb. leaf m' pt vb = leaf (mem s) pt vb) \<and>
     (\<forall>vb. user_ok (mem s) pt False vb \<longrightarrow>
        user_at m' pt vb = (if unat (vb - va) < length bs then bs ! unat (vb - va) else user_at (mem s) pt vb))"

lemma same_user_page: "unat va mod 4096 + d < 4096 \<Longrightarrow> PGROUNDDOWN (va + of_nat d) = PGROUNDDOWN va"
proof -
  assume d: "unat va mod 4096 + d < 4096"
  have "unat va < 18446744073709551616" using unsigned_less[where 'a = nat, of va] by simp
  then have "unat va div 4096 < 4503599627370496" by (simp add: less_mult_imp_div_less)
  then have "unat va + d < 18446744073709551616" using d div_mult_mod_eq[of "unat va" 4096] by linarith
  then have "unat (va + of_nat d) = unat va + d" by (simp add: unat_word_ariths unat_of_nat_u64)
  moreover have "unat va + d = (unat va mod 4096 + d) + unat va div 4096 * 4096" by simp
  then have "(unat va + d) div 4096 = unat va div 4096" using d by (metis add.commute div_mult_self1 div_less add_0 zero_neq_numeral)
  ultimately show ?thesis by (simp add: word_unat_eq_iff unat_PGROUNDDOWN)
qed

lemma user_upage: "va < TRAPFRAME \<Longrightarrow> upage (PGROUNDDOWN va) \<and> va < MAXVA"
  using PGROUNDDOWN_le[of va] by (auto simp: upage_def layout_defs word_less_nat_alt word_le_nat_alt)

lemma user_leaf_page:
  assumes "as_ok s pt ps" "user_ok (mem s) pt w va"
  shows "valid_page s (PTE2PA (leaf (mem s) pt va))" "PTE2PA (leaf (mem s) pt va) \<notin> set ps"
    "PTE2PA (leaf (mem s) pt va) \<notin> pgs (mem s) 2 pt"
  using as_ok_leaf[OF assms(1), of "PGROUNDDOWN va"] assms(2) user_upage[of va] leaf_round[of va "mem s" pt]
  by (simp_all add: user_ok_def user_leaf_ok_def)

lemma user_pages_apart:
  assumes "as_ok s pt ps" "user_ok (mem s) pt False va" "user_ok (mem s) pt False vb" "PGROUNDDOWN va \<noteq> PGROUNDDOWN vb"
  shows "PTE2PA (leaf (mem s) pt va) \<noteq> PTE2PA (leaf (mem s) pt vb)"
  using assms user_upage[of va] user_upage[of vb] leaf_round[of va "mem s" pt] leaf_round[of vb "mem s" pt]
  unfolding as_ok_def user_ok_def by simp

lemma offset_in_page: "in_page p (p + (va - PGROUNDDOWN va))"
  by (simp add: in_page_def page_offset)

section \<open>One store through a page\<close>

lemma as_ok_same:
  assumes "as_ok s pt ps" "\<And>p. p \<in> pgs (mem s) 2 pt \<Longrightarrow> same_page (mem s) m' p" "\<And>p. p \<in> set ps \<Longrightarrow> same_page (mem s) m' p"
  shows "as_ok (s\<lparr>mem := m'\<rparr>) pt ps" "leaf m' pt vb = leaf (mem s) pt vb"
proof -
  have t: "pgs m' 2 pt = pgs (mem s) 2 pt" "tree_ok m' 2 pt = tree_ok (mem s) 2 pt" using tree_same[OF assms(2)] by auto
  have l: "leaf m' pt v = leaf (mem s) pt v" for v by (rule leaf_at_same[OF assms(2)])
  then show "leaf m' pt vb = leaf (mem s) pt vb" .
  have "free_list s ps" using assms(1) by (simp add: as_ok_def pt_inv_def)
  then have "free_list (s\<lparr>mem := m'\<rparr>) ps" by (rule free_list_cong) (simp_all add: assms(3))
  moreover have "valid_page (s\<lparr>mem := m'\<rparr>) p = valid_page s p" for p by (simp add: valid_page_def)
  ultimately show "as_ok (s\<lparr>mem := m'\<rparr>) pt ps" using assms(1) t l by (simp add: as_ok_def pt_inv_def user_leaf_ok_def cong: if_cong)
qed

lemma store_user:
  assumes as: "as_ok s pt ps" and va: "user_ok (mem s) pt w va" and fit: "unat va mod 4096 + length bs \<le> 4096"
  defines "m' \<equiv> store_bytes (mem s) (PTE2PA (leaf (mem s) pt va) + (va - PGROUNDDOWN va)) bs"
  shows "user_wrote s m' pt ps va bs"
proof -
  let ?pa = "PTE2PA (leaf (mem s) pt va)" and ?off = "va - PGROUNDDOWN va"
  note pa = user_leaf_page[OF as va]
  have other: "same_page (mem s) m' q" if "page_aligned q" "q \<noteq> ?pa" for q
    unfolding same_page_def m'_def
  proof (intro allI impI)
    fix x assume x: "in_page q x"
    have "\<not> unat (x - (?pa + ?off)) < length bs"
    proof
      assume l: "unat (x - (?pa + ?off)) < length bs"
      then have "unat (x - (?pa + ?off) + ?off) = unat (x - (?pa + ?off)) + unat va mod 4096"
        using fit unat_word_ariths(1)[of "x - (?pa + ?off)" ?off] unfolding page_offset by simp
      then have "in_page ?pa x" using l fit by (simp add: in_page_def)
      then show False using in_page_disjoint[of ?pa q x] that x pa(1) by (simp add: valid_page_def)
    qed
    then show "mem s x = store_bytes (mem s) (?pa + ?off) bs x" by (simp add: store_bytes_def)
  qed
  have pt: "same_page (mem s) m' p" if "p \<in> pgs (mem s) 2 pt" for p
    using other pt_inv_aligned[OF as_ok_pt[OF as] that] that pa(3) by metis
  have fr: "same_page (mem s) m' p" if "p \<in> set ps" for p
    using other as that pa(2) by (auto simp: as_ok_def pt_inv_def free_list_def valid_page_def)
  note as' = as_ok_same[OF as pt fr]
  have "user_at m' pt vb = (if unat (vb - va) < length bs then bs ! unat (vb - va) else user_at (mem s) pt vb)"
    if vb: "user_ok (mem s) pt False vb" for vb
  proof (cases "PGROUNDDOWN vb = PGROUNDDOWN va")
    case True
    then have "leaf (mem s) pt vb = leaf (mem s) pt va"
      using leaf_round[of va "mem s" pt] leaf_round[of vb "mem s" pt] va vb user_upage by (metis user_ok_def)
    moreover have "?pa + (vb - PGROUNDDOWN va) - (?pa + ?off) = vb - va" by simp
    ultimately have "m' (PTE2PA (leaf (mem s) pt vb) + (vb - PGROUNDDOWN va)) =
        (if unat (vb - va) < length bs then bs ! unat (vb - va) else mem s (PTE2PA (leaf (mem s) pt vb) + (vb - PGROUNDDOWN va)))"
      by (simp add: m'_def store_bytes_def)
    then show ?thesis by (simp add: user_at_def as'(2) True)
  next
    case False
    have "\<not> unat (vb - va) < length bs"
      using False same_user_page[of va "unat (vb - va)"] fit by auto
    moreover have "PTE2PA (leaf (mem s) pt vb) \<noteq> ?pa"
      using user_pages_apart[OF as vb _ False] va by (simp add: user_ok_def)
    then have "same_page (mem s) m' (PTE2PA (leaf (mem s) pt vb))"
      using user_leaf_page(1)[OF as vb] by (intro other) (simp_all add: valid_page_def)
    then have "user_at m' pt vb = user_at (mem s) pt vb"
      using offset_in_page[of "PTE2PA (leaf (mem s) pt vb)" vb] by (simp add: user_at_def as'(2) same_page_def)
    ultimately show ?thesis by simp
  qed
  with as' show ?thesis by (simp add: user_wrote_def)
qed

section \<open>The copy loops\<close>

lemma user_wrote_trans:
  assumes "user_wrote s m1 pt ps va bs" "user_wrote (s\<lparr>mem := m1\<rparr>) m2 pt ps (va + of_nat (length bs)) cs"
    and fit: "length bs + length cs \<le> 0x4000000000"
  shows "user_wrote s m2 pt ps va (bs @ cs)"
  unfolding user_wrote_def
proof (intro conjI allI impI)
  show "as_ok (s\<lparr>mem := m2\<rparr>) pt ps" using assms(2) by (simp add: user_wrote_def)
  show "leaf m2 pt vb = leaf (mem s) pt vb" for vb using assms(1,2) by (simp add: user_wrote_def)
  fix vb assume vb: "user_ok (mem s) pt False vb"
  let ?d = "vb - va"
  have "user_ok m1 pt False vb" using vb assms(1) by (simp add: user_wrote_def user_ok_def)
  then have e: "user_at m2 pt vb = (if unat (?d - of_nat (length bs)) < length cs then cs ! unat (?d - of_nat (length bs))
      else if unat ?d < length bs then bs ! unat ?d else user_at (mem s) pt vb)"
    using assms(1,2) vb by (simp add: user_wrote_def diff_diff_eq)
  have l: "unat (of_nat (length bs) :: u64) = length bs" using fit by (simp add: unat_of_nat_u64)
  show "user_at m2 pt vb = (if unat ?d < length (bs @ cs) then (bs @ cs) ! unat ?d else user_at (mem s) pt vb)"
  proof (cases "unat ?d < length bs")
    case True
    then have "?d < of_nat (length bs)" by (simp add: word_less_nat_alt l)
    then have "unat (?d - of_nat (length bs)) = 18446744073709551616 + unat ?d - length bs"
      using l True unat_sub_if_size[of ?d "of_nat (length bs)"] by (simp add: word_size)
    then have "\<not> unat (?d - of_nat (length bs)) < length cs" using fit by linarith
    then show ?thesis using True e by (simp add: nth_append)
  next
    case False
    then have "of_nat (length bs) \<le> ?d" by (simp add: word_le_nat_alt l)
    then have "unat (?d - of_nat (length bs)) = unat ?d - length bs" by (simp add: unat_sub l)
    then show ?thesis using False e by (auto simp: nth_append)
  qed
qed

lemma user_wrote_Nil: "as_ok s pt ps \<Longrightarrow> user_wrote s (mem s) pt ps va []"
  by (simp add: user_wrote_def)

lemma user_walk:
  assumes "as_ok s pt ps" "user_ok (mem s) pt w va"
  shows "walkaddr pt (PGROUNDDOWN va) s = Inr (PTE2PA (leaf (mem s) pt va))" "PTE2PA (leaf (mem s) pt va) \<noteq> 0"
    "\<exists>a. walk pt (PGROUNDDOWN va) False s = Inr (a, s) \<and> a \<noteq> 0 \<and> load64 (mem s) a = leaf (mem s) pt va"
    "PGROUNDDOWN va < MAXVA"
proof -
  have v: "va < TRAPFRAME" using assms(2) by (simp add: user_ok_def)
  then have l: "leaf (mem s) pt va = leaf (mem s) pt (PGROUNDDOWN va)" using user_upage leaf_round by blast
  show m: "PGROUNDDOWN va < MAXVA" using user_upage[OF v] upage_MAXVA by blast
  then show "walkaddr pt (PGROUNDDOWN va) s = Inr (PTE2PA (leaf (mem s) pt va))"
    using walkaddr_leaf[OF as_ok_pt[OF assms(1)], of "PGROUNDDOWN va"] assms(2) l by (simp add: user_ok_def)
  show "PTE2PA (leaf (mem s) pt va) \<noteq> 0" using user_leaf_page(1)[OF assms] by (simp add: valid_page_def)
  have "leaf (mem s) pt (PGROUNDDOWN va) \<noteq> 0" using assms(2) l by (auto simp: user_ok_def)
  then show "\<exists>a. walk pt (PGROUNDDOWN va) False s = Inr (a, s) \<and> a \<noteq> 0 \<and> load64 (mem s) a = leaf (mem s) pt va"
    using walk_valid_leaf[OF as_ok_pt[OF assms(1)] m] l by metis
qed

text \<open>The next page starts where the chunk ends, unless the chunk is all there was.\<close>

lemma chunk_next: "chunk va n < n \<Longrightarrow> PGROUNDDOWN va + PGSIZE = va + of_nat (chunk va n)"
proof -
  assume "chunk va n < n"
  then have c: "chunk va n = 4096 - unat va mod 4096" by (simp add: chunk_eq)
  have "(of_nat (unat va mod 4096) :: u64) = va - PGROUNDDOWN va" unfolding page_offset[symmetric] by simp
  then show ?thesis unfolding c by (simp add: of_nat_diff less_imp_le PGSIZE_def)
qed

lemma user_range_drop:
  assumes "user_range m pt w va n" "c \<le> n"
  shows "user_range m pt w (va + of_nat c) (n - c)"
proof -
  have "unat (va + of_nat c) \<le> unat va + c" by (simp add: unat_word_ariths unat_of_nat)
  then have "unat (va + of_nat c) + (n - c) \<le> unat TRAPFRAME" using assms unfolding user_range_def by linarith
  moreover have "user_ok m pt w (va + of_nat c + of_nat k)" if "k < n - c" for k
    using assms that unfolding user_range_def by (metis add.assoc less_diff_conv add.commute of_nat_add)
  ultimately show ?thesis using assms unfolding user_range_def by blast
qed

lemma user_range_wrote: "user_wrote s m' pt ps vb bs \<Longrightarrow> user_range m' pt w va n = user_range (mem s) pt w va n"
  by (simp add: user_wrote_def user_range_def user_ok_def)

lemma user_at_chunk:
  assumes "user_ok m pt w va" "user_ok m pt w (va + of_nat k)" "unat va mod 4096 + k < 4096"
  shows "user_at m pt (va + of_nat k) = m (PTE2PA (leaf m pt va) + (va - PGROUNDDOWN va) + of_nat k)"
proof -
  have pg: "PGROUNDDOWN (va + of_nat k) = PGROUNDDOWN va" by (rule same_user_page[OF assms(3)])
  then have "leaf m pt (va + of_nat k) = leaf m pt va"
    using leaf_round[of va m pt] leaf_round[of "va + of_nat k" m pt] assms(1,2) user_upage by (metis user_ok_def)
  then show ?thesis by (simp add: user_at_def pg algebra_simps)
qed

lemma user_bytes_append: "user_bytes m pt va (c + d) = user_bytes m pt va c @ user_bytes m pt (va + of_nat c) d"
  by (rule nth_equalityI) (auto simp: user_bytes_def nth_append add.assoc simp flip: of_nat_add)

lemma copyout_spec:
  "as_ok s pt ps \<Longrightarrow> user_range (mem s) pt True va (length src) \<Longrightarrow>
   \<exists>m'. copyout pt va src s = Inr (0, s\<lparr>mem := m'\<rparr>) \<and> user_wrote s m' pt ps va src"
proof (induction pt va src s rule: copyout.induct)
  case (1 pt va src s)
  show ?case
  proof (cases "src = []")
    case True
    then show ?thesis using user_wrote_Nil[OF 1(2)] by (intro exI[of _ "mem s"]) (simp add: copyout.simps)
  next
    case False
    let ?c = "chunk va (length src)" and ?pa = "PTE2PA (leaf (mem s) pt va)"
    let ?m1 = "store_bytes (mem s) (?pa + (va - PGROUNDDOWN va)) (take ?c src)"
    have ok: "user_ok (mem s) pt True va" using 1(3) False by (auto simp: user_range_def dest: spec[of _ 0])
    note w = user_walk[OF 1(2) ok]
    obtain a where a: "walk pt (PGROUNDDOWN va) False s = Inr (a, s)" "a \<noteq> 0" "load64 (mem s) a = leaf (mem s) pt va"
      using w(3) by blast
    have up: "user_page pt (PGROUNDDOWN va) s = Inr (?pa, s)" using w(1,2) by (simp add: user_page_def)
    have wr: "load64 (mem s) a AND PTE_W \<noteq> 0" using ok a(3) by (simp add: user_ok_def flag_test)
    have step: "copyout pt va src s = copyout pt (PGROUNDDOWN va + PGSIZE) (drop ?c src) (s\<lparr>mem := ?m1\<rparr>)"
      by (subst copyout.simps) (use False w(4) up a wr w(2) in \<open>simp add: Let_def not_le[symmetric]\<close>)
    have "unat va mod 4096 + length (take ?c src) \<le> 4096" using chunk_le[of va "length src"] by (simp add: chunk_eq)
    then have w1: "user_wrote s ?m1 pt ps va (take ?c src)" by (rule store_user[OF 1(2) ok])
    show ?thesis
    proof (cases "?c < length src")
      case False
      then show ?thesis using w1 step by (auto simp: copyout.simps)
    next
      case True
      have r1: "user_range ?m1 pt True (va + of_nat ?c) (length (drop ?c src))"
        using user_range_drop[OF 1(3), of ?c] True by (simp add: user_range_wrote[OF w1])
      have as1: "as_ok (s\<lparr>mem := ?m1\<rparr>) pt ps" using w1 by (simp add: user_wrote_def)
      have nx: "PGROUNDDOWN va + PGSIZE = va + of_nat ?c" by (rule chunk_next[OF True])
      have "\<exists>m'. copyout pt (PGROUNDDOWN va + PGSIZE) (drop ?c src) (s\<lparr>mem := ?m1\<rparr>) = Inr (0, s\<lparr>mem := ?m1\<rparr>\<lparr>mem := m'\<rparr>) \<and>
          user_wrote (s\<lparr>mem := ?m1\<rparr>) m' pt ps (PGROUNDDOWN va + PGSIZE) (drop ?c src)"
        by (rule 1(1)[OF False refl _ up refl w(2) a(1) refl a(2) wr refl]) (use w(4) as1 r1 nx in \<open>simp_all add: not_le\<close>)
      then obtain m' where m': "copyout pt va src s = Inr (0, s\<lparr>mem := m'\<rparr>)"
          "user_wrote (s\<lparr>mem := ?m1\<rparr>) m' pt ps (va + of_nat (length (take ?c src))) (drop ?c src)"
        using step nx True by auto
      have "length (take ?c src) + length (drop ?c src) \<le> 0x4000000000"
        using 1(3) True by (simp add: user_range_def TRAPFRAME_nat)
      from user_wrote_trans[OF w1 m'(2) this] m'(1) show ?thesis by auto
    qed
  qed
qed

lemma copyin_spec:
  "as_ok s pt ps \<Longrightarrow> user_range (mem s) pt False va n \<Longrightarrow> copyin_loop pt va n dst s = Inr (0, dst @ user_bytes (mem s) pt va n, s)"
proof (induction pt va n dst s rule: copyin_loop.induct)
  case (1 pt va n dst s)
  show ?case
  proof (cases "n = 0")
    case True
    then show ?thesis by (simp add: copyin_loop.simps user_bytes_def)
  next
    case False
    let ?c = "chunk va n" and ?pa = "PTE2PA (leaf (mem s) pt va)"
    have ok: "user_ok (mem s) pt False va" using 1(3) False by (auto simp: user_range_def dest: spec[of _ 0])
    note w = user_walk[OF 1(2) ok]
    have up: "user_page pt (PGROUNDDOWN va) s = Inr (?pa, s)" using w(1,2) by (simp add: user_page_def)
    have c: "?c \<le> n" "unat va mod 4096 + ?c \<le> 4096" using chunk_le by (auto simp: chunk_eq)
    have ld: "load_bytes (mem s) (?pa + (va - PGROUNDDOWN va)) ?c = user_bytes (mem s) pt va ?c"
      using user_at_chunk[OF ok _] 1(3) c by (auto simp: load_bytes_def user_bytes_def user_range_def)
    then have step: "copyin_loop pt va n dst s = copyin_loop pt (PGROUNDDOWN va + PGSIZE) (n - ?c) (dst @ user_bytes (mem s) pt va ?c) s"
      using False up w(2) by (subst copyin_loop.simps) (simp add: Let_def)
    show ?thesis
    proof (cases "?c < n")
      case False
      then show ?thesis using step c(1) by (simp add: copyin_loop.simps[of _ _ 0])
    next
      case True
      note nx = chunk_next[OF True]
      have "copyin_loop pt (va + of_nat ?c) (n - ?c) (dst @ user_bytes (mem s) pt va ?c) s =
          Inr (0, (dst @ user_bytes (mem s) pt va ?c) @ user_bytes (mem s) pt (va + of_nat ?c) (n - ?c), s)"
        using 1(1)[OF False refl up refl w(2) refl] 1(2) user_range_drop[OF 1(3) c(1)] nx by (simp add: ld)
      then show ?thesis using step nx user_bytes_append[of "mem s" pt va ?c "n - ?c"] c(1) by simp
    qed
  qed
qed

text \<open>One byte of a range, as the pipe and the console copy it.\<close>

lemma user_range_one:
  assumes "user_range m pt w va n" "i < n"
  shows "user_range m pt w (va + of_nat i) 1"
proof -
  have r: "user_range m pt w (va + of_nat i) (n - i)" using user_range_drop[OF assms(1), of i] assms(2) by simp
  then have "unat (va + of_nat i) + 1 \<le> unat TRAPFRAME" using assms(2) unfolding user_range_def by linarith
  moreover have "user_ok m pt w (va + of_nat i)" using assms unfolding user_range_def by blast
  ultimately show ?thesis unfolding user_range_def by simp
qed

lemma copyin_one:
  assumes "as_ok s pt ps" "user_range (mem s) pt False va n" "i < n"
  shows "copyin pt (va + of_nat i) 1 s = Inr (0, [user_at (mem s) pt (va + of_nat i)], s)"
  using copyin_spec[OF assms(1) user_range_one[OF assms(2,3)], of "[]"] by (simp add: copyin_def user_bytes_def)

lemma user_wrote_cong:
  assumes "mem s' = mem s" "freelist s' = freelist s" "kend s' = kend s"
  shows "user_wrote s' m pt ps va bs = user_wrote s m pt ps va bs"
  using assms as_ok_cong[of "s'\<lparr>mem := m\<rparr>" "s\<lparr>mem := m\<rparr>" pt ps] by (simp add: user_wrote_def)

section \<open>Properties\<close>

lemma user_bytes_wrote:
  assumes "user_wrote s m' pt ps va bs" "user_range (mem s) pt w vb n"
  shows "user_bytes m' pt vb n =
    map (\<lambda>k. let d = unat (vb + of_nat k - va) in if d < length bs then bs ! d else user_at (mem s) pt (vb + of_nat k)) [0..<n]"
proof -
  have "user_at m' pt (vb + of_nat k) =
      (let d = unat (vb + of_nat k - va) in if d < length bs then bs ! d else user_at (mem s) pt (vb + of_nat k))" if "k < n" for k
  proof -
    have "user_ok (mem s) pt False (vb + of_nat k)" using assms(2) that by (auto simp: user_range_def user_ok_def)
    then show ?thesis using assms(1) by (simp add: user_wrote_def Let_def)
  qed
  then show ?thesis by (simp add: user_bytes_def)
qed

text \<open>
  C33. Copies between the kernel and user memory: on a well-formed address space, \<^verbatim>\<open>copyout\<close> to a
  range of present, writable user pages succeeds, keeps the address space well formed and changes only
  memory, and a \<^verbatim>\<open>copyin\<close> of any present range afterwards, across any page boundaries, reads the
  bytes that were copied out where the ranges overlap and what user memory held before elsewhere.
\<close>

theorem copyout_copyin_round_trip:
  assumes "as_ok s pt ps" "user_range (mem s) pt True va (length src)" "user_range (mem s) pt False vb n"
  shows "\<exists>m'. copyout pt va src s = Inr (0, s\<lparr>mem := m'\<rparr>) \<and> as_ok (s\<lparr>mem := m'\<rparr>) pt ps \<and>
    copyin pt vb n (s\<lparr>mem := m'\<rparr>) =
      Inr (0, map (\<lambda>k. let d = unat (vb + of_nat k - va) in
                 if d < length src then src ! d else user_at (mem s) pt (vb + of_nat k)) [0..<n], s\<lparr>mem := m'\<rparr>)"
proof -
  obtain m' where m': "copyout pt va src s = Inr (0, s\<lparr>mem := m'\<rparr>)" "user_wrote s m' pt ps va src"
    using copyout_spec[OF assms(1,2)] by blast
  then have as: "as_ok (s\<lparr>mem := m'\<rparr>) pt ps" by (simp add: user_wrote_def)
  have "user_range (mem (s\<lparr>mem := m'\<rparr>)) pt False vb n" using assms(3) user_range_wrote[OF m'(2)] by simp
  from copyin_spec[OF as this, of "[]"] user_bytes_wrote[OF m'(2) assms(3)] m'(1) as show ?thesis by (auto simp: copyin_def)
qed

lemma example_user_range:
  "0x5000 \<le> unat va \<Longrightarrow> unat va + n \<le> 0x6000 \<Longrightarrow> user_range (mem example_vm) 0x87FFD000 True va n"
proof -
  assume va: "0x5000 \<le> unat va" "unat va + n \<le> 0x6000"
  have "user_ok (mem example_vm) 0x87FFD000 True (va + of_nat k)" if k: "k < n" for k
  proof -
    have u: "unat (va + of_nat k) = unat va + k" using va k by (simp add: unat_word_ariths unat_of_nat_u64)
    have "(unat va + k) div 4096 = 5" using va k by (intro div_nat_eqI) simp_all
    then have p: "PGROUNDDOWN (va + of_nat k) = 0x5000" by (simp add: word_unat_eq_iff unat_PGROUNDDOWN u)
    have v: "va + of_nat k < TRAPFRAME" using va k by (simp add: word_less_nat_alt u TRAPFRAME_nat)
    then have "leaf (mem example_vm) 0x87FFD000 (va + of_nat k) = leaf (mem example_vm) 0x87FFD000 0x5000"
      using leaf_round[of "va + of_nat k" "mem example_vm" "0x87FFD000"] user_upage[OF v] p by simp
    then show ?thesis using v unfolding user_ok_def example_vm_state(9) by (simp add: bit_or_iff bit_facts)
  qed
  then show ?thesis using va by (simp add: user_range_def TRAPFRAME_nat)
qed

theorem copyout_copyin_round_trip_witness:
  "\<exists>m'. copyout 0x87FFD000 0x5FFC [1, 2, 3, 4] example_vm = Inr (0, example_vm\<lparr>mem := m'\<rparr>) \<and>
    copyin 0x87FFD000 0x5FFE 2 (example_vm\<lparr>mem := m'\<rparr>) = Inr (0, [3, 4], example_vm\<lparr>mem := m'\<rparr>)"
proof -
  obtain rest where as: "as_ok example_vm 0x87FFD000 rest" using example_vm_as_ok by blast
  have w: "user_range (mem example_vm) 0x87FFD000 True 0x5FFC (length [1, 2, 3, 4 :: u8])"
    by (rule example_user_range) simp_all
  have "user_range (mem example_vm) 0x87FFD000 True 0x5FFE 2" by (rule example_user_range) simp_all
  then have r: "user_range (mem example_vm) 0x87FFD000 False 0x5FFE 2" by (simp add: user_range_def user_ok_def)
  show ?thesis using copyout_copyin_round_trip[OF as w r] by (auto simp: upt_rec Let_def)
qed

end
