(* ===== verification/Xv6_Pipe.thy ===== *)
theory Xv6_Pipe
  imports Xv6_Dir Xv6_Ucopy
begin

text \<open>
  Pipes, \<^verbatim>\<open>kernel/pipe.c\<close>: a ring of \<^verbatim>\<open>PIPESIZE\<close> bytes between two counters that only
  grow and wrap around at \<open>2 ^ 32\<close>. A pipe lives in a page of its own and is named by its address.
  A reader or writer that has to wait blocks with what it has done so far and continues from there.
\<close>

section \<open>Operations\<close>

definition PIPESIZE :: nat where "PIPESIZE = 512"

definition pipe_ix :: "u32 \<Rightarrow> nat" where
  "pipe_ix k = unat k mod PIPESIZE"

abbreviation nread_chan :: "u64 \<Rightarrow> chan" where
  "nread_chan pi \<equiv> PipeReadChan (unat pi)"

abbreviation nwrite_chan :: "u64 \<Rightarrow> chan" where
  "nwrite_chan pi \<equiv> PipeWriteChan (unat pi)"

text \<open>The contents of a new pipe are what \<^verbatim>\<open>kalloc\<close> fills a page with.\<close>

definition new_pipe :: pipe where
  "new_pipe = \<lparr>pi_data = replicate PIPESIZE 5, pi_nread = 0, pi_nwrite = 0, pi_readopen = True, pi_writeopen = True\<rparr>"

definition pipeclose :: "u64 \<Rightarrow> bool \<Rightarrow> 'a fsst_scheme \<Rightarrow> 'a fsst_scheme res" where
  "pipeclose pi writable s =
     (case pipes s pi of
        None \<Rightarrow> Inl Overrun
      | Some q \<Rightarrow>
          let q1 = (if writable then q\<lparr>pi_writeopen := False\<rparr> else q\<lparr>pi_readopen := False\<rparr>);
              s1 = wakeup (Some (if writable then nread_chan pi else nwrite_chan pi)) (s\<lparr>pipes := (pipes s)(pi \<mapsto> q1)\<rparr>)
          in if \<not> pi_readopen q1 \<and> \<not> pi_writeopen q1 then kfree pi (s1\<lparr>pipes := (pipes s1)(pi := None)\<rparr>)
             else Inr s1)"

definition pipe_put :: "u8 \<Rightarrow> pipe \<Rightarrow> pipe" where
  "pipe_put ch q = q\<lparr>pi_data := (pi_data q)[pipe_ix (pi_nwrite q) := ch], pi_nwrite := pi_nwrite q + 1\<rparr>"

function pipewrite_loop :: "u64 \<Rightarrow> u64 \<Rightarrow> nat \<Rightarrow> nat \<Rightarrow> 'a fsst_scheme \<Rightarrow> (int outcome \<times> nat \<times> 'a fsst_scheme) res" where
  "pipewrite_loop pi addr i n s =
     (case (curproc s, pipes s pi) of
        (Some pr, Some q) \<Rightarrow>
          if i < n then
            if \<not> pi_readopen q \<or> killed pr s then Inr (Returns (-1), i, s)
            else if pi_nwrite q = pi_nread q + of_nat PIPESIZE
            then Inr (Blocks (nwrite_chan pi), i, sleep_on pr (nwrite_chan pi) (wakeup (Some (nread_chan pi)) s))
            else andthen (copyin (p_pagetable (procs s ! pr)) (addr + of_nat i) 1 s) (\<lambda>(r, ch, s1).
              if r = -1 then Inr (Returns (int i), i, wakeup (Some (nread_chan pi)) s1)
              else pipewrite_loop pi addr (i + 1) n (s1\<lparr>pipes := (pipes s1)(pi \<mapsto> pipe_put (hd ch) q)\<rparr>))
          else Inr (Returns (int i), i, wakeup (Some (nread_chan pi)) s)
      | (None, _) \<Rightarrow> Inl (Panic ''kerneltrap'')
      | (_, None) \<Rightarrow> Inl Overrun)"
  by pat_completeness auto
termination
  by (relation "measure (\<lambda>(pi, addr, i, n, s). n - i)") auto

declare pipewrite_loop.simps [simp del]

definition pipewrite :: "u64 \<Rightarrow> u64 \<Rightarrow> int \<Rightarrow> 'a fsst_scheme \<Rightarrow> (int outcome \<times> nat \<times> 'a fsst_scheme) res" where
  "pipewrite pi addr n s = pipewrite_loop pi addr 0 (nat n) s"

function piperead_loop :: "u64 \<Rightarrow> nat \<Rightarrow> u64 \<Rightarrow> nat \<Rightarrow> nat \<Rightarrow> 'a fsst_scheme \<Rightarrow> (int \<times> 'a fsst_scheme) res" where
  "piperead_loop pi pr addr i n s =
     (case pipes s pi of
        None \<Rightarrow> Inl Overrun
      | Some q \<Rightarrow>
          if i < n \<and> pi_nread q \<noteq> pi_nwrite q then
            andthen (copyout (p_pagetable (procs s ! pr)) (addr + of_nat i) [pi_data q ! pipe_ix (pi_nread q)] s) (\<lambda>(r, s1).
              if r = -1 then Inr (if i = 0 then -1 else int i, s1)
              else piperead_loop pi pr addr (i + 1) n (s1\<lparr>pipes := (pipes s1)(pi \<mapsto> q\<lparr>pi_nread := pi_nread q + 1\<rparr>)\<rparr>))
          else Inr (int i, s))"
  by pat_completeness auto
termination
  by (relation "measure (\<lambda>(pi, pr, addr, i, n, s). n - i)") auto

declare piperead_loop.simps [simp del]

definition piperead :: "u64 \<Rightarrow> u64 \<Rightarrow> int \<Rightarrow> 'a fsst_scheme \<Rightarrow> (int outcome \<times> 'a fsst_scheme) res" where
  "piperead pi addr n s =
     (case (curproc s, pipes s pi) of
        (Some pr, Some q) \<Rightarrow>
          if pi_nread q = pi_nwrite q \<and> pi_writeopen q
          then if killed pr s then Inr (Returns (-1), s)
               else Inr (Blocks (nread_chan pi), sleep_on pr (nread_chan pi) s)
          else andthen (piperead_loop pi pr addr 0 (nat n) s) (\<lambda>(i, s1). Inr (Returns i, wakeup (Some (nwrite_chan pi)) s1))
      | (None, _) \<Rightarrow> Inl (Panic ''kerneltrap'')
      | (_, None) \<Rightarrow> Inl Overrun)"

section \<open>A pipe as a queue\<close>

interpretation pr: ring PIPESIZE
  by unfold_locales (simp_all add: PIPESIZE_def)

definition pipe_ok :: "pipe \<Rightarrow> bool" where
  "pipe_ok q \<longleftrightarrow> length (pi_data q) = PIPESIZE \<and> unat (pi_nwrite q - pi_nread q) \<le> PIPESIZE"

definition pipe_queue :: "pipe \<Rightarrow> u8 list" where
  "pipe_queue q = ring_slice PIPESIZE (pi_data q) (pi_nread q) (unat (pi_nwrite q - pi_nread q))"

lemma pipe_full_iff: "pi_nwrite q = pi_nread q + of_nat PIPESIZE \<longleftrightarrow> length (pipe_queue q) = PIPESIZE"
proof -
  have "pi_nwrite q = pi_nread q + of_nat PIPESIZE \<longleftrightarrow> pi_nwrite q - pi_nread q = of_nat PIPESIZE" by (auto simp: algebra_simps)
  also have "\<dots> \<longleftrightarrow> unat (pi_nwrite q - pi_nread q) = PIPESIZE" by (simp add: word_unat_eq_iff PIPESIZE_def)
  finally show ?thesis by (simp add: pipe_queue_def)
qed

lemma pipe_put_queue:
  assumes "pipe_ok q" "length (pipe_queue q) < PIPESIZE"
  shows "pipe_queue (pipe_put c q) = pipe_queue q @ [c]" "pipe_ok (pipe_put c q)" "pi_readopen (pipe_put c q) = pi_readopen q"
proof -
  have l: "length (pi_data q) = PIPESIZE" "unat (pi_nwrite q - pi_nread q) < PIPESIZE" using assms by (simp_all add: pipe_ok_def pipe_queue_def)
  show e: "pipe_queue (pipe_put c q) = pipe_queue q @ [c]" using pr.push_end[OF l] by (simp add: pipe_queue_def pipe_put_def pipe_ix_def)
  have "length (pipe_queue (pipe_put c q)) \<le> PIPESIZE" unfolding e using assms(2) by simp
  then show "pipe_ok (pipe_put c q)" using l(1) by (simp add: pipe_ok_def pipe_queue_def pipe_put_def)
  show "pi_readopen (pipe_put c q) = pi_readopen q" by (simp add: pipe_put_def)
qed

lemma pipe_get_queue:
  assumes "pipe_ok q" "pi_nread q \<noteq> pi_nwrite q"
  shows "pipe_queue q = pi_data q ! pipe_ix (pi_nread q) # pipe_queue (q\<lparr>pi_nread := pi_nread q + 1\<rparr>)" "pipe_ok (q\<lparr>pi_nread := pi_nread q + 1\<rparr>)"
proof -
  show e: "pipe_queue q = pi_data q ! pipe_ix (pi_nread q) # pipe_queue (q\<lparr>pi_nread := pi_nread q + 1\<rparr>)"
    using pr.pop_front[OF assms(2)] by (simp add: pipe_queue_def pipe_ix_def)
  have "length (pipe_queue q) \<le> PIPESIZE" using assms(1) by (simp add: pipe_ok_def pipe_queue_def)
  then have "length (pipe_queue (q\<lparr>pi_nread := pi_nread q + 1\<rparr>)) \<le> PIPESIZE" unfolding e by simp
  then show "pipe_ok (q\<lparr>pi_nread := pi_nread q + 1\<rparr>)" using assms(1) by (simp add: pipe_ok_def pipe_queue_def)
qed

lemma queue_empty_iff: "pi_nread q = pi_nwrite q \<longleftrightarrow> pipe_queue q = []"
proof -
  have "pipe_queue q = [] \<longleftrightarrow> pi_nwrite q - pi_nread q = 0" unfolding word_unat_eq_iff by (auto simp: pipe_queue_def ring_slice_def)
  then show ?thesis by auto
qed

lemma pipes_wakeup [simp]: "pipes (wakeup ch s) = pipes s" "pipes (sleep_on p c s) = pipes s" "mem (wakeup ch s') = mem s'" "mem (sleep_on p c s') = mem s'"
  by (simp_all add: wakeup_def each_proc_def sleep_on_def upd_proc_def)

lemma pipewrite_loop_spec:
  assumes "curproc s = Some p" "pipes s pi = Some q" "pipe_ok q" "pi_readopen q" "\<not> killed p s" "i \<le> n"
    "as_ok s (p_pagetable (procs s ! p)) ps" "user_range (mem s) (p_pagetable (procs s ! p)) False addr n"
    and w: "w = min (n - i) (PIPESIZE - length (pipe_queue q))"
  shows "\<exists>s' q'. pipewrite_loop pi addr i n s = Inr (if i + w = n then Returns (int n) else Blocks (nwrite_chan pi), i + w, s') \<and>
    pipes s' pi = Some q' \<and> pipe_ok q' \<and>
    pipe_queue q' = pipe_queue q @ map (\<lambda>k. user_at (mem s) (p_pagetable (procs s ! p)) (addr + of_nat k)) [i..<i + w] \<and> mem s' = mem s"
  using assms
proof (induction "n - i" arbitrary: i s q w)
  case 0
  then show ?case by (simp add: pipewrite_loop.simps)
next
  case (Suc d)
  have i: "i < n" using Suc.hyps(2) by simp
  show ?case
  proof (cases "length (pipe_queue q) = PIPESIZE")
    case True
    then show ?thesis using Suc.prems i pipe_full_iff[of q] by (subst pipewrite_loop.simps) (simp add: Let_def)
  next
    case False
    let ?b = "user_at (mem s) (p_pagetable (procs s ! p)) (addr + of_nat i)"
    let ?s = "s\<lparr>pipes := (pipes s)(pi \<mapsto> pipe_put ?b q)\<rparr>"
    have lt: "length (pipe_queue q) < PIPESIZE" using False Suc.prems(3) by (simp add: pipe_ok_def pipe_queue_def)
    note q' = pipe_put_queue[OF Suc.prems(3) lt, of ?b]
    have e: "pipewrite_loop pi addr i n s = pipewrite_loop pi addr (i + 1) n ?s"
      using Suc.prems(1,2,4,5) i False pipe_full_iff[of q] copyin_one[OF Suc.prems(7,8) i] by (subst pipewrite_loop.simps) simp
    define v where "v = min (n - (i + 1)) (PIPESIZE - length (pipe_queue (pipe_put ?b q)))"
    have wv: "w = v + 1" using Suc.prems(9) lt i q'(1) by (simp add: v_def)
    have "as_ok ?s (p_pagetable (procs ?s ! p)) ps" using Suc.prems(7) by (subst as_ok_cong[of _ s]) simp_all
    then have "\<exists>s' q''. pipewrite_loop pi addr (i + 1) n ?s = Inr (if i + 1 + v = n then Returns (int n) else Blocks (nwrite_chan pi), i + 1 + v, s') \<and>
      pipes s' pi = Some q'' \<and> pipe_ok q'' \<and>
      pipe_queue q'' = pipe_queue (pipe_put ?b q) @ map (\<lambda>k. user_at (mem ?s) (p_pagetable (procs ?s ! p)) (addr + of_nat k)) [i + 1..<i + 1 + v] \<and> mem s' = mem ?s"
      by (intro Suc.hyps(1)[where q = "pipe_put ?b q"]) (use Suc.hyps(2) Suc.prems q' v_def i in \<open>simp_all add: killed_def\<close>)
    moreover have "[i..<i + w] = i # [i + 1..<i + 1 + v]" unfolding wv by (simp add: upt_conv_Cons)
    ultimately show ?thesis using e q'(1) wv by auto
  qed
qed

lemma piperead_loop_spec:
  assumes "pipes s pi = Some q" "pipe_ok q" "as_ok s (p_pagetable (procs s ! p)) ps"
    "user_range (mem s) (p_pagetable (procs s ! p)) True addr n" "i \<le> n"
    and m: "m = min (n - i) (length (pipe_queue q))"
  shows "\<exists>s' q'. piperead_loop pi p addr i n s = Inr (int (i + m), s') \<and> pipes s' pi = Some q' \<and> pipe_ok q' \<and>
    pipe_queue q' = drop m (pipe_queue q) \<and>
    user_wrote s (mem s') (p_pagetable (procs s ! p)) ps (addr + of_nat i) (take m (pipe_queue q))"
  using assms
proof (induction "n - i" arbitrary: i s q m)
  case 0
  then show ?case by (auto simp: piperead_loop.simps user_wrote_Nil)
next
  case (Suc d)
  let ?pt = "p_pagetable (procs s ! p)"
  have i: "i < n" using Suc.hyps(2) by simp
  show ?case
  proof (cases "pi_nread q = pi_nwrite q")
    case True
    then show ?thesis using Suc.prems queue_empty_iff[of q] by (auto simp: piperead_loop.simps user_wrote_Nil)
  next
    case False
    let ?b = "pi_data q ! pipe_ix (pi_nread q)" and ?q = "q\<lparr>pi_nread := pi_nread q + 1\<rparr>"
    note q' = pipe_get_queue[OF Suc.prems(2) False]
    obtain m1 where m1: "copyout ?pt (addr + of_nat i) [?b] s = Inr (0, s\<lparr>mem := m1\<rparr>)" "user_wrote s m1 ?pt ps (addr + of_nat i) [?b]"
      using copyout_spec[of s ?pt ps "addr + of_nat i" "[?b]"] Suc.prems(3) user_range_one[OF Suc.prems(4) i] by auto
    let ?s = "s\<lparr>mem := m1, pipes := (pipes s)(pi \<mapsto> ?q)\<rparr>"
    have e: "piperead_loop pi p addr i n s = piperead_loop pi p addr (i + 1) n ?s"
      using Suc.prems(1) i False m1(1) by (subst piperead_loop.simps) simp
    have as: "as_ok ?s ?pt ps" using m1(2) by (subst as_ok_cong[of _ "s\<lparr>mem := m1\<rparr>"]) (simp_all add: user_wrote_def)
    define v where "v = min (n - (i + 1)) (length (pipe_queue ?q))"
    have mv: "m = v + 1" using Suc.prems(6) i q'(1) by (simp add: v_def)
    have "\<exists>s' q''. piperead_loop pi p addr (i + 1) n ?s = Inr (int (i + 1 + v), s') \<and>
        pipes s' pi = Some q'' \<and> pipe_ok q'' \<and> pipe_queue q'' = drop v (pipe_queue ?q) \<and>
        user_wrote ?s (mem s') (p_pagetable (procs ?s ! p)) ps (addr + of_nat (i + 1)) (take v (pipe_queue ?q))"
      by (intro Suc.hyps(1)[where q = ?q]) (use Suc.hyps(2) q'(2) as i user_range_wrote[OF m1(2)] Suc.prems(4) v_def in simp_all)
    then obtain s' q'' where s': "piperead_loop pi p addr i n s = Inr (int (i + m), s')" "pipes s' pi = Some q''" "pipe_ok q''"
        "pipe_queue q'' = drop m (pipe_queue q)"
        "user_wrote ?s (mem s') ?pt ps (addr + of_nat (i + 1)) (take v (pipe_queue ?q))"
      unfolding e mv q'(1) by auto
    have "user_wrote (s\<lparr>mem := m1\<rparr>) (mem s') ?pt ps (addr + of_nat i + of_nat (length [?b])) (take v (pipe_queue ?q))"
      using s'(5) user_wrote_cong[of ?s "s\<lparr>mem := m1\<rparr>"] by (simp add: ac_simps)
    moreover have "length (pipe_queue q) \<le> PIPESIZE" using Suc.prems(2) by (simp add: pipe_ok_def pipe_queue_def)
    ultimately have "user_wrote s (mem s') ?pt ps (addr + of_nat i) ([?b] @ take v (pipe_queue ?q))"
      using q'(1) by (intro user_wrote_trans[OF m1(2)]) (simp_all add: PIPESIZE_def)
    moreover have "take m (pipe_queue q) = [?b] @ take v (pipe_queue ?q)" unfolding mv q'(1) by simp
    ultimately show ?thesis using s'(1-4) by auto
  qed
qed

text \<open>
  A process whose page at \<open>0x5000\<close> is mapped, and a pipe with the bytes 7 and 8 waiting and
  counters about to wrap around.
\<close>

definition wrap_pipe :: pipe where
  "wrap_pipe = \<lparr>pi_data = (replicate 512 0)[511 := 7, 0 := 8], pi_nread = 0xFFFFFFFF, pi_nwrite = 1, pi_readopen = True, pi_writeopen = True\<rparr>"

definition pipe_vm :: fsst where
  "pipe_vm = fs_boot\<lparr>mem := mem example_vm, freelist := freelist example_vm, kend := kend example_vm,
     procs := procs example_vm, curproc := Some 0, pipes := [0x80200000 \<mapsto> wrap_pipe]\<rparr>"

lemma wrap_pipe: "pipe_queue wrap_pipe = [7, 8]" "pipe_ok wrap_pipe" "pi_readopen wrap_pipe"
  by (simp_all add: pipe_queue_def pipe_ok_def wrap_pipe_def ring_slice_def PIPESIZE_def upt_rec)

lemma pipe_vm:
  "curproc pipe_vm = Some 0" "pipes pipe_vm 0x80200000 = Some wrap_pipe" "\<not> killed 0 pipe_vm"
  "p_pagetable (procs pipe_vm ! 0) = 0x87FFD000" "mem pipe_vm = mem example_vm" "\<exists>ps. as_ok pipe_vm 0x87FFD000 ps"
proof -
  show "curproc pipe_vm = Some 0" "pipes pipe_vm 0x80200000 = Some wrap_pipe" "\<not> killed 0 pipe_vm"
    "p_pagetable (procs pipe_vm ! 0) = 0x87FFD000" "mem pipe_vm = mem example_vm"
    by (simp_all add: pipe_vm_def killed_def example_vm_state example_proc_def free_proc_def)
  show "\<exists>ps. as_ok pipe_vm 0x87FFD000 ps"
    using example_vm_as_ok by (subst as_ok_cong[of _ example_vm]) (auto simp: pipe_vm_def)
qed

section \<open>Properties\<close>

text \<open>
  C34. Writing to a pipe: when the reading end is open, the writer is not killed and its buffer is
  present, \<^verbatim>\<open>pipewrite\<close> appends the buffer's bytes, in order, to the bytes that wait in the pipe.
  It returns the full count when they all fit; otherwise it has filled the pipe to exactly
  \<^verbatim>\<open>PIPESIZE\<close> bytes and sleeps until there is room, knowing how many bytes it has written. No
  byte that waits is lost or overwritten, also when the counters wrap around.
\<close>

theorem pipewrite_appends:
  assumes "curproc s = Some p" "pipes s pi = Some q" "pipe_ok q" "pi_readopen q" "\<not> killed p s"
    and "as_ok s (p_pagetable (procs s ! p)) ps" "user_range (mem s) (p_pagetable (procs s ! p)) False addr (nat n)"
  shows "\<exists>s' q'. pipewrite pi addr n s =
      (let w = min (nat n) (PIPESIZE - length (pipe_queue q))
       in Inr (if w = nat n then Returns (int (nat n)) else Blocks (nwrite_chan pi), w, s')) \<and>
    pipes s' pi = Some q' \<and> pipe_ok q' \<and>
    pipe_queue q' = pipe_queue q @ take (PIPESIZE - length (pipe_queue q)) (user_bytes (mem s) (p_pagetable (procs s ! p)) addr (nat n))"
proof -
  let ?w = "min (nat n) (PIPESIZE - length (pipe_queue q))" and ?pt = "p_pagetable (procs s ! p)"
  have m: "map (\<lambda>k. user_at (mem s) ?pt (addr + of_nat k)) [0..<0 + ?w] =
      take (PIPESIZE - length (pipe_queue q)) (user_bytes (mem s) ?pt addr (nat n))"
    by (rule nth_equalityI) (simp_all add: user_bytes_def)
  have "?w = min (nat n - 0) (PIPESIZE - length (pipe_queue q))" by simp
  from pipewrite_loop_spec[OF assms(1-5) le0 assms(6,7) this] show ?thesis
    unfolding pipewrite_def Let_def m by auto
qed

theorem pipewrite_appends_witness:
  "\<exists>s' q'. pipewrite 0x80200000 0x5000 3 pipe_vm = Inr (Returns 3, 3, s') \<and> pipes s' 0x80200000 = Some q' \<and>
    pipe_queue q' = [7, 8] @ user_bytes (mem example_vm) 0x87FFD000 0x5000 3"
proof -
  obtain ps where as: "as_ok pipe_vm (p_pagetable (procs pipe_vm ! 0)) ps" using pipe_vm by auto
  have "user_range (mem example_vm) 0x87FFD000 True 0x5000 3" by (rule example_user_range) simp_all
  then have "user_range (mem pipe_vm) (p_pagetable (procs pipe_vm ! 0)) False 0x5000 (nat 3)"
    by (simp add: pipe_vm user_range_def user_ok_def)
  from pipewrite_appends[OF pipe_vm(1,2) wrap_pipe(2,3) pipe_vm(3) as this] show ?thesis
    by (auto simp: wrap_pipe pipe_vm Let_def PIPESIZE_def user_bytes_def)
qed

text \<open>
  C35. Reading from a pipe: when bytes wait and the reader's buffer is present and writable,
  \<^verbatim>\<open>piperead\<close> returns as many bytes as asked for and available, stores exactly the oldest ones, in
  order, at the buffer and nowhere else in the reader's memory, and leaves the younger ones in the pipe.
\<close>

theorem piperead_takes_oldest:
  assumes "curproc s = Some p" "pipes s pi = Some q" "pipe_ok q" "pipe_queue q \<noteq> []"
    and "as_ok s (p_pagetable (procs s ! p)) ps" "user_range (mem s) (p_pagetable (procs s ! p)) True addr (nat n)"
  shows "\<exists>s' q'. piperead pi addr n s = Inr (Returns (int (min (nat n) (length (pipe_queue q)))), s') \<and>
    pipes s' pi = Some q' \<and> pipe_ok q' \<and> pipe_queue q' = drop (nat n) (pipe_queue q) \<and>
    user_wrote s (mem s') (p_pagetable (procs s ! p)) ps addr (take (nat n) (pipe_queue q))"
proof -
  obtain s' q' where s': "piperead_loop pi p addr 0 (nat n) s = Inr (int (min (nat n) (length (pipe_queue q))), s')"
      "pipes s' pi = Some q'" "pipe_ok q'" "pipe_queue q' = drop (min (nat n) (length (pipe_queue q))) (pipe_queue q)"
      "user_wrote s (mem s') (p_pagetable (procs s ! p)) ps addr (take (min (nat n) (length (pipe_queue q))) (pipe_queue q))"
    using piperead_loop_spec[OF assms(2,3,5,6) _ refl, of 0] by auto
  have "pi_nread q \<noteq> pi_nwrite q" using assms(4) queue_empty_iff by blast
  moreover have "drop (min k (length xs)) xs = drop k xs" "take (min k (length xs)) xs = take k xs" for k and xs :: "u8 list"
    by (simp_all add: min_def)
  ultimately show ?thesis using s' assms(1,2) by (auto simp: piperead_def)
qed

theorem piperead_takes_oldest_witness:
  "\<exists>s' q'. piperead 0x80200000 0x5000 1 pipe_vm = Inr (Returns 1, s') \<and> pipes s' 0x80200000 = Some q' \<and> pipe_queue q' = [8] \<and>
    user_at (mem s') 0x87FFD000 0x5000 = 7"
proof -
  obtain ps where as: "as_ok pipe_vm (p_pagetable (procs pipe_vm ! 0)) ps" using pipe_vm by auto
  have w: "user_range (mem example_vm) 0x87FFD000 True 0x5000 1" by (rule example_user_range) simp_all
  then have "user_range (mem pipe_vm) (p_pagetable (procs pipe_vm ! 0)) True 0x5000 (nat 1)" by (simp add: pipe_vm)
  from piperead_takes_oldest[OF pipe_vm(1,2) wrap_pipe(2) _ as this] obtain s' q' where s':
      "piperead 0x80200000 0x5000 1 pipe_vm = Inr (Returns 1, s')" "pipes s' 0x80200000 = Some q'" "pipe_queue q' = [8]"
      "user_wrote pipe_vm (mem s') 0x87FFD000 ps 0x5000 [7]"
    by (auto simp: wrap_pipe pipe_vm)
  have "user_ok (mem pipe_vm) 0x87FFD000 False 0x5000" using w by (simp add: pipe_vm user_range_def user_ok_def)
  then have "user_at (mem s') 0x87FFD000 0x5000 = 7" using s'(4) by (simp add: user_wrote_def)
  with s' show ?thesis by blast
qed

end
