(* ===== verification/Xv6_File.thy ===== *)
theory Xv6_File
  imports Xv6_Pipe
begin

text \<open>
  Open files, \<^verbatim>\<open>kernel/file.c\<close>, and the creation of pipes, which allocates them. The only device
  with read and write functions is the console.
\<close>

section \<open>Operations\<close>

definition filealloc :: "'a fsst_scheme \<Rightarrow> nat option \<times> 'a fsst_scheme" where
  "filealloc s =
     (case first_idx (\<lambda>f. f_ref f = 0) (files s) of
        Some i \<Rightarrow> (Some i, upd_file i (\<lambda>f. f\<lparr>f_ref := 1\<rparr>) s)
      | None \<Rightarrow> (None, s))"

definition filedup :: "nat \<Rightarrow> 'a fsst_scheme \<Rightarrow> 'a fsst_scheme res" where
  "filedup f s =
     (if f_ref (files s ! f) < 1 then Inl (Panic ''filedup'')
      else Inr (upd_file f (\<lambda>x. x\<lparr>f_ref := f_ref x + 1\<rparr>) s))"

definition put_ip :: "nat option \<Rightarrow> 'a fsst_scheme \<Rightarrow> 'a fsst_scheme res" where
  "put_ip ipo s = (case ipo of None \<Rightarrow> Inl (Panic ''kerneltrap'') | Some ip \<Rightarrow> iput ip s)"

definition fileclose :: "nat \<Rightarrow> 'a fsst_scheme \<Rightarrow> 'a fsst_scheme res" where
  "fileclose f s =
     (if f_ref (files s ! f) < 1 then Inl (Panic ''fileclose'')
      else let s1 = upd_file f (\<lambda>x. x\<lparr>f_ref := f_ref x - 1\<rparr>) s in
        if f_ref (files s1 ! f) > 0 then Inr s1
        else let ff = files s1 ! f; s2 = upd_file f (\<lambda>x. x\<lparr>f_ref := 0, f_type := FD_NONE\<rparr>) s1 in
          case f_type ff of
            FD_PIPE \<Rightarrow> pipeclose (f_pipe ff) (f_writable ff) s2
          | FD_NONE \<Rightarrow> Inr s2
          | _ \<Rightarrow> andthen (begin_op_now s2) (\<lambda>s3.
                 andthen (put_ip (f_ip ff) s3) (\<lambda>s4. end_op s4)))"

text \<open>\<^verbatim>\<open>struct stat\<close> in memory; its four bytes of padding are never written.\<close>

definition stat_bytes :: "stat \<Rightarrow> u8 list" where
  "stat_bytes st = le_bytes 4 (st_dev st) @ le_bytes 4 (st_ino st) @ le_bytes 2 (st_type st) @ le_bytes 2 (st_nlink st) @
                   [0, 0, 0, 0] @ le_bytes 8 (st_size st)"

definition filestat :: "nat \<Rightarrow> u64 \<Rightarrow> 'a fsst_scheme \<Rightarrow> (int \<times> 'a fsst_scheme) res" where
  "filestat f addr s =
     (case curproc s of
        None \<Rightarrow> Inl (Panic ''kerneltrap'')
      | Some p \<Rightarrow>
          if f_type (files s ! f) = FD_INODE \<or> f_type (files s ! f) = FD_DEVICE then
            case f_ip (files s ! f) of
              None \<Rightarrow> Inl (Panic ''ilock'')
            | Some ip \<Rightarrow>
                andthen (ilock (Some ip) s) (\<lambda>s1.
                  let st = stati (itable s1 ! ip) in
                  andthen (iunlock (Some ip) s1) (\<lambda>s2.
                  andthen (copyout (p_pagetable (procs s2 ! p)) addr (stat_bytes st) s2) (\<lambda>(r, s3).
                    if r < 0 then Inr (-1, s3) else Inr (0, s3))))
          else Inr (-1, s))"

definition CONSOLE :: u16 where "CONSOLE = 1"

text \<open>The entries of \<^verbatim>\<open>devsw\<close>: whether the major number is in range and has functions.\<close>

definition has_dev :: "u16 \<Rightarrow> bool" where
  "has_dev m = (\<not> (sint m < 0 \<or> sint m \<ge> int NDEV) \<and> m = CONSOLE)"

definition fileread :: "nat \<Rightarrow> u64 \<Rightarrow> int \<Rightarrow> 'a fsst_scheme \<Rightarrow> (int outcome \<times> 'a fsst_scheme) res" where
  "fileread f addr n s =
     (let x = files s ! f in
      if \<not> f_readable x then Inr (Returns (-1), s)
      else case f_type x of
        FD_PIPE \<Rightarrow> piperead (f_pipe x) addr n s
      | FD_DEVICE \<Rightarrow>
          if \<not> has_dev (f_major x) then Inr (Returns (-1), s)
          else andthen (consoleread True addr n s) (\<lambda>(r, _, _, s1). Inr (r, s1))
      | FD_INODE \<Rightarrow>
          (case f_ip x of
             None \<Rightarrow> Inl (Panic ''ilock'')
           | Some ip \<Rightarrow>
               andthen (ilock (Some ip) s) (\<lambda>s1.
               andthen (readi ip (ToUser addr) (f_off (files s1 ! f)) (of_int n) s1) (\<lambda>(r, _, s2).
                 let s3 = (if r > 0 then upd_file f (\<lambda>x. x\<lparr>f_off := f_off x + of_int r\<rparr>) s2 else s2) in
                 andthen (iunlock (Some ip) s3) (\<lambda>s4. Inr (Returns r, s4)))))
      | FD_NONE \<Rightarrow> Inl (Panic ''fileread''))"

text \<open>The loop that writes a few blocks per transaction; \<open>i\<close> bytes are written so far.\<close>

definition write_max :: int where
  "write_max = ((int MAXOPBLOCKS - 1 - 1 - 2) div 2) * int BSIZE"

function filewrite_loop :: "nat \<Rightarrow> nat \<Rightarrow> u64 \<Rightarrow> int \<Rightarrow> int \<Rightarrow> 'a fsst_scheme \<Rightarrow> (int \<times> 'a fsst_scheme) res" where
  "filewrite_loop f ip addr i n s =
     (if i < n then
        let n1 = (if n - i > write_max then write_max else n - i) in
        andthen (begin_op_now s) (\<lambda>s1.
        andthen (ilock (Some ip) s1) (\<lambda>s2.
        andthen (writei ip (FromUser (addr + of_int i)) (f_off (files s2 ! f)) (of_int n1) s2) (\<lambda>(r, s3).
          let s4 = (if r > 0 then upd_file f (\<lambda>x. x\<lparr>f_off := f_off x + of_int r\<rparr>) s3 else s3) in
          andthen (iunlock (Some ip) s4) (\<lambda>s5.
          andthen (end_op s5) (\<lambda>s6.
            if r \<noteq> n1 then Inr (i, s6) else filewrite_loop f ip addr (i + r) n s6)))))
      else Inr (i, s))"
  by pat_completeness auto
termination
  by (relation "measure (\<lambda>(f, ip, addr, i, n, s). nat (n - i))") (auto simp: write_max_def MAXOPBLOCKS_def BSIZE_def)

declare filewrite_loop.simps [simp del]

definition filewrite :: "nat \<Rightarrow> u64 \<Rightarrow> int \<Rightarrow> 'a fsst_scheme \<Rightarrow> (int outcome \<times> 'a fsst_scheme) res" where
  "filewrite f addr n s =
     (let x = files s ! f in
      if \<not> f_writable x then Inr (Returns (-1), s)
      else case f_type x of
        FD_PIPE \<Rightarrow> andthen (pipewrite (f_pipe x) addr n s) (\<lambda>(r, _, s1). Inr (r, s1))
      | FD_DEVICE \<Rightarrow>
          if \<not> has_dev (f_major x) then Inr (Returns (-1), s)
          else andthen (consolewrite True addr n s) (\<lambda>(r, _, _, s1). Inr (r, s1))
      | FD_INODE \<Rightarrow>
          (case f_ip x of
             None \<Rightarrow> if 0 < n then Inl (Panic ''ilock'') else Inr (Returns (if n = 0 then 0 else -1), s)
           | Some ip \<Rightarrow>
               andthen (filewrite_loop f ip addr 0 n s) (\<lambda>(i, s1). Inr (Returns (if i = n then n else -1), s1)))
      | FD_NONE \<Rightarrow> Inl (Panic ''filewrite''))"

section \<open>Creating a pipe\<close>

definition close_opt :: "nat option \<Rightarrow> 'a fsst_scheme \<Rightarrow> 'a fsst_scheme res" where
  "close_opt fo s = (case fo of None \<Rightarrow> Inr s | Some f \<Rightarrow> fileclose f s)"

definition pipe_end :: "bool \<Rightarrow> u64 \<Rightarrow> filest \<Rightarrow> filest" where
  "pipe_end writable pi f = f\<lparr>f_type := FD_PIPE, f_readable := \<not> writable, f_writable := writable, f_pipe := pi\<rparr>"

definition pipealloc :: "'a fsst_scheme \<Rightarrow> ((nat \<times> nat) option \<times> 'a fsst_scheme) res" where
  "pipealloc s =
     (case filealloc s of (f0, s1) \<Rightarrow>
      case (if f0 = None then (None, s1) else filealloc s1) of (f1, s2) \<Rightarrow>
      case (f0, f1) of
        (Some a, Some b) \<Rightarrow>
          (case kalloc s2 of (pi, s3) \<Rightarrow>
             if pi = 0 then andthen (fileclose a s3) (\<lambda>s4. andthen (fileclose b s4) (\<lambda>s5. Inr (None, s5)))
             else Inr (Some (a, b),
                    upd_file b (pipe_end True pi) (upd_file a (pipe_end False pi) (s3\<lparr>pipes := (pipes s3)(pi \<mapsto> new_pipe)\<rparr>))))
      | _ \<Rightarrow> andthen (close_opt f0 s2) (\<lambda>s3. andthen (close_opt f1 s3) (\<lambda>s4. Inr (None, s4))))"

end
