(* ===== verification/Xv6_Exec.thy ===== *)
theory Xv6_Exec
  imports Xv6_File
begin

text \<open>
  Program loading (\<^verbatim>\<open>kernel/exec.c\<close>) and the parts of process creation and exit that need
  open files and inodes (\<^verbatim>\<open>userinit\<close>, \<^verbatim>\<open>kfork\<close> and \<^verbatim>\<open>kexit\<close> of
  \<^verbatim>\<open>kernel/proc.c\<close>). A trap frame lives in its page of memory; its fields are the words of that
  page. The argument strings of \<^verbatim>\<open>kexec\<close> are given by their characters.
\<close>

section \<open>Trap frames\<close>

definition tf_epc :: u64 where "tf_epc = 24"
definition tf_sp :: u64 where "tf_sp = 48"
definition tf_a0 :: u64 where "tf_a0 = 112"
definition tf_a1 :: u64 where "tf_a1 = 120"
definition tf_a7 :: u64 where "tf_a7 = 168"
definition tf_size :: nat where "tf_size = 288"

definition get_tf :: "nat \<Rightarrow> u64 \<Rightarrow> 'a fsst_scheme \<Rightarrow> u64" where
  "get_tf p off s = load64 (mem s) (p_trapframe (procs s ! p) + off)"

definition set_tf :: "nat \<Rightarrow> u64 \<Rightarrow> u64 \<Rightarrow> 'a fsst_scheme \<Rightarrow> 'a fsst_scheme" where
  "set_tf p off v s = s\<lparr>mem := store64 (mem s) (p_trapframe (procs s ! p) + off) v\<rparr>"

section \<open>Loading a program\<close>

definition ELF_MAGIC :: u32 where "ELF_MAGIC = 0x464C457F"
definition ELF_PROG_LOAD :: u32 where "ELF_PROG_LOAD = 1"

record elfhdr =
  e_magic :: u32
  e_entry :: u64
  e_phoff :: u64
  e_phnum :: u16

definition get_elfhdr :: "u8 list \<Rightarrow> elfhdr" where
  "get_elfhdr d = \<lparr>e_magic = get_le 4 d 0, e_entry = get_le 8 d 24, e_phoff = get_le 8 d 32, e_phnum = get_le 2 d 56\<rparr>"

record proghdr =
  ph_type :: u32
  ph_flags :: u32
  ph_off :: u64
  ph_vaddr :: u64
  ph_filesz :: u64
  ph_memsz :: u64

definition get_proghdr :: "u8 list \<Rightarrow> proghdr" where
  "get_proghdr d = \<lparr>ph_type = get_le 4 d 0, ph_flags = get_le 4 d 4, ph_off = get_le 8 d 8, ph_vaddr = get_le 8 d 16,
                    ph_filesz = get_le 8 d 32, ph_memsz = get_le 8 d 40\<rparr>"

definition flags2perm :: "u32 \<Rightarrow> u64" where
  "flags2perm flags =
     (let perm = (if flags AND 1 \<noteq> 0 then PTE_X else 0)
      in if flags AND 2 \<noteq> 0 then perm OR PTE_W else perm)"

function loadseg_loop :: "u64 \<Rightarrow> u64 \<Rightarrow> nat \<Rightarrow> u32 \<Rightarrow> nat \<Rightarrow> nat \<Rightarrow> 'a fsst_scheme \<Rightarrow> (int \<times> 'a fsst_scheme) res" where
  "loadseg_loop pagetable va ip offset sz i s =
     (if i < sz then
        andthen (walkaddr pagetable (va + of_nat i) s) (\<lambda>pa.
          if pa = 0 then Inl (Panic ''loadseg: address should exist'')
          else let n = min (sz - i) 4096 in
            andthen (readi ip (ToKernel pa) (offset + of_nat i) (of_nat n) s) (\<lambda>(r, _, s1).
              if r \<noteq> int n then Inr (-1, s1)
              else loadseg_loop pagetable va ip offset sz (i + 4096) s1))
      else Inr (0, s))"
  by pat_completeness auto
termination
  by (relation "measure (\<lambda>(pt, va, ip, off, sz, i, s). sz - i)") auto

declare loadseg_loop.simps [simp del]

definition loadseg :: "u64 \<Rightarrow> u64 \<Rightarrow> nat \<Rightarrow> u32 \<Rightarrow> u32 \<Rightarrow> 'a fsst_scheme \<Rightarrow> (int \<times> 'a fsst_scheme) res" where
  "loadseg pagetable va ip offset sz s = loadseg_loop pagetable va ip offset (unat sz) 0 s"

text \<open>The loop over the program headers; the result says whether to go on, and has the size reached.\<close>

fun load_program :: "nat \<Rightarrow> u32 \<Rightarrow> nat \<Rightarrow> u64 \<Rightarrow> u64 \<Rightarrow> 'a fsst_scheme \<Rightarrow> (bool \<times> u64 \<times> 'a fsst_scheme) res" where
  "load_program 0 off ip pagetable sz s = Inr (True, sz, s)"
| "load_program (Suc k) off ip pagetable sz s =
     andthen (readi ip ToLocal off 56 s) (\<lambda>(r, d, s1).
       let ph = get_proghdr d in
       if r \<noteq> 56 then Inr (False, sz, s1)
       else if ph_type ph \<noteq> ELF_PROG_LOAD then load_program k (off + 56) ip pagetable sz s1
       else if ph_memsz ph < ph_filesz ph \<or> ph_vaddr ph + ph_memsz ph < ph_vaddr ph \<or> ph_vaddr ph mod PGSIZE \<noteq> 0
       then Inr (False, sz, s1)
       else andthen (uvmalloc pagetable sz (ph_vaddr ph + ph_memsz ph) (flags2perm (ph_flags ph)) s1) (\<lambda>(sz1, s2).
         if sz1 = 0 then Inr (False, sz, s2)
         else andthen (loadseg pagetable (ph_vaddr ph) ip (ucast (ph_off ph)) (ucast (ph_filesz ph)) s2) (\<lambda>(r, s3).
           if r < 0 then Inr (False, sz1, s3) else load_program k (off + 56) ip pagetable sz1 s3)))"

text \<open>The strings on the new stack; \<open>ustack\<close> has their addresses.\<close>

fun push_args :: "u8 list list \<Rightarrow> u64 \<Rightarrow> u64 \<Rightarrow> u64 \<Rightarrow> u64 list \<Rightarrow> 'a fsst_scheme \<Rightarrow> (bool \<times> u64 \<times> u64 list \<times> 'a fsst_scheme) res" where
  "push_args [] pagetable stackbase sp ustack s = Inr (True, sp, ustack, s)"
| "push_args (a # as) pagetable stackbase sp ustack s =
     (if length ustack \<ge> MAXARG then Inr (False, sp, ustack, s)
      else let sp1 = sp - (of_nat (length a) + 1); sp2 = sp1 - sp1 mod 16 in
        if sp2 < stackbase then Inr (False, sp2, ustack, s)
        else andthen (copyout pagetable sp2 (a @ [0]) s) (\<lambda>(r, s1).
          if r < 0 then Inr (False, sp2, ustack, s1)
          else push_args as pagetable stackbase sp2 (ustack @ [sp2]) s1))"

definition basename :: "u8 list \<Rightarrow> u8 list" where
  "basename path = rev (takeWhile (\<lambda>c. c \<noteq> slash) (rev path))"

definition exec_bad :: "u64 \<Rightarrow> u64 \<Rightarrow> nat option \<Rightarrow> 'a fsst_scheme \<Rightarrow> (int \<times> 'a fsst_scheme) res" where
  "exec_bad pagetable sz ipo s =
     andthen (if pagetable \<noteq> 0 then proc_freepagetable pagetable sz s else Inr s) (\<lambda>s1.
     andthen (case ipo of None \<Rightarrow> Inr s1 | Some ip \<Rightarrow> andthen (iunlockput ip s1) (\<lambda>s2. end_op s2)) (\<lambda>s2.
     Inr (-1, s2)))"

text \<open>The second half of \<^verbatim>\<open>kexec\<close>: the stack with the arguments, and the commit to the new image.\<close>

definition exec_stack :: "nat \<Rightarrow> u8 list \<Rightarrow> u8 list list \<Rightarrow> u64 \<Rightarrow> u64 \<Rightarrow> u64 \<Rightarrow> 'a fsst_scheme \<Rightarrow> (int \<times> 'a fsst_scheme) res" where
  "exec_stack p path argv pc pagetable sz0 s =
     (let oldsz = p_sz (procs s ! p); sz = PGROUNDUP sz0 in
      andthen (uvmalloc pagetable sz (sz + (USERSTACK + 1) * PGSIZE) PTE_W s) (\<lambda>(sz1, s1).
        if sz1 = 0 then exec_bad pagetable sz None s1
        else andthen (uvmclear pagetable (sz1 - (USERSTACK + 1) * PGSIZE) s1) (\<lambda>s2.
          let stackbase = sz1 - USERSTACK * PGSIZE in
          andthen (push_args argv pagetable stackbase sz1 [] s2) (\<lambda>(ok, sp, ustack, s3).
            if \<not> ok then exec_bad pagetable sz1 None s3
            else let argc = length ustack;
                     sp1 = sp - of_nat ((argc + 1) * 8); sp2 = sp1 - sp1 mod 16 in
              if sp2 < stackbase then exec_bad pagetable sz1 None s3
              else andthen (copyout pagetable sp2 (concat (map (\<lambda>w. le_bytes 8 w) (ustack @ [0]))) s3) (\<lambda>(r, s4).
                if r < 0 then exec_bad pagetable sz1 None s4
                else let s5 = set_tf p tf_a1 sp2 s4;
                         s6 = upd_proc p (\<lambda>q. q\<lparr>p_name := safestrcpy (p_name q) (cptr_of (basename path)) 16\<rparr>) s5;
                         oldpagetable = p_pagetable (procs s6 ! p);
                         s7 = upd_proc p (\<lambda>q. q\<lparr>p_pagetable := pagetable, p_sz := sz1\<rparr>) s6;
                         s8 = set_tf p tf_sp sp2 (set_tf p tf_epc pc s7)
                     in andthen (proc_freepagetable oldpagetable oldsz s8) (\<lambda>s9. Inr (int argc, s9)))))))"

definition kexec :: "u8 list \<Rightarrow> u8 list list \<Rightarrow> 'a fsst_scheme \<Rightarrow> (int \<times> 'a fsst_scheme) res" where
  "kexec path argv s =
     (case curproc s of
        None \<Rightarrow> Inl (Panic ''kerneltrap'')
      | Some p \<Rightarrow>
          andthen (begin_op_now s) (\<lambda>s1.
          andthen (namei path s1) (\<lambda>(ipo, s2).
            case ipo of
              None \<Rightarrow> andthen (end_op s2) (\<lambda>s3. Inr (-1, s3))
            | Some ip \<Rightarrow>
                andthen (ilock (Some ip) s2) (\<lambda>s3.
                andthen (readi ip ToLocal 0 64 s3) (\<lambda>(r, d, s4).
                  let elf = get_elfhdr d in
                  if r \<noteq> 64 \<or> e_magic elf \<noteq> ELF_MAGIC then exec_bad 0 0 (Some ip) s4
                  else andthen (proc_pagetable p s4) (\<lambda>(pagetable, s5).
                    if pagetable = 0 then exec_bad 0 0 (Some ip) s5
                    else andthen (load_program (unat (e_phnum elf)) (ucast (e_phoff elf)) ip pagetable 0 s5) (\<lambda>(ok, sz, s6).
                      if \<not> ok then exec_bad pagetable sz (Some ip) s6
                      else andthen (iunlockput ip s6) (\<lambda>s7.
                           andthen (end_op s7) (\<lambda>s8.
                           exec_stack p path argv (e_entry elf) pagetable sz s8))))))))) "

section \<open>Process creation and exit\<close>

definition userinit :: "'a fsst_scheme \<Rightarrow> 'a fsst_scheme res" where
  "userinit s =
     andthen (allocproc s) (\<lambda>(po, s1).
       case po of
         None \<Rightarrow> Inl (Panic ''kerneltrap'')
       | Some p \<Rightarrow>
           andthen (namei [slash] (s1\<lparr>initproc := Some p\<rparr>)) (\<lambda>(ipo, s2).
           Inr (upd_proc p (\<lambda>q. q\<lparr>p_cwd := ipo, p_state := RUNNABLE\<rparr>) s2)))"

definition fork_file :: "nat \<Rightarrow> nat \<Rightarrow> nat \<Rightarrow> 'a fsst_scheme \<Rightarrow> 'a fsst_scheme res" where
  "fork_file p np i s =
     (case p_ofile (procs s ! p) ! i of
        None \<Rightarrow> Inr s
      | Some f \<Rightarrow> andthen (filedup f s) (\<lambda>s1. Inr (upd_proc np (\<lambda>q. q\<lparr>p_ofile := (p_ofile q)[i := Some f]\<rparr>) s1)))"

definition kfork :: "'a fsst_scheme \<Rightarrow> (int \<times> 'a fsst_scheme) res" where
  "kfork s =
     (case curproc s of
        None \<Rightarrow> Inl (Panic ''kerneltrap'')
      | Some p \<Rightarrow>
          andthen (allocproc s) (\<lambda>(npo, s1).
            case npo of
              None \<Rightarrow> Inr (-1, s1)
            | Some np \<Rightarrow>
                andthen (uvmcopy (p_pagetable (procs s1 ! p)) (p_pagetable (procs s1 ! np)) (p_sz (procs s1 ! p)) s1) (\<lambda>(r, s2).
                  if r < 0 then andthen (freeproc np s2) (\<lambda>s3. Inr (-1, s3))
                  else
                    let s3 = upd_proc np (\<lambda>q. q\<lparr>p_sz := p_sz (procs s2 ! p)\<rparr>) s2;
                        s4 = s3\<lparr>mem := store_bytes (mem s3) (p_trapframe (procs s3 ! np))
                                        (load_bytes (mem s3) (p_trapframe (procs s3 ! p)) tf_size)\<rparr>;
                        s5 = set_tf np tf_a0 0 s4 in
                    andthen (for_each (fork_file p np) [0..<NOFILE] s5) (\<lambda>s6.
                      case p_cwd (procs s6 ! p) of
                        None \<Rightarrow> Inl (Panic ''kerneltrap'')
                      | Some ip \<Rightarrow>
                          let s7 = upd_proc np (\<lambda>q. q\<lparr>p_cwd := Some ip\<rparr>) (idup ip s6);
                              s8 = upd_proc np (\<lambda>q. q\<lparr>p_name := safestrcpy (p_name q) (cptr_of (p_name (procs s7 ! p))) 16\<rparr>) s7;
                              pid = p_pid (procs s8 ! np)
                          in Inr (pid, upd_proc np (\<lambda>q. q\<lparr>p_parent := Some p, p_state := RUNNABLE\<rparr>) s8)))))"

definition exit_file :: "nat \<Rightarrow> nat \<Rightarrow> 'a fsst_scheme \<Rightarrow> 'a fsst_scheme res" where
  "exit_file p fd s =
     (case p_ofile (procs s ! p) ! fd of
        None \<Rightarrow> Inr s
      | Some f \<Rightarrow> andthen (fileclose f s) (\<lambda>s1. Inr (upd_proc p (\<lambda>q. q\<lparr>p_ofile := (p_ofile q)[fd := None]\<rparr>) s1)))"

text \<open>\<^verbatim>\<open>kexit\<close> up to the switch to the scheduler, from which it does not return.\<close>

definition kexit :: "int \<Rightarrow> 'a fsst_scheme \<Rightarrow> 'a fsst_scheme res" where
  "kexit status s =
     (case curproc s of
        None \<Rightarrow> Inl (Panic ''kerneltrap'')
      | Some p \<Rightarrow>
          if initproc s = Some p then Inl (Panic ''init exiting'')
          else
            andthen (for_each (exit_file p) [0..<NOFILE] s) (\<lambda>s1.
            andthen (begin_op_now s1) (\<lambda>s2.
            andthen (put_ip (p_cwd (procs s2 ! p)) s2) (\<lambda>s3.
            andthen (end_op s3) (\<lambda>s4.
              let s5 = reparent p (upd_proc p (\<lambda>q. q\<lparr>p_cwd := None\<rparr>) s4);
                  s6 = wakeup (map_option ProcChan (p_parent (procs s5 ! p))) s5;
                  s7 = upd_proc p (\<lambda>q. q\<lparr>p_xstate := status, p_state := ZOMBIE\<rparr>) s6
              in Inr (s7\<lparr>curproc := None\<rparr>))))))"

end
