(* ===== verification/Xv6_Sysfile.thy ===== *)
theory Xv6_Sysfile
  imports Xv6_Exec
begin

text \<open>
  Arguments of system calls (\<^verbatim>\<open>kernel/syscall.c\<close>) and the system calls on files
  (\<^verbatim>\<open>kernel/sysfile.c\<close>). A system call returns a value for \<^verbatim>\<open>a0\<close> or blocks. The calls run
  in a process; without one \<^verbatim>\<open>myproc()->...\<close> faults.
\<close>

section \<open>Arguments\<close>

definition with_proc :: "(nat \<Rightarrow> 'a fsst_scheme \<Rightarrow> 'b res) \<Rightarrow> 'a fsst_scheme \<Rightarrow> 'b res" where
  "with_proc f s = (case curproc s of None \<Rightarrow> Inl (Panic ''kerneltrap'') | Some p \<Rightarrow> f p s)"

definition fetchaddr :: "nat \<Rightarrow> u64 \<Rightarrow> 'a fsst_scheme \<Rightarrow> (int \<times> u64 \<times> 'a fsst_scheme) res" where
  "fetchaddr p addr s =
     (let sz = p_sz (procs s ! p) in
      if addr \<ge> sz \<or> addr + 8 > sz then Inr (-1, 0, s)
      else andthen (copyin (p_pagetable (procs s ! p)) addr 8 s) (\<lambda>(r, bs, s1).
        if r \<noteq> 0 then Inr (-1, 0, s1) else Inr (0, le_word bs, s1)))"

definition fetchstr :: "nat \<Rightarrow> u64 \<Rightarrow> nat \<Rightarrow> 'a fsst_scheme \<Rightarrow> (int \<times> u8 list) res" where
  "fetchstr p addr mx s =
     andthen (copyinstr (p_pagetable (procs s ! p)) addr mx s) (\<lambda>(r, bs).
       if r < 0 then Inr (-1, bs) else Inr (int (length (c_string bs)), bs))"

definition argraw :: "nat \<Rightarrow> nat \<Rightarrow> 'a fsst_scheme \<Rightarrow> u64 res" where
  "argraw p n s = (if n < 6 then Inr (get_tf p (tf_a0 + 8 * of_nat n) s) else Inl (Panic ''argraw''))"

definition argint :: "nat \<Rightarrow> nat \<Rightarrow> 'a fsst_scheme \<Rightarrow> int res" where
  "argint p n s = andthen (argraw p n s) (\<lambda>v. Inr (sint (ucast v :: u32)))"

definition argaddr :: "nat \<Rightarrow> nat \<Rightarrow> 'a fsst_scheme \<Rightarrow> u64 res" where
  "argaddr p n s = argraw p n s"

definition argstr :: "nat \<Rightarrow> nat \<Rightarrow> nat \<Rightarrow> 'a fsst_scheme \<Rightarrow> (int \<times> u8 list) res" where
  "argstr p n mx s = andthen (argaddr p n s) (\<lambda>addr. andthen (fetchstr p addr mx s) (\<lambda>(r, bs). Inr (r, c_string bs)))"

definition argfd :: "nat \<Rightarrow> nat \<Rightarrow> 'a fsst_scheme \<Rightarrow> (nat \<times> nat) option res" where
  "argfd p n s =
     andthen (argint p n s) (\<lambda>fd.
       if fd < 0 \<or> fd \<ge> int NOFILE then Inr None
       else case p_ofile (procs s ! p) ! nat fd of None \<Rightarrow> Inr None | Some f \<Rightarrow> Inr (Some (nat fd, f)))"

definition fdalloc :: "nat \<Rightarrow> nat \<Rightarrow> 'a fsst_scheme \<Rightarrow> nat option \<times> 'a fsst_scheme" where
  "fdalloc p f s =
     (case first_idx (\<lambda>x. x = None) (p_ofile (procs s ! p)) of
        Some fd \<Rightarrow> (Some fd, upd_proc p (\<lambda>q. q\<lparr>p_ofile := (p_ofile q)[fd := Some f]\<rparr>) s)
      | None \<Rightarrow> (None, s))"

definition set_ofile :: "nat \<Rightarrow> nat \<Rightarrow> nat option \<Rightarrow> 'a fsst_scheme \<Rightarrow> 'a fsst_scheme" where
  "set_ofile p fd fo s = upd_proc p (\<lambda>q. q\<lparr>p_ofile := (p_ofile q)[fd := fo]\<rparr>) s"

section \<open>Descriptors\<close>

abbreviation ret :: "int \<Rightarrow> 'a fsst_scheme \<Rightarrow> (u64 outcome \<times> 'a fsst_scheme) res" where
  "ret v s \<equiv> Inr (Returns (of_int v), s)"

definition ret_outcome :: "int outcome \<times> 'a fsst_scheme \<Rightarrow> (u64 outcome \<times> 'a fsst_scheme) res" where
  "ret_outcome r = (case r of (Returns v, s) \<Rightarrow> ret v s | (Blocks ch, s) \<Rightarrow> Inr (Blocks ch, s))"

definition sys_dup :: "nat \<Rightarrow> 'a fsst_scheme \<Rightarrow> (u64 outcome \<times> 'a fsst_scheme) res" where
  "sys_dup p s =
     andthen (argfd p 0 s) (\<lambda>r.
       case r of
         None \<Rightarrow> ret (-1) s
       | Some (_, f) \<Rightarrow>
           (case fdalloc p f s of
              (None, s1) \<Rightarrow> ret (-1) s1
            | (Some fd, s1) \<Rightarrow> andthen (filedup f s1) (\<lambda>s2. ret (int fd) s2)))"

definition sys_read :: "nat \<Rightarrow> 'a fsst_scheme \<Rightarrow> (u64 outcome \<times> 'a fsst_scheme) res" where
  "sys_read p s =
     andthen (argaddr p 1 s) (\<lambda>addr.
     andthen (argint p 2 s) (\<lambda>n.
     andthen (argfd p 0 s) (\<lambda>r.
       case r of None \<Rightarrow> ret (-1) s | Some (_, f) \<Rightarrow> andthen (fileread f addr n s) ret_outcome)))"

definition sys_write :: "nat \<Rightarrow> 'a fsst_scheme \<Rightarrow> (u64 outcome \<times> 'a fsst_scheme) res" where
  "sys_write p s =
     andthen (argaddr p 1 s) (\<lambda>addr.
     andthen (argint p 2 s) (\<lambda>n.
     andthen (argfd p 0 s) (\<lambda>r.
       case r of None \<Rightarrow> ret (-1) s | Some (_, f) \<Rightarrow> andthen (filewrite f addr n s) ret_outcome)))"

definition sys_close :: "nat \<Rightarrow> 'a fsst_scheme \<Rightarrow> (u64 outcome \<times> 'a fsst_scheme) res" where
  "sys_close p s =
     andthen (argfd p 0 s) (\<lambda>r.
       case r of
         None \<Rightarrow> ret (-1) s
       | Some (fd, f) \<Rightarrow> andthen (fileclose f (set_ofile p fd None s)) (\<lambda>s1. ret 0 s1))"

definition sys_fstat :: "nat \<Rightarrow> 'a fsst_scheme \<Rightarrow> (u64 outcome \<times> 'a fsst_scheme) res" where
  "sys_fstat p s =
     andthen (argaddr p 1 s) (\<lambda>st.
     andthen (argfd p 0 s) (\<lambda>r.
       case r of None \<Rightarrow> ret (-1) s | Some (_, f) \<Rightarrow> andthen (filestat f st s) (\<lambda>(v, s1). ret v s1)))"

section \<open>Links and directories\<close>

definition upd_nlink :: "nat \<Rightarrow> (u16 \<Rightarrow> u16) \<Rightarrow> 'a fsst_scheme \<Rightarrow> 'a fsst_scheme res" where
  "upd_nlink ip g s = iupdate ip (upd_inode ip (\<lambda>x. x\<lparr>i_nlink := g (i_nlink x)\<rparr>) s)"

definition fail_op :: "'a fsst_scheme \<Rightarrow> (u64 outcome \<times> 'a fsst_scheme) res" where
  "fail_op s = andthen (end_op s) (\<lambda>s1. ret (-1) s1)"

definition link_bad :: "nat \<Rightarrow> 'a fsst_scheme \<Rightarrow> (u64 outcome \<times> 'a fsst_scheme) res" where
  "link_bad ip s =
     andthen (ilock (Some ip) s) (\<lambda>s1.
     andthen (upd_nlink ip (\<lambda>n. n - 1) s1) (\<lambda>s2.
     andthen (iunlockput ip s2) (\<lambda>s3. fail_op s3)))"

definition sys_link :: "nat \<Rightarrow> 'a fsst_scheme \<Rightarrow> (u64 outcome \<times> 'a fsst_scheme) res" where
  "sys_link p s =
     andthen (argstr p 0 MAXPATH s) (\<lambda>(r0, old).
       if r0 < 0 then ret (-1) s
       else andthen (argstr p 1 MAXPATH s) (\<lambda>(r1, new).
         if r1 < 0 then ret (-1) s
         else andthen (begin_op_now s) (\<lambda>s1.
           andthen (namei old s1) (\<lambda>(ipo, s2).
             case ipo of
               None \<Rightarrow> fail_op s2
             | Some ip \<Rightarrow>
                 andthen (ilock (Some ip) s2) (\<lambda>s3.
                   if i_type (itable s3 ! ip) = T_DIR then andthen (iunlockput ip s3) fail_op
                   else andthen (upd_nlink ip (\<lambda>n. n + 1) s3) (\<lambda>s4.
                     andthen (iunlock (Some ip) s4) (\<lambda>s5.
                     andthen (nameiparent new s5) (\<lambda>(dpo, nm, s6).
                       case dpo of
                         None \<Rightarrow> link_bad ip s6
                       | Some dp \<Rightarrow>
                           andthen (ilock (Some dp) s6) (\<lambda>s7.
                           andthen (if i_dev (itable s7 ! dp) \<noteq> i_dev (itable s7 ! ip) then Inr (-1, s7)
                                    else dirlink dp nm (i_inum (itable s7 ! ip)) s7) (\<lambda>(r, s8).
                             if r < 0 then andthen (iunlockput dp s8) (\<lambda>s9. link_bad ip s9)
                             else andthen (iunlockput dp s8) (\<lambda>s9.
                                  andthen (iput ip s9) (\<lambda>s10.
                                  andthen (end_op s10) (\<lambda>s11. ret 0 s11)))))))))))))"

fun isdirempty_loop :: "nat list \<Rightarrow> nat \<Rightarrow> 'a fsst_scheme \<Rightarrow> (bool \<times> 'a fsst_scheme) res" where
  "isdirempty_loop [] dp s = Inr (True, s)"
| "isdirempty_loop (off # offs) dp s =
     andthen (readi dp ToLocal (of_nat off) 16 s) (\<lambda>(r, de, s1).
       if r \<noteq> 16 then Inl (Panic ''isdirempty: readi'')
       else if de_inum de \<noteq> 0 then Inr (False, s1)
       else isdirempty_loop offs dp s1)"

definition isdirempty :: "nat \<Rightarrow> 'a fsst_scheme \<Rightarrow> (bool \<times> 'a fsst_scheme) res" where
  "isdirempty dp s = isdirempty_loop (drop 2 (de_offsets (i_size (itable s ! dp)))) dp s"

definition unlink_bad :: "nat \<Rightarrow> 'a fsst_scheme \<Rightarrow> (u64 outcome \<times> 'a fsst_scheme) res" where
  "unlink_bad dp s = andthen (iunlockput dp s) fail_op"

definition unlink_entry :: "nat \<Rightarrow> nat \<Rightarrow> u32 \<Rightarrow> 'a fsst_scheme \<Rightarrow> (u64 outcome \<times> 'a fsst_scheme) res" where
  "unlink_entry dp ip off s =
     andthen (writei dp (FromLocal (replicate 16 0)) off 16 s) (\<lambda>(r, s1).
       if r \<noteq> 16 then Inl (Panic ''unlink: writei'')
       else andthen (if i_type (itable s1 ! ip) = T_DIR then upd_nlink dp (\<lambda>n. n - 1) s1 else Inr s1) (\<lambda>s2.
            andthen (iunlockput dp s2) (\<lambda>s3.
            andthen (upd_nlink ip (\<lambda>n. n - 1) s3) (\<lambda>s4.
            andthen (iunlockput ip s4) (\<lambda>s5.
            andthen (end_op s5) (\<lambda>s6. ret 0 s6))))))"

definition sys_unlink :: "nat \<Rightarrow> 'a fsst_scheme \<Rightarrow> (u64 outcome \<times> 'a fsst_scheme) res" where
  "sys_unlink p s =
     andthen (argstr p 0 MAXPATH s) (\<lambda>(r, path).
       if r < 0 then ret (-1) s
       else andthen (begin_op_now s) (\<lambda>s1.
         andthen (nameiparent path s1) (\<lambda>(dpo, nm, s2).
           case dpo of
             None \<Rightarrow> fail_op s2
           | Some dp \<Rightarrow>
               andthen (ilock (Some dp) s2) (\<lambda>s3.
                 if namecmp nm (str ''.'') = 0 \<or> namecmp nm (str ''..'') = 0 then unlink_bad dp s3
                 else andthen (dirlookup dp nm s3) (\<lambda>(l, s4).
                   case l of
                     None \<Rightarrow> unlink_bad dp s4
                   | Some (ip, off) \<Rightarrow>
                       andthen (ilock (Some ip) s4) (\<lambda>s5.
                         if sint (i_nlink (itable s5 ! ip)) < 1 then Inl (Panic ''unlink: nlink < 1'')
                         else andthen (if i_type (itable s5 ! ip) = T_DIR then isdirempty ip s5 else Inr (True, s5)) (\<lambda>(ok, s6).
                           if \<not> ok then andthen (iunlockput ip s6) (\<lambda>s7. unlink_bad dp s7)
                           else unlink_entry dp ip off s6)))))))"

section \<open>Creating and opening files\<close>

definition create_fail :: "nat \<Rightarrow> nat \<Rightarrow> 'a fsst_scheme \<Rightarrow> (nat option \<times> 'a fsst_scheme) res" where
  "create_fail ip dp s =
     andthen (upd_nlink ip (\<lambda>_. 0) s) (\<lambda>s1.
     andthen (iunlockput ip s1) (\<lambda>s2.
     andthen (iunlockput dp s2) (\<lambda>s3. Inr (None, s3))))"

definition create_new :: "nat \<Rightarrow> u8 list \<Rightarrow> u16 \<Rightarrow> u16 \<Rightarrow> u16 \<Rightarrow> nat \<Rightarrow> 'a fsst_scheme \<Rightarrow> (nat option \<times> 'a fsst_scheme) res" where
  "create_new dp nm type major minor ip s =
     andthen (ilock (Some ip) s) (\<lambda>s1.
     andthen (iupdate ip (upd_inode ip (\<lambda>x. x\<lparr>i_major := major, i_minor := minor, i_nlink := 1\<rparr>) s1)) (\<lambda>s2.
     andthen (if type = T_DIR then
                andthen (dirlink ip (str ''.'') (i_inum (itable s2 ! ip)) s2) (\<lambda>(r, s3).
                  if r < 0 then Inr (r, s3) else dirlink ip (str ''..'') (i_inum (itable s3 ! dp)) s3)
              else Inr (0, s2)) (\<lambda>(r, s3).
       if r < 0 then create_fail ip dp s3
       else andthen (dirlink dp nm (i_inum (itable s3 ! ip)) s3) (\<lambda>(r, s4).
         if r < 0 then create_fail ip dp s4
         else andthen (if type = T_DIR then upd_nlink dp (\<lambda>n. n + 1) s4 else Inr s4) (\<lambda>s5.
              andthen (iunlockput dp s5) (\<lambda>s6. Inr (Some ip, s6)))))))"

definition create :: "u8 list \<Rightarrow> u16 \<Rightarrow> u16 \<Rightarrow> u16 \<Rightarrow> 'a fsst_scheme \<Rightarrow> (nat option \<times> 'a fsst_scheme) res" where
  "create path type major minor s =
     andthen (nameiparent path s) (\<lambda>(dpo, nm, s1).
       case dpo of
         None \<Rightarrow> Inr (None, s1)
       | Some dp \<Rightarrow>
           andthen (ilock (Some dp) s1) (\<lambda>s2.
           andthen (dirlookup dp nm s2) (\<lambda>(l, s3).
             case l of
               Some (ip, _) \<Rightarrow>
                 andthen (iunlockput dp s3) (\<lambda>s4.
                 andthen (ilock (Some ip) s4) (\<lambda>s5.
                   if type = T_FILE \<and> (i_type (itable s5 ! ip) = T_FILE \<or> i_type (itable s5 ! ip) = T_DEVICE)
                   then Inr (Some ip, s5)
                   else andthen (iunlockput ip s5) (\<lambda>s6. Inr (None, s6))))
             | None \<Rightarrow>
                 andthen (ialloc (i_dev (itable s3 ! dp)) type s3) (\<lambda>(ipo, s4).
                   case ipo of
                     None \<Rightarrow> andthen (iunlockput dp s4) (\<lambda>s5. Inr (None, s5))
                   | Some ip \<Rightarrow> create_new dp nm type major minor ip s4))))"

text \<open>The inode to open, locked, or none.\<close>

definition open_inode :: "u8 list \<Rightarrow> u32 \<Rightarrow> 'a fsst_scheme \<Rightarrow> (nat option \<times> 'a fsst_scheme) res" where
  "open_inode path omode s =
     (if omode AND O_CREATE \<noteq> 0 then create path T_FILE 0 0 s
      else andthen (namei path s) (\<lambda>(ipo, s1).
        case ipo of
          None \<Rightarrow> Inr (None, s1)
        | Some ip \<Rightarrow>
            andthen (ilock (Some ip) s1) (\<lambda>s2.
              if i_type (itable s2 ! ip) = T_DIR \<and> omode \<noteq> O_RDONLY
              then andthen (iunlockput ip s2) (\<lambda>s3. Inr (None, s3))
              else Inr (Some ip, s2))))"

definition open_file :: "nat \<Rightarrow> nat \<Rightarrow> u32 \<Rightarrow> nat \<Rightarrow> nat \<Rightarrow> 'a fsst_scheme \<Rightarrow> (u64 outcome \<times> 'a fsst_scheme) res" where
  "open_file p ip omode f fd s =
     (let x = itable s ! ip;
          s1 = upd_file f (\<lambda>y. if i_type x = T_DEVICE then y\<lparr>f_type := FD_DEVICE, f_major := i_major x\<rparr>
                               else y\<lparr>f_type := FD_INODE, f_off := 0\<rparr>) s;
          s2 = upd_file f (\<lambda>y. y\<lparr>f_ip := Some ip, f_readable := (omode AND O_WRONLY = 0),
                                 f_writable := (omode AND O_WRONLY \<noteq> 0 \<or> omode AND O_RDWR \<noteq> 0)\<rparr>) s1 in
      andthen (if omode AND O_TRUNC \<noteq> 0 \<and> i_type (itable s2 ! ip) = T_FILE then itrunc ip s2 else Inr s2) (\<lambda>s3.
      andthen (iunlock (Some ip) s3) (\<lambda>s4.
      andthen (end_op s4) (\<lambda>s5. ret (int fd) s5))))"

definition sys_open :: "nat \<Rightarrow> 'a fsst_scheme \<Rightarrow> (u64 outcome \<times> 'a fsst_scheme) res" where
  "sys_open p s =
     andthen (argint p 1 s) (\<lambda>om.
     andthen (argstr p 0 MAXPATH s) (\<lambda>(r, path).
       if r < 0 then ret (-1) s
       else andthen (begin_op_now s) (\<lambda>s1.
         andthen (open_inode path (of_int om) s1) (\<lambda>(ipo, s2).
           case ipo of
             None \<Rightarrow> fail_op s2
           | Some ip \<Rightarrow>
               if i_type (itable s2 ! ip) = T_DEVICE \<and>
                  (sint (i_major (itable s2 ! ip)) < 0 \<or> sint (i_major (itable s2 ! ip)) \<ge> int NDEV)
               then andthen (iunlockput ip s2) fail_op
               else case filealloc s2 of (fo, s3) \<Rightarrow>
                 (case fo of
                    None \<Rightarrow> andthen (iunlockput ip s3) fail_op
                  | Some f \<Rightarrow>
                      case fdalloc p f s3 of (fdo, s4) \<Rightarrow>
                      (case fdo of
                         None \<Rightarrow> andthen (fileclose f s4) (\<lambda>s5. andthen (iunlockput ip s5) fail_op)
                       | Some fd \<Rightarrow> open_file p ip (of_int om) f fd s4))))))"

definition sys_mkdir :: "nat \<Rightarrow> 'a fsst_scheme \<Rightarrow> (u64 outcome \<times> 'a fsst_scheme) res" where
  "sys_mkdir p s =
     andthen (begin_op_now s) (\<lambda>s1.
     andthen (argstr p 0 MAXPATH s1) (\<lambda>(r, path).
       if r < 0 then fail_op s1
       else andthen (create path T_DIR 0 0 s1) (\<lambda>(ipo, s2).
         case ipo of
           None \<Rightarrow> fail_op s2
         | Some ip \<Rightarrow> andthen (iunlockput ip s2) (\<lambda>s3. andthen (end_op s3) (\<lambda>s4. ret 0 s4)))))"

definition sys_mknod :: "nat \<Rightarrow> 'a fsst_scheme \<Rightarrow> (u64 outcome \<times> 'a fsst_scheme) res" where
  "sys_mknod p s =
     andthen (begin_op_now s) (\<lambda>s1.
     andthen (argint p 1 s1) (\<lambda>major.
     andthen (argint p 2 s1) (\<lambda>minor.
     andthen (argstr p 0 MAXPATH s1) (\<lambda>(r, path).
       if r < 0 then fail_op s1
       else andthen (create path T_DEVICE (of_int major) (of_int minor) s1) (\<lambda>(ipo, s2).
         case ipo of
           None \<Rightarrow> fail_op s2
         | Some ip \<Rightarrow> andthen (iunlockput ip s2) (\<lambda>s3. andthen (end_op s3) (\<lambda>s4. ret 0 s4)))))))"

definition sys_chdir :: "nat \<Rightarrow> 'a fsst_scheme \<Rightarrow> (u64 outcome \<times> 'a fsst_scheme) res" where
  "sys_chdir p s =
     andthen (begin_op_now s) (\<lambda>s1.
     andthen (argstr p 0 MAXPATH s1) (\<lambda>(r, path).
       if r < 0 then fail_op s1
       else andthen (namei path s1) (\<lambda>(ipo, s2).
         case ipo of
           None \<Rightarrow> fail_op s2
         | Some ip \<Rightarrow>
             andthen (ilock (Some ip) s2) (\<lambda>s3.
               if i_type (itable s3 ! ip) \<noteq> T_DIR then andthen (iunlockput ip s3) fail_op
               else andthen (iunlock (Some ip) s3) (\<lambda>s4.
                    andthen (put_ip (p_cwd (procs s4 ! p)) s4) (\<lambda>s5.
                    andthen (end_op s5) (\<lambda>s6. ret 0 (upd_proc p (\<lambda>q. q\<lparr>p_cwd := Some ip\<rparr>) s6))))))))"

section \<open>Programs and pipes\<close>

text \<open>
  The loop of \<^verbatim>\<open>sys_exec\<close> that fetches the arguments, each into a page of its own; the result says
  whether all were fetched, and has the strings and the pages.
\<close>

fun exec_argv :: "nat \<Rightarrow> nat \<Rightarrow> u64 \<Rightarrow> u8 list list \<Rightarrow> u64 list \<Rightarrow> 'a fsst_scheme \<Rightarrow> (bool \<times> u8 list list \<times> u64 list \<times> 'a fsst_scheme) res" where
  "exec_argv 0 p uargv strs pages s = Inr (False, strs, pages, s)"
| "exec_argv (Suc k) p uargv strs pages s =
     andthen (fetchaddr p uargv s) (\<lambda>(r, uarg, s1).
       if r < 0 then Inr (False, strs, pages, s1)
       else if uarg = 0 then Inr (True, strs, pages, s1)
       else case kalloc s1 of (page, s2) \<Rightarrow>
         if page = 0 then Inr (False, strs, pages, s2)
         else andthen (fetchstr p uarg 4096 s2) (\<lambda>(r, bs).
           let s3 = s2\<lparr>mem := store_bytes (mem s2) page bs\<rparr> in
           if r < 0 then Inr (False, strs, pages @ [page], s3)
           else exec_argv k p (uargv + 8) (strs @ [c_string bs]) (pages @ [page]) s3))"

definition sys_exec :: "nat \<Rightarrow> 'a fsst_scheme \<Rightarrow> (u64 outcome \<times> 'a fsst_scheme) res" where
  "sys_exec p s =
     andthen (argaddr p 1 s) (\<lambda>uargv.
     andthen (argstr p 0 MAXPATH s) (\<lambda>(r, path).
       if r < 0 then ret (-1) s
       else andthen (exec_argv MAXARG p uargv [] [] s) (\<lambda>(ok, argv, pages, s1).
         andthen (if ok then kexec path argv s1 else Inr (-1, s1)) (\<lambda>(v, s2).
         andthen (for_each kfree pages s2) (\<lambda>s3. ret v s3)))))"

definition close_both :: "nat \<Rightarrow> nat \<Rightarrow> 'a fsst_scheme \<Rightarrow> (u64 outcome \<times> 'a fsst_scheme) res" where
  "close_both rf wfl s = andthen (fileclose rf s) (\<lambda>s1. andthen (fileclose wfl s1) (\<lambda>s2. ret (-1) s2))"

definition sys_pipe :: "nat \<Rightarrow> 'a fsst_scheme \<Rightarrow> (u64 outcome \<times> 'a fsst_scheme) res" where
  "sys_pipe p s =
     andthen (argaddr p 0 s) (\<lambda>fdarray.
     andthen (pipealloc s) (\<lambda>(r, s1).
       case r of
         None \<Rightarrow> ret (-1) s1
       | Some (rf, wfl) \<Rightarrow>
           (case fdalloc p rf s1 of
              (None, s2) \<Rightarrow> close_both rf wfl s2
            | (Some fd0, s2) \<Rightarrow>
                (case fdalloc p wfl s2 of
                   (None, s3) \<Rightarrow> close_both rf wfl (set_ofile p fd0 None s3)
                 | (Some fd1, s3) \<Rightarrow>
                     andthen (copyout (p_pagetable (procs s3 ! p)) fdarray (int_bytes (int fd0)) s3) (\<lambda>(r0, s4).
                     andthen (if r0 < 0 then Inr (-1, s4)
                              else copyout (p_pagetable (procs s4 ! p)) (fdarray + 4) (int_bytes (int fd1)) s4) (\<lambda>(r1, s5).
                       if r1 < 0 then close_both rf wfl (set_ofile p fd1 None (set_ofile p fd0 None s5))
                       else ret 0 s5))))))"

end
