(* ===== verification/Xv6_Sysproc.thy ===== *)
theory Xv6_Sysproc
  imports Xv6_Sysfile
begin

text \<open>
  The system calls on processes (\<^verbatim>\<open>kernel/sysproc.c\<close>) and the dispatch on the call number
  (\<^verbatim>\<open>syscall\<close> of \<^verbatim>\<open>kernel/syscall.c\<close>).
\<close>

section \<open>System calls on processes\<close>

definition sys_getpid :: "nat \<Rightarrow> 'a fsst_scheme \<Rightarrow> (u64 outcome \<times> 'a fsst_scheme) res" where
  "sys_getpid p s = ret (p_pid (procs s ! p)) s"

definition sys_fork :: "nat \<Rightarrow> 'a fsst_scheme \<Rightarrow> (u64 outcome \<times> 'a fsst_scheme) res" where
  "sys_fork p s = andthen (kfork s) (\<lambda>(v, s1). ret v s1)"

definition sys_wait :: "nat \<Rightarrow> 'a fsst_scheme \<Rightarrow> (u64 outcome \<times> 'a fsst_scheme) res" where
  "sys_wait p s = andthen (argaddr p 0 s) (\<lambda>addr. andthen (kwait addr s) ret_outcome)"

definition SBRK_EAGER :: int where "SBRK_EAGER = 1"

definition sys_sbrk :: "nat \<Rightarrow> 'a fsst_scheme \<Rightarrow> (u64 outcome \<times> 'a fsst_scheme) res" where
  "sys_sbrk p s =
     andthen (argint p 0 s) (\<lambda>n.
     andthen (argint p 1 s) (\<lambda>t.
       let addr = p_sz (procs s ! p) in
       if t = SBRK_EAGER \<or> n < 0 then
         andthen (growproc n s) (\<lambda>(r, s1). if r < 0 then ret (-1) s1 else Inr (Returns addr, s1))
       else if addr + of_int n < addr then ret (-1) s
       else if addr + of_int n > TRAPFRAME then ret (-1) s
       else Inr (Returns addr, upd_proc p (\<lambda>q. q\<lparr>p_sz := p_sz q + of_int n\<rparr>) s)))"

text \<open>\<^verbatim>\<open>sys_pause\<close> waits until \<open>n\<close> ticks have passed since \<open>ticks0\<close>; one round of its loop.\<close>

definition pause_loop :: "nat \<Rightarrow> u32 \<Rightarrow> int \<Rightarrow> 'a fsst_scheme \<Rightarrow> (u64 outcome \<times> 'a fsst_scheme) res" where
  "pause_loop p ticks0 n s =
     (if uint (ticks s - ticks0) < n
      then if killed p s then ret (-1) s else Inr (Blocks TicksChan, sleep_on p TicksChan s)
      else ret 0 s)"

definition sys_pause :: "nat \<Rightarrow> 'a fsst_scheme \<Rightarrow> (u64 outcome \<times> 'a fsst_scheme) res" where
  "sys_pause p s = andthen (argint p 0 s) (\<lambda>n. pause_loop p (ticks s) (if n < 0 then 0 else n) s)"

definition sys_kill :: "nat \<Rightarrow> 'a fsst_scheme \<Rightarrow> (u64 outcome \<times> 'a fsst_scheme) res" where
  "sys_kill p s = andthen (argint p 0 s) (\<lambda>pid. case kkill pid s of (v, s1) \<Rightarrow> ret v s1)"

definition sys_uptime :: "nat \<Rightarrow> 'a fsst_scheme \<Rightarrow> (u64 outcome \<times> 'a fsst_scheme) res" where
  "sys_uptime p s = Inr (Returns (ucast (ticks s)), s)"

definition sys_hello :: "nat \<Rightarrow> 'a fsst_scheme \<Rightarrow> (u64 outcome \<times> 'a fsst_scheme) res" where
  "sys_hello p s = ret 0 (kprintf (str ''Hello from the kernel!'' @ [10]) [] s)"

definition sys_getpid2 :: "nat \<Rightarrow> 'a fsst_scheme \<Rightarrow> (u64 outcome \<times> 'a fsst_scheme) res" where
  "sys_getpid2 p s = ret (p_pid (procs s ! p)) s"

definition sys_getppid :: "nat \<Rightarrow> 'a fsst_scheme \<Rightarrow> (u64 outcome \<times> 'a fsst_scheme) res" where
  "sys_getppid p s =
     (case p_parent (procs s ! p) of Some pp \<Rightarrow> ret (p_pid (procs s ! pp)) s | None \<Rightarrow> ret (-1) s)"

definition sys_getnumchild :: "nat \<Rightarrow> 'a fsst_scheme \<Rightarrow> (u64 outcome \<times> 'a fsst_scheme) res" where
  "sys_getnumchild p s =
     ret (int (count_if (\<lambda>q. p_parent q = Some p \<and> p_state q \<noteq> ZOMBIE \<and> p_state q \<noteq> UNUSED) (procs s))) s"

definition sys_getsyscount :: "nat \<Rightarrow> 'a fsst_scheme \<Rightarrow> (u64 outcome \<times> 'a fsst_scheme) res" where
  "sys_getsyscount p s = ret (p_syscount (procs s ! p)) s"

definition sys_getchildsyscount :: "nat \<Rightarrow> 'a fsst_scheme \<Rightarrow> (u64 outcome \<times> 'a fsst_scheme) res" where
  "sys_getchildsyscount p s =
     andthen (argint p 0 s) (\<lambda>pid.
       case first_idx (\<lambda>q. p_parent q = Some p \<and> p_pid q = pid) (procs s) of
         Some i \<Rightarrow> ret (p_syscount (procs s ! i)) s
       | None \<Rightarrow> ret (-1) s)"

definition sys_getlevel :: "nat \<Rightarrow> 'a fsst_scheme \<Rightarrow> (u64 outcome \<times> 'a fsst_scheme) res" where
  "sys_getlevel p s = ret (p_mlfq_level (procs s ! p)) s"

text \<open>Both information calls copy a structure of \<^verbatim>\<open>int\<close>s to the user.\<close>

definition copy_info :: "nat \<Rightarrow> u64 \<Rightarrow> int list \<Rightarrow> 'a fsst_scheme \<Rightarrow> (u64 outcome \<times> 'a fsst_scheme) res" where
  "copy_info p addr vs s =
     andthen (copyout (p_pagetable (procs s ! p)) addr (concat (map int_bytes vs)) s) (\<lambda>(r, s1).
       if r < 0 then ret (-1) s1 else ret 0 s1)"

definition mlfqinfo :: "proc \<Rightarrow> int list" where
  "mlfqinfo q = [p_mlfq_level q] @ map (\<lambda>i. p_ticks_per_level q ! i) [0..<4] @ [p_times_scheduled q, p_syscount q]"

definition vmstats :: "proc \<Rightarrow> int list" where
  "vmstats q = [p_page_faults q, p_pages_evicted q, p_pages_swapped_in q, p_pages_swapped_out q, p_resident_pages q]"

definition sys_getmlfqinfo :: "nat \<Rightarrow> 'a fsst_scheme \<Rightarrow> (u64 outcome \<times> 'a fsst_scheme) res" where
  "sys_getmlfqinfo p s =
     andthen (argint p 0 s) (\<lambda>pid.
     andthen (argaddr p 1 s) (\<lambda>addr.
       case first_idx (\<lambda>q. p_pid q = pid) (procs s) of
         None \<Rightarrow> ret (-1) s
       | Some i \<Rightarrow> copy_info p addr (mlfqinfo (procs s ! i)) s))"

definition sys_getvmstats :: "nat \<Rightarrow> 'a fsst_scheme \<Rightarrow> (u64 outcome \<times> 'a fsst_scheme) res" where
  "sys_getvmstats p s =
     andthen (argint p 0 s) (\<lambda>pid.
     andthen (argaddr p 1 s) (\<lambda>addr.
       case first_idx (\<lambda>q. p_pid q = pid) (procs s) of
         None \<Rightarrow> ret (-1) s
       | Some i \<Rightarrow> copy_info p addr (vmstats (procs s ! i)) s))"

section \<open>Dispatch\<close>

text \<open>A system call ends in a value, in waiting, or, for \<^verbatim>\<open>exit\<close>, in the end of the process.\<close>

datatype sysret = SysRet u64 | SysWait chan | SysExited

definition sys_ret :: "u64 outcome \<times> 'a fsst_scheme \<Rightarrow> (sysret \<times> 'a fsst_scheme) res" where
  "sys_ret r = (case r of (Returns v, s) \<Rightarrow> Inr (SysRet v, s) | (Blocks ch, s) \<Rightarrow> Inr (SysWait ch, s))"

definition sys_exit :: "nat \<Rightarrow> 'a fsst_scheme \<Rightarrow> (sysret \<times> 'a fsst_scheme) res" where
  "sys_exit p s = andthen (argint p 0 s) (\<lambda>n. andthen (kexit n s) (\<lambda>s1. Inr (SysExited, s1)))"

text \<open>The table \<^verbatim>\<open>syscalls\<close>, indexed from 1; number 2 is \<^verbatim>\<open>exit\<close>.\<close>

definition syscalls :: "(nat \<Rightarrow> 'a fsst_scheme \<Rightarrow> (u64 outcome \<times> 'a fsst_scheme) res) list" where
  "syscalls = [sys_fork, \<lambda>p s. ret 0 s, sys_wait, sys_pipe, sys_read, sys_kill, sys_exec, sys_fstat, sys_chdir, sys_dup,
     sys_getpid, sys_sbrk, sys_pause, sys_uptime, sys_open, sys_write, sys_mknod, sys_unlink, sys_link, sys_mkdir,
     sys_close, sys_hello, sys_getpid2, sys_getppid, sys_getnumchild, sys_getsyscount, sys_getchildsyscount,
     sys_getlevel, sys_getmlfqinfo, sys_getvmstats]"

definition run_syscall :: "nat \<Rightarrow> nat \<Rightarrow> 'a fsst_scheme \<Rightarrow> (sysret \<times> 'a fsst_scheme) res" where
  "run_syscall k p s = (if k = 2 then sys_exit p s else andthen ((syscalls ! (k - 1)) p s) sys_ret)"

definition syscall :: "'a fsst_scheme \<Rightarrow> (sysret \<times> 'a fsst_scheme) res" where
  "syscall s =
     with_proc (\<lambda>p s.
       let k = sint (ucast (get_tf p tf_a7 s) :: u32) in
       if k > 0 \<and> k < 31 then
         andthen (run_syscall (nat k) p (upd_proc p (\<lambda>q. q\<lparr>p_syscount := p_syscount q + 1\<rparr>) s)) (\<lambda>(r, s1).
           case r of
             SysRet v \<Rightarrow> Inr (SysRet v, set_tf p tf_a0 v s1)
           | _ \<Rightarrow> Inr (r, s1))
       else
         let s1 = kprintf (str ''%d %s: unknown sys call %d'' @ [10])
                    [AInt (of_int (p_pid (procs s ! p))), AStr (Some (c_string (p_name (procs s ! p)))), AInt (of_int k)] s
         in Inr (SysRet (-1), set_tf p tf_a0 (-1) s1)) s"

end
