(* ===== verification/Xv6_Virtio.thy ===== *)
theory Xv6_Virtio
  imports Xv6_Sysproc
begin

text \<open>
  The driver of the virtio disk, \<^verbatim>\<open>kernel/virtio_disk.c\<close>: descriptors, the ring of requests for
  the device and the ring of completions from it. The device is not part of the kernel: what it does
  is the step \<open>device_step\<close>, after Section 5.2 of the virtio specification, for the three-descriptor
  requests the driver makes. The registers that only announce things to the device have no
  counterpart, and the negotiation of \<^verbatim>\<open>virtio_disk_init\<close> with them is left out.
\<close>

section \<open>State\<close>

definition NUM :: nat where "NUM = 8"

text \<open>What a descriptor points to: a command header, the data of a buffer, or a status byte.\<close>

datatype daddr = DNone | DReq nat | DData nat | DStatus nat

record vdesc =
  vd_addr :: daddr
  vd_len :: u32
  vd_flags :: u16
  vd_next :: u16

record vreq =
  vr_type :: u32
  vr_sector :: u64

record vinfo =
  vi_b :: "nat option"
  vi_status :: u8

text \<open>\<open>b_disk\<close> is the field \<^verbatim>\<open>disk\<close> of each buffer: whether the device owns it.\<close>

record vdisk = fsst +
  v_desc :: "vdesc list"
  v_avail :: "u16 list"
  v_avail_idx :: u16
  v_used :: "u32 list"
  v_used_ring_idx :: u16
  v_free :: "bool list"
  v_used_idx :: u16
  v_info :: "vinfo list"
  v_ops :: "vreq list"
  b_disk :: "bool list"

definition VRING_DESC_F_NEXT :: u16 where "VRING_DESC_F_NEXT = 1"
definition VRING_DESC_F_WRITE :: u16 where "VRING_DESC_F_WRITE = 2"
definition VIRTIO_BLK_T_IN :: u32 where "VIRTIO_BLK_T_IN = 0"
definition VIRTIO_BLK_T_OUT :: u32 where "VIRTIO_BLK_T_OUT = 1"

definition no_desc :: vdesc where
  "no_desc = \<lparr>vd_addr = DNone, vd_len = 0, vd_flags = 0, vd_next = 0\<rparr>"

text \<open>
  \<^verbatim>\<open>virtio_disk_init\<close> after the negotiation: three pages for the descriptors and the two rings,
  which are kept as fields of the state instead of as bytes of those pages.
\<close>

definition virtio_disk_init :: "'a vdisk_scheme \<Rightarrow> 'a vdisk_scheme res" where
  "virtio_disk_init s =
     (case kalloc s of (d, s1) \<Rightarrow>
      case kalloc s1 of (a, s2) \<Rightarrow>
      case kalloc s2 of (u, s3) \<Rightarrow>
        if d = 0 \<or> a = 0 \<or> u = 0 then Inl (Panic ''virtio disk kalloc'')
        else Inr (s3\<lparr>v_desc := replicate NUM no_desc, v_avail := replicate NUM 0, v_avail_idx := 0, v_used := replicate NUM 0,
                    v_used_ring_idx := 0, v_free := replicate NUM True\<rparr>))"

section \<open>Descriptors\<close>

text \<open>
  A process that waits for descriptors sleeps on \<^verbatim>\<open>&disk.free[0]\<close>, written \<open>DiskChan NBUF\<close>; one that
  waits for its request sleeps on its buffer, \<open>DiskChan b\<close>.
\<close>

definition alloc_desc :: "'a vdisk_scheme \<Rightarrow> nat option \<times> 'a vdisk_scheme" where
  "alloc_desc s =
     (case first_idx (\<lambda>b. b) (v_free s) of
        Some i \<Rightarrow> (Some i, s\<lparr>v_free := (v_free s)[i := False]\<rparr>)
      | None \<Rightarrow> (None, s))"

definition free_desc :: "nat \<Rightarrow> 'a vdisk_scheme \<Rightarrow> 'a vdisk_scheme res" where
  "free_desc i s =
     (if i \<ge> NUM then Inl (Panic ''free_desc 1'')
      else if v_free s ! i then Inl (Panic ''free_desc 2'')
      else Inr (wakeup (Some (DiskChan NBUF)) (s\<lparr>v_desc := (v_desc s)[i := no_desc], v_free := (v_free s)[i := True]\<rparr>)))"

text \<open>A chain has at most \<^const>\<open>NUM\<close> descriptors, since each is freed once: the bound is never used up.\<close>

fun free_chain :: "nat \<Rightarrow> nat \<Rightarrow> 'a vdisk_scheme \<Rightarrow> 'a vdisk_scheme res" where
  "free_chain 0 i s = Inl OutOfFuel"
| "free_chain (Suc k) i s =
     (let flag = vd_flags (v_desc s ! i); nx = vd_next (v_desc s ! i) in
      andthen (free_desc i s) (\<lambda>s1.
        if flag AND VRING_DESC_F_NEXT \<noteq> 0 then free_chain k (unat nx) s1 else Inr s1))"

fun alloc_descs :: "nat \<Rightarrow> nat list \<Rightarrow> 'a vdisk_scheme \<Rightarrow> (nat list option \<times> 'a vdisk_scheme) res" where
  "alloc_descs 0 idx s = Inr (Some idx, s)"
| "alloc_descs (Suc k) idx s =
     (case alloc_desc s of
        (Some i, s1) \<Rightarrow> alloc_descs k (idx @ [i]) s1
      | (None, s1) \<Rightarrow> andthen (for_each free_desc idx s1) (\<lambda>s2. Inr (None, s2)))"

definition alloc3_desc :: "'a vdisk_scheme \<Rightarrow> (nat list option \<times> 'a vdisk_scheme) res" where
  "alloc3_desc s = alloc_descs 3 [] s"

section \<open>Requests\<close>

definition put_desc :: "nat \<Rightarrow> vdesc \<Rightarrow> 'a vdisk_scheme \<Rightarrow> 'a vdisk_scheme" where
  "put_desc i d s = s\<lparr>v_desc := (v_desc s)[i := d]\<rparr>"

text \<open>
  \<^verbatim>\<open>virtio_disk_rw\<close> up to the point where it waits for the device: it has handed the request to
  the device, or has to wait for descriptors.
\<close>

definition format_descs :: "nat \<Rightarrow> bool \<Rightarrow> nat \<Rightarrow> nat \<Rightarrow> nat \<Rightarrow> 'a vdisk_scheme \<Rightarrow> 'a vdisk_scheme" where
  "format_descs b wr i0 i1 i2 s =
     (let sector = ucast (b_blockno (bufs s ! b) * 2) :: u64;
          s1 = s\<lparr>v_ops := (v_ops s)[i0 := \<lparr>vr_type = (if wr then VIRTIO_BLK_T_OUT else VIRTIO_BLK_T_IN), vr_sector = sector\<rparr>]\<rparr>;
          s2 = put_desc i0 \<lparr>vd_addr = DReq i0, vd_len = 16, vd_flags = VRING_DESC_F_NEXT, vd_next = of_nat i1\<rparr> s1;
          s3 = put_desc i1 \<lparr>vd_addr = DData b, vd_len = of_nat BSIZE,
                            vd_flags = (if wr then 0 else VRING_DESC_F_WRITE) OR VRING_DESC_F_NEXT, vd_next = of_nat i2\<rparr> s2;
          s4 = s3\<lparr>v_info := (v_info s3)[i0 := (v_info s3 ! i0)\<lparr>vi_status := 0xff\<rparr>]\<rparr>
      in put_desc i2 \<lparr>vd_addr = DStatus i0, vd_len = 1, vd_flags = VRING_DESC_F_WRITE, vd_next = 0\<rparr> s4)"

definition rw_submit :: "nat \<Rightarrow> bool \<Rightarrow> 'a vdisk_scheme \<Rightarrow> (nat outcome \<times> 'a vdisk_scheme) res" where
  "rw_submit b wr s =
     andthen (alloc3_desc s) (\<lambda>(r, s1).
       case r of
         Some [i0, i1, i2] \<Rightarrow>
           let s2 = format_descs b wr i0 i1 i2 s1;
               s3 = s2\<lparr>b_disk := (b_disk s2)[b := True], v_info := (v_info s2)[i0 := (v_info s2 ! i0)\<lparr>vi_b := Some b\<rparr>]\<rparr>;
               s4 = s3\<lparr>v_avail := (v_avail s3)[unat (v_avail_idx s3) mod NUM := of_nat i0], v_avail_idx := v_avail_idx s3 + 1\<rparr>
           in Inr (Returns i0, s4)
       | _ \<Rightarrow>
           (case curproc s1 of
              None \<Rightarrow> Inl (Panic ''kerneltrap'')
            | Some p \<Rightarrow> Inr (Blocks (DiskChan NBUF), sleep_on p (DiskChan NBUF) s1)))"

text \<open>The rest of it: one round of the wait for the device, and the release of the descriptors.\<close>

definition rw_finish :: "nat \<Rightarrow> nat \<Rightarrow> 'a vdisk_scheme \<Rightarrow> (unit outcome \<times> 'a vdisk_scheme) res" where
  "rw_finish b i0 s =
     (if b_disk s ! b
      then case curproc s of
             None \<Rightarrow> Inl (Panic ''kerneltrap'')
           | Some p \<Rightarrow> Inr (Blocks (DiskChan b), sleep_on p (DiskChan b) s)
      else andthen (free_chain NUM i0 (s\<lparr>v_info := (v_info s)[i0 := (v_info s ! i0)\<lparr>vi_b := None\<rparr>]\<rparr>))
             (\<lambda>s1. Inr (Returns (), s1)))"

text \<open>The loop of \<^verbatim>\<open>virtio_disk_intr\<close>; at most \<^const>\<open>NUM\<close> requests are ever in flight.\<close>

fun intr_loop :: "nat \<Rightarrow> 'a vdisk_scheme \<Rightarrow> 'a vdisk_scheme res" where
  "intr_loop 0 s = (if v_used_idx s \<noteq> v_used_ring_idx s then Inl OutOfFuel else Inr s)"
| "intr_loop (Suc k) s =
     (if v_used_idx s \<noteq> v_used_ring_idx s then
        let id = unat (v_used s ! (unat (v_used_idx s) mod NUM)) in
        if vi_status (v_info s ! id) \<noteq> 0 then Inl (Panic ''virtio_disk_intr status'')
        else case vi_b (v_info s ! id) of
               None \<Rightarrow> Inl (Panic ''kerneltrap'')
             | Some b \<Rightarrow>
                 intr_loop k ((wakeup (Some (DiskChan b)) (s\<lparr>b_disk := (b_disk s)[b := False]\<rparr>))\<lparr>v_used_idx := v_used_idx s + 1\<rparr>)
      else Inr s)"

definition virtio_disk_intr :: "'a vdisk_scheme \<Rightarrow> 'a vdisk_scheme res" where
  "virtio_disk_intr s = intr_loop NUM s"

end
