(* ===== verification/Xv6_Trap.thy ===== *)
theory Xv6_Trap
  imports Xv6_Virtio
begin

text \<open>
  Traps, \<^verbatim>\<open>kernel/trap.c\<close>: the handlers of traps from user space and from the kernel, the
  dispatch of device interrupts, and the return to user space; and \<^verbatim>\<open>forkret\<close> of
  \<^verbatim>\<open>kernel/proc.c\<close>, where a new process begins. The control and status registers of the hart
  are a record; the code addresses that end up in registers and trap frames come from the linker.
\<close>

record csrs =
  sstatus :: u64
  sepc :: u64
  scause :: u64
  stval :: u64
  stvec :: u64
  satp :: u64
  tp :: u64
  sie :: bool

record ktext =
  kernelvec_pc :: u64
  usertrap_pc :: u64
  uservec_off :: u64

definition SSTATUS_SPP :: u64 where "SSTATUS_SPP = 0x100"
definition SSTATUS_SPIE :: u64 where "SSTATUS_SPIE = 0x20"
definition UART0_IRQ :: nat where "UART0_IRQ = 10"
definition VIRTIO0_IRQ :: nat where "VIRTIO0_IRQ = 1"

section \<open>Return to user space\<close>

definition prepare_return :: "ktext \<Rightarrow> nat \<Rightarrow> csrs \<Rightarrow> 'a fsst_scheme \<Rightarrow> csrs \<times> 'a fsst_scheme" where
  "prepare_return kt p c s =
     (let c1 = c\<lparr>sie := False, stvec := TRAMPOLINE + uservec_off kt\<rparr>;
          s1 = set_tf p 0 (satp c1) s;
          s2 = set_tf p 8 (p_kstack (procs s1 ! p) + PGSIZE) s1;
          s3 = set_tf p 16 (usertrap_pc kt) s2;
          s4 = set_tf p 32 (tp c1) s3;
          c2 = c1\<lparr>sstatus := (sstatus c1 AND NOT SSTATUS_SPP) OR SSTATUS_SPIE\<rparr>
      in (c2\<lparr>sepc := get_tf p tf_epc s4\<rparr>, s4))"

section \<open>Interrupts\<close>

text \<open>
  \<open>irq\<close> is what \<^verbatim>\<open>plic_claim\<close> reads and \<open>tx_idle\<close> what the serial port's status register says.
  The result is 2 for a timer interrupt, 1 for another device, 0 if not recognised.
\<close>

definition devintr :: "nat \<Rightarrow> bool \<Rightarrow> csrs \<Rightarrow> 'a vdisk_scheme \<Rightarrow> (nat \<times> 'a vdisk_scheme) res" where
  "devintr irq tx_idle c s =
     (if scause c = 0x8000000000000009 then
        andthen (if irq = UART0_IRQ then Inr (uartintr tx_idle s)
                 else if irq = VIRTIO0_IRQ then virtio_disk_intr s
                 else if irq \<noteq> 0 then Inr (kprintf (str ''unexpected interrupt irq=%d'' @ [10]) [AInt (of_nat irq)] s)
                 else Inr s) (\<lambda>s1. Inr (1, s1))
      else if scause c = 0x8000000000000005 then Inr (2, clockintr s)
      else Inr (0, s))"

section \<open>Traps from user space\<close>

text \<open>
  How the handling of a trap ends: back in user space with the given page table, in the scheduler
  after \<^verbatim>\<open>yield\<close>, waiting, or with the end of the process.
\<close>

datatype trapend = ToUserSpace u64 | Yielded bool | Waiting chan | Exited

definition return_to_user :: "ktext \<Rightarrow> nat \<Rightarrow> csrs \<Rightarrow> 'a fsst_scheme \<Rightarrow> (trapend \<times> csrs \<times> 'a fsst_scheme) res" where
  "return_to_user kt p c s =
     (case prepare_return kt p c s of (c1, s1) \<Rightarrow> Inr (ToUserSpace (MAKE_SATP (p_pagetable (procs s1 ! p))), c1, s1))"

text \<open>From \<^verbatim>\<open>if(killed(p))\<close> on, after the trap has been dealt with.\<close>

definition usertrap_end :: "ktext \<Rightarrow> nat \<Rightarrow> nat \<Rightarrow> csrs \<Rightarrow> 'a fsst_scheme \<Rightarrow> (trapend \<times> csrs \<times> 'a fsst_scheme) res" where
  "usertrap_end kt p which_dev c s =
     (if killed p s then andthen (kexit (-1) s) (\<lambda>s1. Inr (Exited, c, s1))
      else if which_dev = 2 then
        case mlfq_tick (procs s ! p) of (q, yields) \<Rightarrow>
          let s1 = upd_proc p (\<lambda>_. q) s in
          if yields then andthen (yield p s1) (\<lambda>(intena, s2). Inr (Yielded intena, c, s2))
          else return_to_user kt p c s1
      else return_to_user kt p c s)"

definition usertrap :: "ktext \<Rightarrow> nat \<Rightarrow> bool \<Rightarrow> csrs \<Rightarrow> 'a vdisk_scheme \<Rightarrow> (trapend \<times> csrs \<times> 'a vdisk_scheme) res" where
  "usertrap kt irq tx_idle c s =
     (if sstatus c AND SSTATUS_SPP \<noteq> 0 then Inl (Panic ''usertrap: not from user mode'')
      else with_proc (\<lambda>p s.
        let c1 = c\<lparr>stvec := kernelvec_pc kt\<rparr>;
            s1 = set_tf p tf_epc (sepc c1) s in
        if scause c1 = 8 then
          if killed p s1 then andthen (kexit (-1) s1) (\<lambda>s2. Inr (Exited, c1, s2))
          else
            let s2 = set_tf p tf_epc (get_tf p tf_epc s1 + 4) s1;
                c2 = c1\<lparr>sie := True\<rparr> in
            andthen (syscall s2) (\<lambda>(r, s3).
              case r of
                SysRet v \<Rightarrow> usertrap_end kt p 0 c2 s3
              | SysWait ch \<Rightarrow> Inr (Waiting ch, c2, s3)
              | SysExited \<Rightarrow> Inr (Exited, c2, s3))
        else andthen (devintr irq tx_idle c1 s1) (\<lambda>(which_dev, s2).
          if which_dev \<noteq> 0 then usertrap_end kt p which_dev c1 s2
          else if scause c1 = 13 \<or> scause c1 = 15 then
            andthen (vmfault (p_pagetable (procs s2 ! p)) (stval c1) s2) (\<lambda>(r, s3).
              usertrap_end kt p 0 c1 (if r = 0 then setkilled p s3 else s3))
          else
            let s3 = kprintf (str ''usertrap(): unexpected scause 0x%lx pid=%d'' @ [10])
                       [AInt (scause c1), AInt (of_int (p_pid (procs s2 ! p)))] s2;
                s4 = kprintf (str ''            sepc=0x%lx stval=0x%lx'' @ [10]) [AInt (sepc c1), AInt (stval c1)] s3
            in usertrap_end kt p 0 c1 (setkilled p s4))) s)"

section \<open>Traps from the kernel\<close>

text \<open>
  \<^verbatim>\<open>kerneltrap\<close> restores \<^verbatim>\<open>sepc\<close> and \<^verbatim>\<open>sstatus\<close> at its end, also after a
  \<^verbatim>\<open>yield\<close>; the result says whether it yielded.
\<close>

definition kerneltrap :: "nat \<Rightarrow> bool \<Rightarrow> csrs \<Rightarrow> 'a vdisk_scheme \<Rightarrow> (bool option \<times> csrs \<times> 'a vdisk_scheme) res" where
  "kerneltrap irq tx_idle c s =
     (if sstatus c AND SSTATUS_SPP = 0 then Inl (Panic ''kerneltrap: not from supervisor mode'')
      else if sie c then Inl (Panic ''kerneltrap: interrupts enabled'')
      else andthen (devintr irq tx_idle c s) (\<lambda>(which_dev, s1).
        if which_dev = 0 then Inl (Panic ''kerneltrap'')
        else case curproc s1 of
               Some p \<Rightarrow>
                 if which_dev = 2 then andthen (yield p s1) (\<lambda>(intena, s2). Inr (Some intena, c, s2))
                 else Inr (None, c, s1)
             | None \<Rightarrow> Inr (None, c, s1)))"

section \<open>A new process\<close>

text \<open>\<open>first\<close> is the static variable of \<^verbatim>\<open>forkret\<close>, which is cleared by the first process.\<close>

definition forkret :: "ktext \<Rightarrow> bool \<Rightarrow> csrs \<Rightarrow> 'a fsst_scheme \<Rightarrow> (bool \<times> trapend \<times> csrs \<times> 'a fsst_scheme) res" where
  "forkret kt first c s =
     with_proc (\<lambda>p s.
       andthen (with_lk (release 0 p) s) (\<lambda>s1.
       andthen (if first then
                  andthen (fsinit ROOTDEV s1) (\<lambda>s2.
                  andthen (kexec (str ''/init'') [str ''/init''] s2) (\<lambda>(r, s3).
                    let s4 = set_tf p tf_a0 (of_int r) s3 in
                    if get_tf p tf_a0 s4 = -1 then Inl (Panic ''exec'') else Inr s4))
                else Inr s1) (\<lambda>s2.
       andthen (return_to_user kt p c s2) (\<lambda>r. Inr (False, r))))) s"

end
