(* ===== verification/Xv6_Crash.thy ===== *)
theory Xv6_Crash
  imports Xv6_Trans
begin

text \<open>
  The write-ahead log (\<^verbatim>\<open>kernel/log.c\<close>) across crashes. A crash keeps the prefix of the disk
  writes that were already made and loses the buffer cache; the restart then runs \<^verbatim>\<open>binit\<close> and
  \<^verbatim>\<open>initlog\<close>. The theory composes the specifications of commit and of recovery.
\<close>

text \<open>A restart: the disk is what it was, the cache is empty.\<close>

definition reboot :: "(u32 \<Rightarrow> u8 list) \<Rightarrow> 'a fsst_scheme \<Rightarrow> 'a fsst_scheme" where
  "reboot d s = binit (s\<lparr>disk := d, bufs := replicate NBUF empty_buf\<rparr>)"

lemma written_all: "(\<And>n. Q (d n)) \<Longrightarrow> (\<And>w. w \<in> set ws \<Longrightarrow> Q (snd w)) \<Longrightarrow> Q (written d ws n)"
  by (induction ws arbitrary: d) auto

lemma recover_reboot:
  assumes cur: "cur_ok s pid" and d: "\<And>n. length (d n) = BSIZE" and h: "header_is (d st) bs" and sb: "sb_logstart (sb s) = st"
    and bs: "length bs \<le> LOGBLOCKS" "distinct bs" "\<forall>b \<in> set bs. b \<notin> log_region st" and st: "unat st + LOGBLOCKS < 2 ^ 32"
  shows "\<exists>r. initlog ROOTDEV (reboot d s) = Inr r \<and>
    (\<forall>n. n \<notin> log_region st \<longrightarrow> disk r n = written d (home_copies st bs d (length bs)) n)"
proof -
  let ?s0 = "s\<lparr>disk := d, bufs := replicate NBUF empty_buf\<rparr>"
  have b0: "bufs ?s0 = replicate NBUF empty_buf" by simp
  have c0: "cur_ok ?s0 pid" using cur by (auto simp: cur_ok_def split: option.splits)
  have l0: "length (disk ?s0 n) = BSIZE" for n by (simp add: d)
  have fr: "bio_frame ?s0 (reboot d s)" "disk (reboot d s) = d"
    unfolding reboot_def using binit_nolinks(2,4)[OF b0] by simp_all
  have sbr: "sb (reboot d s) = sb s" using bio_frame_fields(2)[OF fr(1)] by simp
  let ?z = "upd_lg (\<lambda>l. l\<lparr>l_start := sb_logstart (sb (reboot d s)), l_dev := ROOTDEV\<rparr>) (reboot d s)"
  have "bc_inv (reboot d s) {} {} pid" unfolding reboot_def by (rule binit_inv(1)[OF b0 c0 l0])
  then have iz: "bc_inv ?z {} {} pid" by simp
  obtain r where r: "recover_from_log ?z = Inr r"
    "\<And>n. n \<noteq> l_start (lg ?z) \<Longrightarrow> disk r n = written (disk ?z) (home_copies (l_start (lg ?z)) bs (disk ?z) (length bs)) n"
    by (rule recover_spec[OF iz, of bs]) (use h bs st sb sbr fr(2) in auto)
  have "initlog ROOTDEV (reboot d s) = Inr r"
    using r(1) by (simp add: initlog_def LOGBLOCKS_def MAXOPBLOCKS_def BSIZE_def)
  moreover have "disk r n = written d (home_copies st bs d (length bs)) n" if "n \<notin> log_region st" for n
  proof -
    have "n \<noteq> st" using that by (auto simp: log_region_def)
    then show ?thesis using r(2)[of n] sb sbr fr(2) by simp
  qed
  ultimately show ?thesis by blast
qed

text \<open>The two disks between which a commit with \<open>bs\<close> the logged blocks moves.\<close>

lemma crash_before:
  assumes "unat st + LOGBLOCKS < 2 ^ 32" "n \<le> LOGBLOCKS" "m \<notin> log_region st"
  shows "written d (take k (log_copies st bs b n)) m = d m"
  using logblk_region(1)[OF assms(1)] assms(2,3)
  by (intro written_other) (fastforce simp: log_copies_def dest: in_set_takeD)

lemma written_homes:
  assumes "distinct bs"
  shows "written d (map (\<lambda>b. (b, f b)) bs) n = (if n \<in> set bs then f n else d n)"
  using written_map[of "\<lambda>b. b" bs n d f] written_other[of n "map (\<lambda>b. (b, f b)) bs" d] assms by (auto simp: image_iff)

lemma crash_after:
  assumes inv: "bc_inv s (set bs) {} pid" and ok: "log_ok (lg s) bs" and hs: "header_is h1 bs" "header_is h0 []"
    and d: "d = written (disk s) (log_copies (l_start (lg s)) bs (blk s) (length bs) @ [(l_start (lg s), h1)] @ take j (map (\<lambda>b. (b, blk s b)) bs))
      \<or> d = written (disk s) (log_copies (l_start (lg s)) bs (blk s) (length bs) @ [(l_start (lg s), h1)] @ map (\<lambda>b. (b, blk s b)) bs @ [(l_start (lg s), h0)])"
  shows "\<exists>cs. set cs \<subseteq> set bs \<and> distinct cs \<and> length cs \<le> LOGBLOCKS \<and> header_is (d (l_start (lg s))) cs \<and>
    (\<forall>n. n \<notin> log_region (l_start (lg s)) \<longrightarrow> written d (home_copies (l_start (lg s)) cs d (length cs)) n = blk s n)"
proof -
  let ?st = "l_start (lg s)" and ?LC = "log_copies (l_start (lg s)) bs (blk s) (length bs)" and ?B = "map (\<lambda>b. (b, blk s b)) bs"
  note l = log_okD[OF ok]
  have st: "?st \<notin> set bs" "?st \<in> log_region ?st" using l(7)[of ?st] by (auto simp: log_region_def)
  have clean: "disk s n = blk s n" if "n \<notin> set bs" for n using blk_clean[OF inv that] by simp
  let ?d1 = "(written (disk s) ?LC)(?st := h1)"
  have out: "?d1 n = disk s n" if "n \<notin> log_region ?st" for n
    using log_copies_other[OF l(3,8) that] that st(2) by auto
  from d show ?thesis
  proof
    assume d: "d = written (disk s) (?LC @ [(?st, h1)] @ take j ?B)"
    have sub: "n \<notin> set bs \<Longrightarrow> n \<notin> fst ` set (take j ?B)" for n by (auto dest: in_set_takeD)
    have dn: "d n = ?d1 n" if "n \<notin> set bs" for n unfolding d using written_other[OF sub[OF that]] by simp
    have "d (logblk ?st t) = blk s (bs ! t)" if t: "t < length bs" for t
    proof -
      have "logblk ?st t \<notin> set bs" "logblk ?st t \<noteq> ?st" using logblk_region(1,3)[OF l(8), of t] l(3,7) t by auto
      moreover have "distinct (map (logblk ?st) [0..<length bs])"
        using logblk_region(4)[OF l(8)] l(3) by (auto simp: distinct_map inj_on_def)
      then have "written (disk s) ?LC (logblk ?st t) = blk s (bs ! t)"
        unfolding log_copies_def using t by (intro written_map) auto
      ultimately show ?thesis using dn by simp
    qed
    then have "home_copies ?st bs d (length bs) = ?B" by (intro nth_equalityI) (simp_all add: home_copies_def)
    moreover have "header_is (d ?st) bs" using hs(1) dn[OF st(1)] by simp
    ultimately show ?thesis
      using l(3,6) clean dn out by (intro exI[of _ bs]) (simp add: written_homes)
  next
    assume d: "d = written (disk s) (?LC @ [(?st, h1)] @ ?B @ [(?st, h0)])"
    have "d n = blk s n" if n: "n \<notin> log_region ?st" for n
    proof -
      have "n \<noteq> ?st" using n st(2) by auto
      then show ?thesis using clean[of n] out[OF n] l(6) unfolding d by (simp add: written_homes)
    qed
    moreover have "header_is (d ?st) []" using hs(2) unfolding d by simp
    ultimately show ?thesis by (intro exI[of _ "[]"]) (simp add: home_copies_def)
  qed
qed

section \<open>Space in the log\<close>

text \<open>Without any invariant: if they return, the buffer operations have kept everything else.\<close>

lemma lock_buf_frame: "lock_buf b s = Inr s' \<Longrightarrow> bio_frame s s'"
  by (cases "curproc s"; cases "slk_locked (b_lock (bufs s ! b))") (auto simp: lock_buf_def acquiresleep_def)

lemma bread_frame: "bread dev n s = Inr (b, s') \<Longrightarrow> bio_frame s s'"
proof -
  have a: "bget dev n s = Inr (b, s') \<Longrightarrow> bio_frame s s'" for s' :: "'a fsst_scheme"
    unfolding bget_def using lock_buf_frame[of b "upd_buf b f s" s' for f] bio_frame_trans[of s "upd_buf b f s" s' for f]
    by (auto simp: res_simps split: option.splits)
  assume "bread dev n s = Inr (b, s')"
  then obtain s1 where "bget dev n s = Inr (b, s1)" "bio_frame s1 s'"
    by (auto simp: bread_def res_simps virtio_disk_rw_def Let_def split: if_splits)
  then show "bio_frame s s'" using a bio_frame_trans by blast
qed

lemma bwrite_frame: "bwrite b s = Inr s' \<Longrightarrow> bio_frame s s'"
  by (auto simp: bwrite_def virtio_disk_rw_def Let_def split: if_splits)

lemma brelse_frame: "brelse b s = Inr s' \<Longrightarrow> bio_frame s s'"
  by (auto simp: brelse_def unlock_buf_def releasesleep_def Let_def bio_frame_wakeup split: if_splits)

lemma set_data_frame: "bio_frame s (set_data b d s)"
  by (simp add: set_data_def)

lemmas bio_lg = bread_frame[THEN bio_frame_fields(1)] bwrite_frame[THEN bio_frame_fields(1)] brelse_frame[THEN bio_frame_fields(1)]
  set_data_frame[THEN bio_frame_fields(1)]

lemma write_head_lg: "write_head s = Inr s' \<Longrightarrow> lg s' = lg s"
  by (auto simp: write_head_def res_simps dest!: bio_lg(1-3) simp: bio_lg(4))

lemma write_log_one_lg: "write_log_one t s = Inr s' \<Longrightarrow> lg s' = lg s"
  by (auto simp: write_log_one_def res_simps dest!: bio_lg(1-3) simp: bio_lg(4))

lemma install_one_lg: "install_one rec t s = Inr s' \<Longrightarrow> lg s' = lg s"
  using kprintf_fields(1)[THEN bio_frame_fields(1)]
  by (auto simp: install_one_def Let_def res_simps bunpin_def upd_buf_def dest!: bio_lg(1-3) simp: bio_lg(4) split: if_splits)

lemma for_each_lg: "(\<And>i s s'. f i s = Inr s' \<Longrightarrow> lg s' = lg s) \<Longrightarrow> for_each f is s = Inr s' \<Longrightarrow> lg s' = lg s"
  by (induction "is" arbitrary: s) (auto simp: andthen_Inr_iff)

lemma loops_lg:
  "for_each write_log_one is s = Inr s' \<Longrightarrow> lg s' = lg s" "for_each (install_one rec) is s = Inr s' \<Longrightarrow> lg s' = lg s"
  using for_each_lg[of write_log_one] for_each_lg[of "install_one rec"] write_log_one_lg install_one_lg by blast+

lemma commit_lg: "commit s = Inr s' \<Longrightarrow> l_n (lg s) \<ge> 0 \<Longrightarrow> lg s' = (lg s)\<lparr>l_n := 0\<rparr>"
  by (auto simp: commit_def write_log_def install_trans_def andthen_Inr_iff dest!: write_head_lg loops_lg split: if_splits)

text \<open>
  The system calls in progress and the different blocks that each has logged. Anything else the
  kernel does between leaves the log alone.
\<close>

inductive log_step :: "fsst \<times> u32 set list \<Rightarrow> fsst \<times> u32 set list \<Rightarrow> bool" where
  step_begin: "begin_op s = Inr (Returns (), s') \<Longrightarrow> log_step (s, us) (s', us @ [{}])"
| step_write: "i < length us \<Longrightarrow> card (insert (num s b) (us ! i)) \<le> MAXOPBLOCKS \<Longrightarrow> log_write b s = Inr s' \<Longrightarrow>
    log_step (s, us) (s', us[i := insert (num s b) (us ! i)])"
| step_end: "i < length us \<Longrightarrow> end_op s = Inr s' \<Longrightarrow> log_step (s, us) (s', take i us @ drop (Suc i) us)"
| step_other: "lg s' = lg s \<Longrightarrow> log_step (s, us) (s', us)"

inductive_cases log_stepE: "log_step x y"

definition log_reserved :: "logst \<Rightarrow> u32 set list \<Rightarrow> bool" where
  "log_reserved l us \<longleftrightarrow> (l_outstanding l = int (length us) \<and> \<not> l_committing l \<and> l_n l \<ge> 0 \<and> length (l_block l) = LOGBLOCKS \<and>
     nat (l_n l) + (\<Sum>U\<leftarrow>us. MAXOPBLOCKS - card U) \<le> LOGBLOCKS \<and>
     (\<forall>U \<in> set us. U \<subseteq> set (take (nat (l_n l)) (l_block l))))"

lemma log_write_lg:
  assumes "log_write b s = Inr s'" "0 \<le> l_n (lg s)" "length (l_block (lg s)) = LOGBLOCKS"
  shows "l_outstanding (lg s') = l_outstanding (lg s)" "l_committing (lg s') = l_committing (lg s)" "length (l_block (lg s')) = LOGBLOCKS"
    "l_n (lg s') = (if num s b \<in> set (take (nat (l_n (lg s))) (l_block (lg s))) then l_n (lg s) else l_n (lg s) + 1)"
    "set (take (nat (l_n (lg s'))) (l_block (lg s'))) = insert (num s b) (set (take (nat (l_n (lg s))) (l_block (lg s))))"
proof -
  let ?n = "nat (l_n (lg s))" and ?B = "l_block (lg s)"
  have n: "?n < length ?B" using assms by (auto simp: log_write_def split: if_splits)
  have lp: "lg (bpin b z) = lg z" for z :: fsst by (simp add: bpin_def upd_buf_def)
  have "l_outstanding (lg s') = l_outstanding (lg s) \<and> l_committing (lg s') = l_committing (lg s) \<and> length (l_block (lg s')) = LOGBLOCKS \<and>
    l_n (lg s') = (if num s b \<in> set (take ?n ?B) then l_n (lg s) else l_n (lg s) + 1) \<and>
    set (take (nat (l_n (lg s'))) (l_block (lg s'))) = insert (num s b) (set (take ?n ?B))"
  proof (cases "first_idx (\<lambda>w. w = num s b) (take ?n ?B)")
    case None
    then have "num s b \<notin> set (take ?n ?B)" by (auto simp: first_idx_None_iff)
    moreover have "nat (l_n (lg s) + 1) = Suc ?n" using assms(2) by simp
    ultimately show ?thesis using assms None n
      by (auto simp: log_write_def Let_def upd_lg_def bpin_def upd_buf_def take_Suc_conv_app_nth split: if_splits)
  next
    case (Some i)
    then have i: "i < ?n" "take ?n ?B ! i = num s b" using first_idx_SomeD[OF Some] n by auto
    then have "?B[i := num s b] = ?B" by (metis list_update_id nth_take)
    moreover have "num s b \<in> set (take ?n ?B)" using i n by (metis length_take min.absorb4 nth_mem)
    moreover have "i \<noteq> ?n" using i by simp
    ultimately show ?thesis using assms Some
      by (auto simp: log_write_def Let_def upd_lg_def split: if_splits)
  qed
  then show "l_outstanding (lg s') = l_outstanding (lg s)" "l_committing (lg s') = l_committing (lg s)" "length (l_block (lg s')) = LOGBLOCKS"
    "l_n (lg s') = (if num s b \<in> set (take ?n ?B) then l_n (lg s) else l_n (lg s) + 1)"
    "set (take (nat (l_n (lg s'))) (l_block (lg s'))) = insert (num s b) (set (take ?n ?B))" by blast+
qed

lemma sum_drop_one: "i < length us \<Longrightarrow> (\<Sum>U\<leftarrow>us. f U) = (\<Sum>U\<leftarrow>take i us @ drop (Suc i) us. f U) + (f (us ! i) :: nat)"
  by (subst id_take_nth_drop[of i us]) simp_all

lemma reserved_write:
  assumes r: "log_reserved (lg s) us" and i: "i < length us" and c: "card (insert (num s b) (us ! i)) \<le> MAXOPBLOCKS"
    and w: "log_write b s = Inr s'"
  shows "log_reserved (lg s') (us[i := insert (num s b) (us ! i)])"
proof -
  let ?V = "insert (num s b) (us ! i)" and ?L = "\<lambda>s. set (take (nat (l_n (lg s))) (l_block (lg s)))"
  note r' = r[unfolded log_reserved_def]
  note l = log_write_lg[OF w]
  have sub: "us ! i \<subseteq> ?L s" using r' i by auto
  have fin: "finite (us ! i)" by (rule finite_subset[OF sub]) simp
  have d: "(\<Sum>U\<leftarrow>us[i := ?V]. MAXOPBLOCKS - card U) + (MAXOPBLOCKS - card (us ! i)) = (\<Sum>U\<leftarrow>us. MAXOPBLOCKS - card U) + (MAXOPBLOCKS - card ?V)"
    using sum_drop_one[of i us "\<lambda>U. MAXOPBLOCKS - card U"] sum_drop_one[of i "us[i := ?V]" "\<lambda>U. MAXOPBLOCKS - card U"] i by simp
  have "nat (l_n (lg s')) + (\<Sum>U\<leftarrow>us[i := ?V]. MAXOPBLOCKS - card U) \<le> LOGBLOCKS"
  proof (cases "num s b \<in> us ! i")
    case True
    then have "num s b \<in> ?L s" using sub by auto
    then show ?thesis using True l(4) r' by (simp add: insert_absorb)
  next
    case False
    then have "card ?V = card (us ! i) + 1" using fin by simp
    then show ?thesis using d c r' l(4) by (auto split: if_splits)
  qed
  moreover have "U \<subseteq> ?L s'" if "U \<in> set (us[i := ?V])" for U
  proof -
    have "U = ?V \<or> U \<in> set us" using set_update_subset_insert[of us i ?V] that by blast
    then show ?thesis using sub r' l(5) by auto
  qed
  ultimately show ?thesis using r' l by (simp add: log_reserved_def)
qed

lemma reserved_step:
  assumes "log_step (s, us) (s', us')" "log_reserved (lg s) us"
  shows "log_reserved (lg s') us'"
  using assms(1)
proof (cases rule: log_step.cases)
  case step_begin
  then have "lg s' = (lg s)\<lparr>l_outstanding := l_outstanding (lg s) + 1\<rparr>"
    "l_n (lg s) + (l_outstanding (lg s) + 1) * int MAXOPBLOCKS \<le> int LOGBLOCKS"
    by (auto simp: begin_op_def upd_lg_def split: if_splits option.splits)
  moreover have "(\<Sum>U\<leftarrow>us. MAXOPBLOCKS - card U) \<le> length us * MAXOPBLOCKS"
    using sum_list_mono[of us "\<lambda>U. MAXOPBLOCKS - card U" "\<lambda>_. MAXOPBLOCKS"] by (simp add: sum_list_triv)
  ultimately show ?thesis using assms(2) step_begin
    by (auto simp: log_reserved_def algebra_simps MAXOPBLOCKS_def)
next
  case (step_write i b)
  then show ?thesis using reserved_write assms(2) by blast
next
  case (step_end i)
  have w: "lg (wakeup c z) = lg z" for c and z :: fsst by (rule bio_frame_fields(1)[OF bio_frame_wakeup])
  note r = assms(2)[unfolded log_reserved_def]
  show ?thesis
  proof (cases "length us = 1")
    case True
    with step_end r have "lg s' = (lg s)\<lparr>l_n := 0, l_outstanding := 0, l_committing := False\<rparr>" "us' = []"
      by (auto simp: end_op_def Let_def res_simps w dest!: commit_lg split: if_splits)
    then show ?thesis using r by (simp add: log_reserved_def)
  next
    case False
    with step_end r have "lg s' = (lg s)\<lparr>l_outstanding := l_outstanding (lg s) - 1\<rparr>"
      by (auto simp: end_op_def Let_def upd_lg_def w split: if_splits)
    moreover have "set us' \<subseteq> set us" using step_end by (auto dest: in_set_takeD in_set_dropD)
    ultimately show ?thesis using r step_end sum_drop_one[of i us "\<lambda>U. MAXOPBLOCKS - card U"]
      by (auto simp: log_reserved_def)
  qed
next
  case step_other
  then show ?thesis using assms(2) by simp
qed

lemma reserved_reachable:
  assumes "log_step\<^sup>*\<^sup>* (s0, []) (s, us)" "log_reserved (lg s0) []"
  shows "log_reserved (lg s) us"
  using assms by (induction "(s, us)" arbitrary: s us rule: rtranclp_induct) (auto intro: reserved_step)

section \<open>A full log\<close>

text \<open>With as many pinned blocks as buffers, every buffer holds one of them.\<close>

lemma all_buffers_pinned:
  assumes inv: "bc_inv s P {} pid" and c: "card P = NBUF" and i: "i < NBUF"
  shows "\<exists>n \<in> P. holds_blk s i n"
proof -
  define g where "g n = (SOME j. j < NBUF \<and> holds_blk s j n)" for n
  have g: "g n < NBUF \<and> holds_blk s (g n) n" if "n \<in> P" for n
    unfolding g_def using bc_invD(7)[OF inv that] by (metis (mono_tags, lifting) someI_ex)
  then have "inj_on g P" by (intro inj_onI) (metis holds_blk_def)
  then have "card (g ` P) = card {..<NBUF}" using c by (simp add: card_image)
  moreover have "g ` P \<subseteq> {..<NBUF}" using g by auto
  ultimately have "g ` P = {..<NBUF}" by (metis card_subset_eq finite_lessThan)
  then obtain n where "n \<in> P" "g n = i" using i by (metis image_iff lessThan_iff)
  then show ?thesis using g by blast
qed

lemma bread_full:
  assumes inv: "bc_inv s P {} pid" and c: "card P = NBUF" and n: "n \<notin> P"
  shows "bread ROOTDEV n s = Inl (Panic ''bget: no buffers'')"
proof -
  obtain xs where xs: "lru s xs" using bc_invD(1)[OF inv] by blast
  have mem: "set xs = {..<NBUF}" using xs by (auto simp: lru_def)
  have "\<not> (b_dev (bufs s ! i) = ROOTDEV \<and> num s i = n)" "b_refcnt (bufs s ! i) \<noteq> 0" if "i < NBUF" for i
    using all_buffers_pinned[OF inv c that] n bc_invD(6)[OF inv that] by (auto simp: holds_blk_def buf_ok_def)
  then have "find (\<lambda>b. b_dev (bufs s ! b) = ROOTDEV \<and> num s b = n) xs = None" "find (\<lambda>b. b_refcnt (bufs s ! b) = 0) (rev xs) = None"
    using mem by (auto simp: find_None_iff)
  then show ?thesis by (simp add: bread_def bget_def bget_cached_find[OF xs] bget_lru_find[OF xs] del: bget_cached.simps bget_lru.simps)
qed

section \<open>A transaction of a booted system\<close>

text \<open>One system call has begun and fills blocks with sevens.\<close>

definition tx_boot :: fsst where
  "tx_boot = upd_lg (\<lambda>l. l\<lparr>l_outstanding := 1\<rparr>) (binit fs_boot)"

definition fill_block :: "u32 \<Rightarrow> fsst \<Rightarrow> fsst res" where
  "fill_block n s =
     andthen (bread ROOTDEV n s) (\<lambda>(b, s1).
     andthen (log_write b (set_data b (replicate BSIZE 7) s1)) (\<lambda>s2. brelse b s2))"

lemma binit_fs_boot [simp]: "lg (binit fs_boot) = lg fs_boot" "sb (binit fs_boot) = sb fs_boot" "disk (binit fs_boot) = disk fs_boot"
  using binit_nolinks(2,4)[of fs_boot] bio_frame_fields(1,2)[of fs_boot "binit fs_boot"] by simp_all

lemma tx_boot_inv: "tx_inv tx_boot [] {} 3" "blk tx_boot = disk fs_boot" "l_start (lg tx_boot) = 2" "sb_logstart (sb tx_boot) = 2"
  "disk tx_boot = (\<lambda>_. replicate 1024 0)"
  using fs_boot_inv by (simp_all add: tx_inv_def tx_boot_def log_ok_def ROOTDEV_def LOGBLOCKS_def MAXOPBLOCKS_def)
    (simp add: fs_boot_def const.defs)

lemma fill_blocks:
  assumes "distinct ns" "\<forall>n \<in> set ns. n \<notin> log_region 2" "length ns \<le> NBUF"
  shows "\<exists>s. for_each fill_block ns tx_boot = Inr s \<and> tx_inv s ns {} 3 \<and> tx_frame tx_boot s \<and>
    blk s = (\<lambda>n. if n \<in> set ns then replicate 1024 7 else replicate 1024 0)"
  using assms
proof (induction ns rule: rev_induct)
  case (snoc n ns)
  then obtain s where s: "for_each fill_block ns tx_boot = Inr s" "tx_inv s ns {} 3" "tx_frame tx_boot s"
    "blk s = (\<lambda>n. if n \<in> set ns then replicate 1024 7 else replicate 1024 0)" by auto
  have st: "l_start (lg s) = 2" using tx_frame_fields(4)[OF s(3)] tx_boot_inv(3) by simp
  obtain b s1 s2 s3 where u: "bread ROOTDEV n s = Inr (b, s1)" "log_write b (set_data b (replicate BSIZE 7) s1) = Inr s2"
    "brelse b s2 = Inr s3" "tx_inv s3 (logged n ns) {} 3" "blk s3 = (blk s)(n := replicate BSIZE 7)" "tx_frame s s3"
    by (rule tx_update[OF s(2), of n "\<lambda>_. replicate BSIZE 7"]) (use snoc.prems st in auto)
  then have "fill_block n s = Inr s3" by (simp add: fill_block_def)
  then have "for_each fill_block (ns @ [n]) tx_boot = Inr s3" using s(1) by (simp add: for_each_append)
  moreover have "logged n ns = ns @ [n]" using snoc.prems by (simp add: logged_def)
  ultimately show ?case using u(4,5) s(4) tx_frame_trans[OF s(3) u(6)]
    by (intro exI[of _ s3]) (auto simp: BSIZE_def fun_eq_iff)
qed (use tx_boot_inv in simp)

section \<open>Properties\<close>

text \<open>
  C23. A transaction is atomic with respect to crashes. The commit of a transaction writes the disk in
  some order; if the machine stops after any number \<open>k\<close> of these writes and is restarted, recovery
  succeeds and outside the log the disk then has either everything from before the transaction or
  everything that the transaction wrote. When the commit returns, everything is on the disk.
\<close>

theorem commit_crash_atomic:
  assumes inv: "bc_inv s (set bs) {} pid" and ok: "log_ok (lg s) bs" and ne: "bs \<noteq> []" and room: "length bs < NBUF"
    and hd: "header_is (disk s (l_start (lg s))) []" and sb: "sb_logstart (sb s) = l_start (lg s)"
  shows "\<exists>s' ws. commit s = Inr s' \<and> dwrites s' = dwrites s @ ws \<and> disk s' = written (disk s) ws \<and>
    (\<forall>n. n \<notin> log_region (l_start (lg s)) \<longrightarrow> disk s' n = blk s n) \<and>
    (\<forall>k. \<exists>r. initlog ROOTDEV (reboot (written (disk s) (take k ws)) s) = Inr r \<and>
       ((\<forall>n. n \<notin> log_region (l_start (lg s)) \<longrightarrow> disk r n = disk s n) \<or>
        (\<forall>n. n \<notin> log_region (l_start (lg s)) \<longrightarrow> disk r n = blk s n)))"
proof -
  let ?st = "l_start (lg s)" and ?LC = "log_copies (l_start (lg s)) bs (blk s) (length bs)" and ?B = "map (\<lambda>b. (b, blk s b)) bs"
  note l = log_okD[OF ok]
  obtain s' h1 h0 where "commit s = Inr s'" "bc_inv s' {} {} pid" "header_is h1 bs" "header_is h0 []"
    "length h1 = BSIZE" "length h0 = BSIZE" "log_ok (lg s') []" "l_start (lg s') = l_start (lg s)"
    "dwrites s' = dwrites s @ ?LC @ [(?st, h1)] @ ?B @ [(?st, h0)]" "disk s' = written (disk s) (?LC @ [(?st, h1)] @ ?B @ [(?st, h0)])"
    by (rule commit_spec[OF inv ok ne room])
  note c = this(1,3,4,5,6,9,10)
  let ?ws = "?LC @ [(?st, h1)] @ ?B @ [(?st, h0)]"
  have "\<forall>w \<in> set ?ws. length (snd w) = BSIZE" using blk_length[OF inv] c(4,5) by (auto simp: log_copies_def)
  then have len: "length (written (disk s) (take k ?ws) n) = BSIZE" for k n
    using bc_invD(5)[OF inv] by (intro written_all[where Q = "\<lambda>x. length x = BSIZE"]) (blast dest: in_set_takeD)+
  have crash: "\<exists>r. initlog ROOTDEV (reboot (written (disk s) (take k ?ws)) s) = Inr r \<and>
       ((\<forall>n. n \<notin> log_region ?st \<longrightarrow> disk r n = disk s n) \<or> (\<forall>n. n \<notin> log_region ?st \<longrightarrow> disk r n = blk s n))" for k
  proof (cases "k \<le> length bs")
    case True
    let ?d = "written (disk s) (take k ?LC)"
    have e: "take k ?ws = take k ?LC" using True by (simp add: log_copies_def)
    have "?st \<notin> fst ` set (take k ?LC)"
      using logblk_region(3)[OF l(8)] l(3) by (fastforce simp: log_copies_def dest: in_set_takeD)
    then have "header_is (?d ?st) []" using hd by (simp add: written_other)
    with recover_reboot[OF bc_invD(3)[OF inv], of ?d ?st "[]"] sb l(8) len[of k] crash_before[OF l(8,3)] show ?thesis
      unfolding e by (auto simp: home_copies_def)
  next
    case False
    have L: "length ?LC = length bs" by (simp add: log_copies_def)
    have "take k ?ws = ?LC @ [(?st, h1)] @ take (k - length bs - 1) ?B \<or> take k ?ws = ?ws"
    proof (cases "k \<le> 2 * length bs + 1")
      case le: True
      have "take (k - length bs) ((?st, h1) # ?B @ [(?st, h0)]) = (?st, h1) # take (k - length bs - 1) ?B"
        using False le by (cases "k - length bs") auto
      then show ?thesis using L False by simp
    qed (simp add: L)
    then have "written (disk s) (take k ?ws) = written (disk s) (?LC @ [(?st, h1)] @ take (k - length bs - 1) ?B) \<or>
        written (disk s) (take k ?ws) = written (disk s) ?ws" by presburger
    from crash_after[OF inv ok c(2,3) this] obtain cs where cs: "set cs \<subseteq> set bs" "distinct cs" "length cs \<le> LOGBLOCKS"
      "header_is (written (disk s) (take k ?ws) ?st) cs"
      "\<forall>n. n \<notin> log_region ?st \<longrightarrow> written (written (disk s) (take k ?ws)) (home_copies ?st cs (written (disk s) (take k ?ws)) (length cs)) n = blk s n"
      by blast
    have "\<forall>b \<in> set cs. b \<notin> log_region ?st" using cs(1) l(7) by blast
    with recover_reboot[OF bc_invD(3)[OF inv], of "written (disk s) (take k ?ws)" ?st cs] len[of k] cs sb l(8)
    obtain r where "initlog ROOTDEV (reboot (written (disk s) (take k ?ws)) s) = Inr r"
      "\<forall>n. n \<notin> log_region ?st \<longrightarrow> disk r n = blk s n" by auto
    then show ?thesis by blast
  qed
  have "disk s' n = blk s n" if "n \<notin> log_region ?st" for n
  proof -
    have "n \<noteq> ?st" using that by (auto simp: log_region_def)
    then show ?thesis unfolding c(7) using log_copies_other[OF l(3,8) that] blk_clean[OF inv, of n] l(6) by (simp add: written_homes)
  qed
  with c(1,6,7) crash show ?thesis by blast
qed

theorem commit_crash_atomic_witness:
  "\<exists>s s' ws. for_each fill_block [100] tx_boot = Inr s \<and> commit s = Inr s' \<and> dwrites s' = ws \<and> disk s' 100 = replicate 1024 7 \<and>
     (\<forall>k. \<exists>r. initlog ROOTDEV (reboot (written (disk s) (take k ws)) s) = Inr r \<and>
        (disk r 100 = replicate 1024 0 \<or> disk r 100 = replicate 1024 7))"
proof -
  have n: "(100 :: u32) \<notin> log_region 2" by (simp add: log_region_def LOGBLOCKS_def MAXOPBLOCKS_def)
  from fill_blocks[of "[100]"] n obtain s where s: "for_each fill_block [100] tx_boot = Inr s" "tx_inv s [100] {} 3" "tx_frame tx_boot s"
    "blk s = (\<lambda>n. if n \<in> set [100] then replicate 1024 7 else replicate 1024 0)" by (auto simp: NBUF_def MAXOPBLOCKS_def)
  have f: "l_start (lg s) = 2" "sb_logstart (sb s) = 2" "disk s = (\<lambda>_. replicate 1024 0)" "dwrites s = []"
    using tx_frame_fields[OF s(3)] tx_boot_inv binit_nolinks(3)[of fs_boot] by (simp_all add: tx_boot_def)
  have i: "bc_inv s (set [100]) {} 3" "log_ok (lg s) [100]" using s(2) by (simp_all add: tx_inv_def)
  have h: "header_is (disk s (l_start (lg s))) []" by (simp add: f header_is_def get_le_def le_word_zeros)
  from commit_crash_atomic[OF i _ _ h, unfolded f s(4)] n s(1) f(4) show ?thesis
    by (fastforce simp: NBUF_def MAXOPBLOCKS_def f)
qed

text \<open>
  C24. The log never runs out of space: when a system call may begin only as \<^verbatim>\<open>begin_op\<close> allows and
  each logs at most \<^verbatim>\<open>MAXOPBLOCKS\<close> different blocks, then in every reachable state, whatever the
  order in which the calls begin, write and end, the log fits and a call that has not used up its
  share can log a block without the panic \<^verbatim>\<open>too big a transaction\<close>.
\<close>

theorem log_space_reserved:
  assumes "log_step\<^sup>*\<^sup>* (s0, []) (s, us)" and "l_outstanding (lg s0) = 0" "\<not> l_committing (lg s0)" "l_n (lg s0) = 0"
    and "length (l_block (lg s0)) = LOGBLOCKS"
  shows "l_n (lg s) \<le> int LOGBLOCKS \<and> l_outstanding (lg s) = int (length us) \<and>
    (\<forall>i < length us. card (us ! i) < MAXOPBLOCKS \<longrightarrow> (\<exists>s'. log_write b s = Inr s'))"
proof -
  have r: "log_reserved (lg s) us" by (rule reserved_reachable[OF assms(1)]) (use assms in \<open>simp add: log_reserved_def\<close>)
  note r' = r[unfolded log_reserved_def]
  have "\<exists>s'. log_write b s = Inr s'" if "i < length us" "card (us ! i) < MAXOPBLOCKS" for i
  proof -
    have "l_n (lg s) < int LOGBLOCKS" using r' sum_drop_one[OF that(1), of "\<lambda>U. MAXOPBLOCKS - card U"] that(2) by linarith
    moreover have "l_outstanding (lg s) \<ge> 1" using r' that(1) by linarith
    ultimately show ?thesis by (auto simp: log_write_def Let_def)
  qed
  then show ?thesis using r' by auto
qed

theorem log_space_reserved_witness:
  "\<exists>s s'. begin_op fs_boot = Inr (Returns (), s) \<and> log_step\<^sup>*\<^sup>* (fs_boot, []) (s, [{}]) \<and> log_write 4 s = Inr s'"
proof -
  let ?s = "upd_lg (\<lambda>l. l\<lparr>l_outstanding := l_outstanding l + 1\<rparr>) fs_boot"
  have b: "begin_op fs_boot = Inr (Returns (), ?s)" by (simp add: begin_op_def MAXOPBLOCKS_def LOGBLOCKS_def)
  have t: "log_step\<^sup>*\<^sup>* (fs_boot, []) (?s, [{}])" using step_begin[OF b, of "[]"] by auto
  from log_space_reserved[OF t, of 4] b t show ?thesis by (auto simp: LOGBLOCKS_def MAXOPBLOCKS_def)
qed

text \<open>
  C25. A log that is really full cannot be committed: the cache has exactly as many buffers as the
  log has blocks, so when all of them are pinned there is none left to read the log's own blocks
  into, and \<^verbatim>\<open>commit\<close> panics. Writing to a block that is in the log already panics as well.
\<close>

theorem full_log_panics:
  assumes "bc_inv s (set bs) {} pid" and "log_ok (lg s) bs" and "length bs = LOGBLOCKS"
  shows "commit s = Inl (Panic ''bget: no buffers'') \<and> log_write b s = Inl (Panic ''too big a transaction'')"
proof -
  note l = log_okD[OF assms(2)]
  have c: "card (set bs) = NBUF" using distinct_card[OF l(6)] assms(3) by (simp add: NBUF_def LOGBLOCKS_def)
  have "logblk (l_start (lg s)) 0 \<notin> set bs" using logblk_region(1)[OF l(8), of 0] l(7) by (auto simp: LOGBLOCKS_def MAXOPBLOCKS_def)
  from bread_full[OF assms(1) c this] have "write_log_one 0 s = Inl (Panic ''bget: no buffers'')"
    using l(1) by (simp add: write_log_one_def)
  moreover have "[0..<LOGBLOCKS] = 0 # [1..<LOGBLOCKS]" by (simp add: LOGBLOCKS_def MAXOPBLOCKS_def upt_conv_Cons)
  ultimately have "write_log s = Inl (Panic ''bget: no buffers'')"
    using l(2) assms(3) by (simp add: write_log_def)
  then show ?thesis using l(2) assms(3) by (simp add: commit_def log_write_def LOGBLOCKS_def MAXOPBLOCKS_def)
qed

theorem full_log_panics_witness:
  "\<exists>s. for_each fill_block (map of_nat [100..<130]) tx_boot = Inr s \<and> commit s = Inl (Panic ''bget: no buffers'')"
proof -
  have d: "distinct (map (of_nat :: nat \<Rightarrow> u32) [100..<130])"
    by (auto simp: distinct_map inj_on_def unat_of_nat dest!: arg_cong[of _ _ unat])
  have r: "\<forall>n \<in> set (map (of_nat :: nat \<Rightarrow> u32) [100..<130]). n \<notin> log_region 2"
    by (auto simp: log_region_def LOGBLOCKS_def MAXOPBLOCKS_def unat_of_nat)
  from fill_blocks[OF d r] obtain s where s: "for_each fill_block (map of_nat [100..<130]) tx_boot = Inr s"
    "tx_inv s (map of_nat [100..<130]) {} 3" by (auto simp: NBUF_def MAXOPBLOCKS_def)
  from full_log_panics[of s "map of_nat [100..<130]" 3] s show ?thesis
    by (simp add: tx_inv_def LOGBLOCKS_def MAXOPBLOCKS_def)
qed

end
