(* ===== verification/Xv6_Alloc.thy ===== *)
theory Xv6_Alloc
  imports Xv6_Inode
begin

text \<open>
  The allocation of disk blocks (\<^verbatim>\<open>balloc\<close>, \<^verbatim>\<open>bfree\<close> and \<^verbatim>\<open>bzero\<close> of \<^verbatim>\<open>kernel/fs.c\<close>) against the set of
  free blocks that the bitmap denotes, and the on-disk form of inodes.
\<close>

section \<open>The bitmap\<close>

lemma bit_free_iff: "bit_free d k \<longleftrightarrow> \<not> bit (d ! (k div 8)) (k mod 8)"
  by (simp add: bit_free_def bit_mask_def push_bit_of_1 and_exp_eq_0_iff_not_bit)

lemma bitmap_set:
  assumes "i < 8 * length d" "k < 8 * length d"
  shows "bit_free (set_bitmap d i) k \<longleftrightarrow> k \<noteq> i \<and> bit_free d k"
    and "bit_free (clear_bitmap d i) k \<longleftrightarrow> k = i \<or> bit_free d k"
proof -
  have e: "k = i \<longleftrightarrow> k div 8 = i div 8 \<and> k mod 8 = i mod 8" by (metis mult_div_mod_eq)
  have l: "k div 8 < length d" "i div 8 < length d" using assms by auto
  have m: "k mod 8 < LENGTH(8)" by simp
  show "bit_free (set_bitmap d i) k \<longleftrightarrow> k \<noteq> i \<and> bit_free d k"
    using l m by (auto simp: e bit_free_iff set_bitmap_def bit_mask_def nth_list_update bit_simps)
  show "bit_free (clear_bitmap d i) k \<longleftrightarrow> k = i \<or> bit_free d k"
    using l m by (auto simp: e bit_free_iff clear_bitmap_def bit_mask_def nth_list_update bit_simps)
qed

lemma length_bitmap [simp]: "length (set_bitmap d i) = length d" "length (clear_bitmap d i) = length d"
  by (simp_all add: set_bitmap_def clear_bitmap_def)

text \<open>
  The layout that \<^verbatim>\<open>mkfs\<close> makes: boot and super block, log, inodes, bitmap, data. The blocks before
  the data are never free.
\<close>

definition free_blk :: "'a fsst_scheme \<Rightarrow> nat \<Rightarrow> bool" where
  "free_blk s b \<longleftrightarrow> b < unat (sb_size (sb s)) \<and> bit_free (blk s (BBLOCK (of_nat b) (sb s))) (b mod BPB)"

definition nbitmap :: "superblock \<Rightarrow> nat" where
  "nbitmap k = (unat (sb_size k) + BPB - 1) div BPB"

definition nmeta :: "superblock \<Rightarrow> nat" where
  "nmeta k = unat (sb_bmapstart k) + nbitmap k"

definition layout_ok :: "superblock \<Rightarrow> bool" where
  "layout_ok k \<longleftrightarrow> unat (sb_logstart k) + LOGBLOCKS < unat (sb_inodestart k) \<and>
     unat (sb_inodestart k) + unat (sb_ninodes k) div IPB + 1 \<le> unat (sb_bmapstart k) \<and>
     unat (sb_size k) + BPB < 2 ^ 32 \<and> nmeta k \<le> unat (sb_size k)"

definition fs_inv :: "'a fsst_scheme \<Rightarrow> bool" where
  "fs_inv s \<longleftrightarrow> layout_ok (sb s) \<and> l_start (lg s) = sb_logstart (sb s) \<and> (\<forall>b < nmeta (sb s). \<not> free_blk s b)"

lemma unat_of_nat_u32: "n < 2 ^ 32 \<Longrightarrow> unat (of_nat n :: u32) = n"
  by (simp add: unat_of_nat)

lemma unat_BBLOCK:
  assumes "layout_ok k" "b < nbitmap k * BPB"
  shows "unat (BBLOCK (of_nat b) k) = b div BPB + unat (sb_bmapstart k)" "unat (BBLOCK (of_nat b) k) < nmeta k"
    "BBLOCK (of_nat b) k \<notin> log_region (sb_logstart k)"
proof -
  have "nbitmap k * BPB \<le> unat (sb_size k) + BPB - 1" unfolding nbitmap_def by simp
  then have b: "b < 2 ^ 32" using assms by (simp add: layout_ok_def BPB_def BSIZE_def)
  have d: "b div BPB < nbitmap k" using assms(2) by (simp add: less_mult_imp_div_less)
  have s: "b div BPB + unat (sb_bmapstart k) < 2 ^ 32" using d assms(1) by (simp add: layout_ok_def nmeta_def)
  have "unat (of_nat b div of_nat BPB :: u32) = b div BPB" using b by (simp add: unat_div unat_of_nat_u32 BPB_def BSIZE_def)
  then show u: "unat (BBLOCK (of_nat b) k) = b div BPB + unat (sb_bmapstart k)"
    using s by (simp add: BBLOCK_def unat_add_lem[THEN iffD1])
  show "unat (BBLOCK (of_nat b) k) < nmeta k" using u d by (simp add: nmeta_def)
  show "BBLOCK (of_nat b) k \<notin> log_region (sb_logstart k)"
    using u assms(1) by (simp add: log_region_def layout_ok_def)
qed

lemma size_bitmap: "unat (sb_size k) \<le> nbitmap k * BPB"
proof -
  have "unat (sb_size k) + BPB - 1 < nbitmap k * BPB + BPB"
    unfolding nbitmap_def using dividend_less_div_times[of BPB "unat (sb_size k) + BPB - 1"] by (simp add: BPB_def BSIZE_def)
  then show ?thesis by (simp add: BPB_def BSIZE_def)
qed

lemma free_blk_bounds: "free_blk s b \<Longrightarrow> b < nbitmap (sb s) * BPB"
  using size_bitmap[of "sb s"] by (auto simp: free_blk_def)

lemma BBLOCK_eq:
  assumes "layout_ok k" "b < nbitmap k * BPB" "c < nbitmap k * BPB"
  shows "BBLOCK (of_nat b) k = BBLOCK (of_nat c) k \<longleftrightarrow> b div BPB = c div BPB"
  using unat_BBLOCK(1)[OF assms(1)] assms(2,3) by (auto simp: word_unat_eq_iff)

text \<open>Setting and clearing the bit of a block.\<close>

lemma free_blk_set:
  assumes lay: "layout_ok (sb s)" and len: "\<And>n. length (blk s n) = BSIZE" and b: "b < unat (sb_size (sb s))" and s': "sb s' = sb s"
    and bk: "\<And>n. unat n < nmeta (sb s) \<Longrightarrow> blk s' n = ((blk s)(BBLOCK (of_nat b) (sb s) := m (blk s (BBLOCK (of_nat b) (sb s))) (b mod BPB))) n"
  shows "m = set_bitmap \<Longrightarrow> free_blk s' c \<longleftrightarrow> c \<noteq> b \<and> free_blk s c" "m = clear_bitmap \<Longrightarrow> free_blk s' c \<longleftrightarrow> c = b \<or> free_blk s c"
proof -
  let ?N = "nbitmap (sb s) * BPB"
  have bN: "b < ?N" "c < unat (sb_size (sb s)) \<Longrightarrow> c < ?N" using b size_bitmap[of "sb s"] by auto
  have l: "i mod BPB < 8 * length (blk s n)" for i n using len by (simp add: BPB_def BSIZE_def)
  have e: "c = b \<longleftrightarrow> c div BPB = b div BPB \<and> c mod BPB = b mod BPB" by (metis mult_div_mod_eq)
  have z: "c < unat (sb_size (sb s)) \<Longrightarrow> blk s' (BBLOCK (of_nat c) (sb s)) = (if c div BPB = b div BPB
      then m (blk s (BBLOCK (of_nat b) (sb s))) (b mod BPB) else blk s (BBLOCK (of_nat c) (sb s)))"
    using bk[of "BBLOCK (of_nat c) (sb s)"] unat_BBLOCK(2)[OF lay bN(2)] BBLOCK_eq[OF lay bN(2) bN(1)] by (auto simp: fun_upd_def)
  have q: "c < unat (sb_size (sb s)) \<Longrightarrow> c div BPB = b div BPB \<Longrightarrow> BBLOCK (of_nat c) (sb s) = BBLOCK (of_nat b) (sb s)"
    using BBLOCK_eq[OF lay bN(2) bN(1)] by simp
  show "m = set_bitmap \<Longrightarrow> free_blk s' c \<longleftrightarrow> c \<noteq> b \<and> free_blk s c"
    using z q bitmap_set(1)[OF l l] e by (cases "c < unat (sb_size (sb s))") (auto simp: free_blk_def s')
  show "m = clear_bitmap \<Longrightarrow> free_blk s' c \<longleftrightarrow> c = b \<or> free_blk s c"
    using z q bitmap_set(2)[OF l l] e b by (cases "c < unat (sb_size (sb s))") (auto simp: free_blk_def s')
qed

section \<open>Allocation\<close>

text \<open>The buffers that the caller holds are of data blocks in use.\<close>

definition held_data :: "'a fsst_scheme \<Rightarrow> nat set \<Rightarrow> bool" where
  "held_data s H \<longleftrightarrow> (\<forall>i \<in> H. nmeta (sb s) \<le> unat (num s i) \<and> \<not> free_blk s (unat (num s i)))"

lemma free_blk_cong: "blk s' = blk s \<Longrightarrow> sb s' = sb s \<Longrightarrow> free_blk s' = free_blk s"
  by (simp add: free_blk_def fun_eq_iff)

lemma tx_blk_length: "tx_inv s bs H pid \<Longrightarrow> length (blk s n) = BSIZE"
  using blk_length[of s "set bs" H pid n] by (simp add: tx_inv_def)

lemma kprintf_tx:
  assumes "tx_inv s bs H pid"
  shows "tx_inv (kprintf fmt as s) bs H pid" "blk (kprintf fmt as s) = blk s" "tx_frame s (kprintf fmt as s)" "bufs (kprintf fmt as s) = bufs s"
  using assms kprintf_inv[of s "set bs" H pid fmt as] kprintf_fields(1)[of s fmt as] kprintf_fields(2-)[of fmt as s]
    bio_frame_fields(1)[OF kprintf_fields(1)[of s fmt as]]
  by (simp_all add: tx_inv_def tx_frame_bio)

text \<open>A block that \<^verbatim>\<open>balloc\<close> looks into, in terms of the free blocks that it describes.\<close>

lemma find_upt_shift: "find P [m..<m + n] = map_option ((+) m) (find (\<lambda>i. P (m + i)) [0..<n])"
proof -
  have "[m..<m + n] = map ((+) m) [0..<n]" by (rule nth_equalityI) simp_all
  moreover have "find P (map f xs) = map_option f (find (P \<circ> f) xs)" for f :: "nat \<Rightarrow> nat" and xs
    by (induction xs) auto
  ultimately show ?thesis by (simp add: comp_def)
qed

lemma upt_split: "i \<le> j \<Longrightarrow> j \<le> k \<Longrightarrow> [i..<k] = [i..<j] @ [j..<k]"
  by (metis le_add_diff_inverse upt_add_eq_append)

lemma find_cong: "(\<And>x. x \<in> set xs \<Longrightarrow> P x = Q x) \<Longrightarrow> find P xs = find Q xs"
  by (induction xs) auto

lemma find_append: "find P (xs @ ys) = (case find P xs of None \<Rightarrow> find P ys | Some x \<Rightarrow> Some x)"
  by (induction xs) auto

lemma scan_block:
  assumes "layout_ok (sb s)" "j < nbitmap (sb s)"
  shows "find (free_blk s) [j * BPB..<Suc j * BPB] = map_option ((+) (j * BPB))
    (find (\<lambda>bi. j * BPB + bi < unat (sb_size (sb s)) \<and> bit_free (blk s (BBLOCK (of_nat (j * BPB)) (sb s))) bi) [0..<BPB])"
proof -
  have "free_blk s (j * BPB + bi) \<longleftrightarrow> j * BPB + bi < unat (sb_size (sb s)) \<and> bit_free (blk s (BBLOCK (of_nat (j * BPB)) (sb s))) bi"
    if "bi < BPB" for bi
  proof -
    have j: "j * BPB + BPB \<le> nbitmap (sb s) * BPB" using assms(2) by (metis Suc_leI add.commute mult_Suc mult_le_mono1)
    then have "BBLOCK (of_nat (j * BPB + bi)) (sb s) = BBLOCK (of_nat (j * BPB)) (sb s)"
      using BBLOCK_eq[OF assms(1), of "j * BPB + bi" "j * BPB"] that by (simp add: BPB_def BSIZE_def)
    then show ?thesis using that by (simp add: free_blk_def)
  qed
  then have "find (\<lambda>i. free_blk s (j * BPB + i)) [0..<BPB] =
    find (\<lambda>bi. j * BPB + bi < unat (sb_size (sb s)) \<and> bit_free (blk s (BBLOCK (of_nat (j * BPB)) (sb s))) bi) [0..<BPB]"
    by (intro find_cong) simp
  moreover have "Suc j * BPB = j * BPB + BPB" by simp
  ultimately show ?thesis by (simp only: find_upt_shift)
qed

lemma bzero_spec:
  assumes inv: "tx_inv s bs H pid" and nh: "\<forall>i \<in> H. num s i \<noteq> n" and room: "length bs + card H < NBUF"
    and n: "n \<notin> log_region (l_start (lg s))"
  obtains s' where "bzero ROOTDEV n s = Inr s'" "tx_inv s' (logged n bs) H pid" "blk s' = (blk s)(n := replicate BSIZE 0)" "tx_frame s s'"
    "\<And>i. i \<in> H \<Longrightarrow> num s' i = num s i \<and> data_of s' i = data_of s i"
proof -
  obtain b s1 s2 s3 where "bread ROOTDEV n s = Inr (b, s1)" "log_write b (set_data b (replicate BSIZE 0) s1) = Inr s2" "brelse b s2 = Inr s3"
    "tx_inv s3 (logged n bs) H pid" "blk s3 = (blk s)(n := replicate BSIZE 0)" "tx_frame s s3"
    "\<And>i. i \<in> H \<Longrightarrow> num s3 i = num s i \<and> data_of s3 i = data_of s i"
    by (rule tx_update[OF inv nh room n, of "\<lambda>_. replicate BSIZE 0"]) auto
  then show ?thesis by (intro that[of s3]) (simp_all add: bzero_def)
qed

text \<open>Taking the block \<open>b\<close>, whose bit the scan has found clear.\<close>

definition takes_block :: "nat \<Rightarrow> 'a fsst_scheme \<Rightarrow> u32 list \<Rightarrow> nat set \<Rightarrow> int \<Rightarrow> 'a fsst_scheme \<Rightarrow> bool" where
  "takes_block b s bs H pid s' \<longleftrightarrow> tx_inv s' (logged (of_nat b) (logged (BBLOCK (of_nat b) (sb s)) bs)) H pid \<and> tx_frame s s' \<and>
     blk s' = (blk s)(BBLOCK (of_nat b) (sb s) := set_bitmap (blk s (BBLOCK (of_nat b) (sb s))) (b mod BPB), of_nat b := replicate BSIZE 0) \<and>
     (\<forall>i \<in> H. num s' i = num s i \<and> data_of s' i = data_of s i)"

lemma balloc_take:
  assumes inv: "tx_inv s bs H pid" and fs: "fs_inv s" and held: "held_data s H" and room: "length bs + card H + 1 < NBUF" and fr: "free_blk s b"
  obtains bp s1 s2 s3 s4 where "bread ROOTDEV (BBLOCK (of_nat b) (sb s)) s = Inr (bp, s1)" "data_of s1 bp = blk s (BBLOCK (of_nat b) (sb s))"
    "sb s1 = sb s" "log_write bp (set_data bp (set_bitmap (data_of s1 bp) (b mod BPB)) s1) = Inr s2" "brelse bp s2 = Inr s3"
    "bzero ROOTDEV (of_nat b) s3 = Inr s4" "takes_block b s bs H pid s4"
proof -
  let ?k = "BBLOCK (of_nat b) (sb s)"
  have lay: "layout_ok (sb s)" and st: "l_start (lg s) = sb_logstart (sb s)" and nm: "nmeta (sb s) \<le> b" "b < 2 ^ 32"
    using fs fr by (auto simp: fs_inv_def layout_ok_def free_blk_def not_less[symmetric])
  note k = unat_BBLOCK[OF lay free_blk_bounds[OF fr]]
  have u: "unat (of_nat b :: u32) = b" by (rule unat_of_nat_u32[OF nm(2)])
  have nh: "\<forall>i \<in> H. num s i \<noteq> ?k" "\<forall>i \<in> H. num s i \<noteq> of_nat b" using held k(2) fr u by (force simp: held_data_def)+
  obtain bp s1 s2 s3 where r: "bread ROOTDEV ?k s = Inr (bp, s1)" "data_of s1 bp = blk s ?k" "tx_frame s s1"
    "log_write bp (set_data bp (set_bitmap (data_of s1 bp) (b mod BPB)) s1) = Inr s2" "brelse bp s2 = Inr s3"
    "tx_inv s3 (logged ?k bs) H pid" "blk s3 = (blk s)(?k := set_bitmap (blk s ?k) (b mod BPB))" "tx_frame s s3"
    "\<And>i. i \<in> H \<Longrightarrow> num s3 i = num s i \<and> data_of s3 i = data_of s i"
    by (rule tx_update[OF inv nh(1), of "\<lambda>d. set_bitmap d (b mod BPB)"]) (use room k(3) st tx_blk_length[OF inv] in auto)
  have nl: "of_nat b \<notin> log_region (l_start (lg s3))"
    using tx_frame_fields(4)[OF r(8)] st u nm(1) lay by (simp add: log_region_def nmeta_def layout_ok_def)
  have r3: "length (logged ?k bs) + card H < NBUF" using room by (simp add: length_logged)
  have nh3: "\<forall>i \<in> H. num s3 i \<noteq> of_nat b" using nh(2) r(9) by simp
  obtain s4 where z: "bzero ROOTDEV (of_nat b) s3 = Inr s4" "tx_inv s4 (logged (of_nat b) (logged ?k bs)) H pid"
    "blk s4 = (blk s3)(of_nat b := replicate BSIZE 0)" "tx_frame s3 s4" "\<And>i. i \<in> H \<Longrightarrow> num s4 i = num s3 i \<and> data_of s4 i = data_of s3 i"
    by (rule bzero_spec[OF r(6) nh3 r3 nl]) blast
  have "takes_block b s bs H pid s4" using z r(7,9) tx_frame_trans[OF r(8) z(4)] by (simp add: takes_block_def)
  from that[OF r(1,2) tx_frame_fields(1)[OF r(3)] r(4,5) z(1) this] show ?thesis .
qed

lemma balloc_loop_spec:
  assumes "tx_inv s bs H pid" "fs_inv s" "held_data s H" "length bs + card H + 1 < NBUF" "m \<le> nbitmap (sb s)"
  shows "case find (free_blk s) [m * BPB..<nbitmap (sb s) * BPB] of
      Some b \<Rightarrow> \<exists>s'. balloc_loop (map (\<lambda>j. j * BPB) [m..<nbitmap (sb s)]) ROOTDEV s = Inr (of_nat b, s') \<and> takes_block b s bs H pid s'
    | None \<Rightarrow> \<exists>s'. balloc_loop (map (\<lambda>j. j * BPB) [m..<nbitmap (sb s)]) ROOTDEV s = Inr (0, s') \<and> tx_inv s' bs H pid \<and> tx_frame s s' \<and>
        blk s' = blk s \<and> (\<forall>i \<in> H. num s' i = num s i \<and> data_of s' i = data_of s i)"
  using assms
proof (induction "nbitmap (sb s) - m" arbitrary: s m)
  case 0
  then show ?case using kprintf_tx[OF 0(2)] by simp
next
  case (Suc q)
  let ?N = "nbitmap (sb s)" and ?k = "BBLOCK (of_nat (m * BPB)) (sb s)"
  have m: "m < ?N" "m * BPB < ?N * BPB" using Suc.hyps(2) by (auto simp: BPB_def BSIZE_def)
  have lay: "layout_ok (sb s)" and st: "l_start (lg s) = sb_logstart (sb s)" using Suc.prems(2) by (simp_all add: fs_inv_def)
  have up: "[m..<?N] = m # [Suc m..<?N]" using m(1) by (simp add: upt_conv_Cons)
  have sp: "[m * BPB..<?N * BPB] = [m * BPB..<Suc m * BPB] @ [Suc m * BPB..<?N * BPB]"
    using m(1) by (intro upt_split mult_le_mono1) auto
  note k = unat_BBLOCK[OF lay m(2)]
  have nh: "\<forall>i \<in> H. num s i \<noteq> ?k" using Suc.prems(3) k(2) by (force simp: held_data_def)
  show ?case
  proof (cases "find (free_blk s) [m * BPB..<Suc m * BPB]")
    case (Some b)
    then have fr: "free_blk s b" and b: "m * BPB \<le> b" "b < Suc m * BPB" by (auto dest: find_SomeD)
    have kb: "BBLOCK (of_nat b) (sb s) = ?k" using BBLOCK_eq[OF lay free_blk_bounds[OF fr] m(2)] b
      by (simp add: BPB_def BSIZE_def)
    obtain bp s1 s2 s3 s4 where t: "bread ROOTDEV ?k s = Inr (bp, s1)" "data_of s1 bp = blk s ?k" "sb s1 = sb s"
      "log_write bp (set_data bp (set_bitmap (data_of s1 bp) (b mod BPB)) s1) = Inr s2" "brelse bp s2 = Inr s3"
      "bzero ROOTDEV (of_nat b) s3 = Inr s4" "takes_block b s bs H pid s4"
      by (rule balloc_take[OF Suc.prems(1-4) fr]) (simp add: kb)
    have "b = m * BPB + (b - m * BPB)" "b - m * BPB < BPB" using b by auto
    then have mb: "b mod BPB = b - m * BPB" "m * BPB + (b - m * BPB) = b" by (metis mod_mult_self3 mod_less) (use b in simp)
    have "find (\<lambda>bi. m * BPB + bi < unat (sb_size (sb s)) \<and> bit_free (blk s ?k) bi) [0..<BPB] = Some (b - m * BPB)"
      using Some[unfolded scan_block[OF lay m(1)]] by (auto simp del: of_nat_mult)
    then have "balloc_loop (map (\<lambda>j. j * BPB) [m..<?N]) ROOTDEV s = Inr (of_nat b, s4)"
      using t mb unfolding up by (simp del: of_nat_mult of_nat_add)
    moreover have "find (free_blk s) [m * BPB..<?N * BPB] = Some b" using Some unfolding sp by (simp add: find_append)
    ultimately show ?thesis using t(7) by auto
  next
    case None
    obtain bp s1 s2 where r: "bread ROOTDEV ?k s = Inr (bp, s1)" "data_of s1 bp = blk s ?k" "tx_frame s s1" "brelse bp s1 = Inr s2"
      "tx_inv s2 bs H pid" "blk s2 = blk s" "tx_frame s s2" "\<And>i. i \<in> H \<Longrightarrow> num s2 i = num s i \<and> data_of s2 i = data_of s i"
      by (rule tx_peek[OF Suc.prems(1) nh]) (use Suc.prems(4) in auto)
    have f: "sb s2 = sb s" "free_blk s2 = free_blk s" "l_start (lg s2) = l_start (lg s)"
      using tx_frame_fields[OF r(7)] free_blk_cong[OF r(6)] by auto
    have i2: "fs_inv s2" "held_data s2 H" using Suc.prems(2,3) f r(8) by (auto simp: fs_inv_def held_data_def)
    have q: "q = nbitmap (sb s2) - Suc m" "Suc m \<le> nbitmap (sb s2)" using Suc.hyps(2) f(1) by simp_all
    note IH = Suc.hyps(1)[OF q(1) r(5) i2 Suc.prems(4) q(2), unfolded f(1,2)]
    have tr: "takes_block b s2 bs H pid s' \<Longrightarrow> takes_block b s bs H pid s'" for b s'
      using tx_frame_trans[OF r(7)] f r(6,8) by (simp add: takes_block_def)
    have "find (\<lambda>bi. m * BPB + bi < unat (sb_size (sb s)) \<and> bit_free (blk s ?k) bi) [0..<BPB] = None"
      using None scan_block[OF lay m(1)] by simp
    then have "balloc_loop (map (\<lambda>j. j * BPB) [m..<?N]) ROOTDEV s = balloc_loop (map (\<lambda>j. j * BPB) [Suc m..<?N]) ROOTDEV s2"
      using r(1,2,4) tx_frame_fields(1)[OF r(3)] unfolding up by (simp del: of_nat_mult)
    then show ?thesis using IH None tr tx_frame_trans[OF r(7)] r(6,8) unfolding sp
      by (auto simp: find_append split: option.splits)
  qed
qed

lemma balloc_spec:
  assumes "tx_inv s bs H pid" "fs_inv s" "held_data s H" "length bs + card H + 1 < NBUF"
  shows "case find (free_blk s) [0..<unat (sb_size (sb s))] of
      Some b \<Rightarrow> \<exists>s'. balloc ROOTDEV s = Inr (of_nat b, s') \<and> takes_block b s bs H pid s'
    | None \<Rightarrow> \<exists>s'. balloc ROOTDEV s = Inr (0, s') \<and> tx_inv s' bs H pid \<and> tx_frame s s' \<and>
        blk s' = blk s \<and> (\<forall>i \<in> H. num s' i = num s i \<and> data_of s' i = data_of s i)"
proof -
  let ?z = "unat (sb_size (sb s))"
  have "[0..<nbitmap (sb s) * BPB] = [0..<?z] @ [?z..<nbitmap (sb s) * BPB]"
    by (intro upt_split size_bitmap) simp
  moreover have "find (free_blk s) [?z..<nbitmap (sb s) * BPB] = None" by (auto simp: find_None_iff free_blk_def)
  ultimately have "find (free_blk s) [0..<nbitmap (sb s) * BPB] = find (free_blk s) [0..<?z]"
    by (simp add: find_append split: option.split)
  then have f: "find (free_blk s) [0 * BPB..<nbitmap (sb s) * BPB] = find (free_blk s) [0..<?z]" by simp
  have e: "balloc ROOTDEV s = balloc_loop (map (\<lambda>j. j * BPB) [0..<nbitmap (sb s)]) ROOTDEV s"
    by (simp add: balloc_def bitmap_starts_def nbitmap_def)
  show ?thesis using balloc_loop_spec[OF assms le0] unfolding f e .
qed

lemma takes_block_facts:
  assumes inv: "tx_inv s bs H pid" and fs: "fs_inv s" and fr: "free_blk s b" and t: "takes_block b s bs H pid s'"
  shows "free_blk s' c \<longleftrightarrow> c \<noteq> b \<and> free_blk s c" "fs_inv s'" "unat (of_nat b :: u32) = b" "nmeta (sb s) \<le> b"
    "nmeta (sb s) \<le> unat n \<Longrightarrow> n \<noteq> of_nat b \<Longrightarrow> blk s' n = blk s n"
    "n \<noteq> BBLOCK (of_nat b) (sb s) \<Longrightarrow> n \<noteq> of_nat b \<Longrightarrow> blk s' n = blk s n" "blk s' (of_nat b) = replicate BSIZE 0"
proof -
  let ?k = "BBLOCK (of_nat b) (sb s)"
  have lay: "layout_ok (sb s)" using fs by (simp add: fs_inv_def)
  have b: "b < unat (sb_size (sb s))" "b < 2 ^ 32" "nmeta (sb s) \<le> b"
    using fr fs by (auto simp: free_blk_def fs_inv_def layout_ok_def not_less[symmetric])
  show u: "unat (of_nat b :: u32) = b" "nmeta (sb s) \<le> b" using b by (simp_all add: unat_of_nat_u32)
  have f: "sb s' = sb s" "l_start (lg s') = l_start (lg s)" using t tx_frame_fields[of s s'] by (auto simp: takes_block_def)
  have k: "unat ?k < nmeta (sb s)" by (rule unat_BBLOCK(2)[OF lay free_blk_bounds[OF fr]])
  have e: "blk s' = (blk s)(?k := set_bitmap (blk s ?k) (b mod BPB), of_nat b := replicate BSIZE 0)"
    using t by (simp add: takes_block_def)
  have "unat n < nmeta (sb s) \<Longrightarrow> n \<noteq> of_nat b" for n :: u32 using u by auto
  then show g: "free_blk s' c \<longleftrightarrow> c \<noteq> b \<and> free_blk s c" for c
    by (intro free_blk_set(1)[OF lay tx_blk_length[OF inv] b(1) f(1)]) (auto simp: e)
  show "fs_inv s'" using fs g f by (auto simp: fs_inv_def)
  show "nmeta (sb s) \<le> unat n \<Longrightarrow> n \<noteq> of_nat b \<Longrightarrow> blk s' n = blk s n" using k by (auto simp: e)
  show "n \<noteq> ?k \<Longrightarrow> n \<noteq> of_nat b \<Longrightarrow> blk s' n = blk s n" "blk s' (of_nat b) = replicate BSIZE 0" by (simp_all add: e)
qed

section \<open>Freeing\<close>

lemma bfree_spec:
  assumes inv: "tx_inv s bs H pid" and fs: "fs_inv s" and room: "length bs + card H < NBUF"
    and b: "unat b < unat (sb_size (sb s))" "nmeta (sb s) \<le> unat b" "\<not> free_blk s (unat b)" and nh: "\<forall>i \<in> H. nmeta (sb s) \<le> unat (num s i)"
  obtains s' where "bfree ROOTDEV b s = Inr s'" "tx_inv s' (logged (BBLOCK b (sb s)) bs) H pid" "tx_frame s s'" "fs_inv s'"
    "\<And>c. free_blk s' c \<longleftrightarrow> c = unat b \<or> free_blk s c" "\<And>n. n \<noteq> BBLOCK b (sb s) \<Longrightarrow> blk s' n = blk s n"
    "\<And>i. i \<in> H \<Longrightarrow> num s' i = num s i \<and> data_of s' i = data_of s i"
proof -
  let ?k = "BBLOCK b (sb s)" and ?bi = "unat b mod BPB"
  have lay: "layout_ok (sb s)" and st: "l_start (lg s) = sb_logstart (sb s)" using fs by (simp_all add: fs_inv_def)
  have bN: "unat b < nbitmap (sb s) * BPB" using b(1) size_bitmap[of "sb s"] by simp
  have kb: "BBLOCK (of_nat (unat b)) (sb s) = ?k" by simp
  note k = unat_BBLOCK[OF lay bN, unfolded kb]
  have nf: "\<not> bit_free (blk s ?k) ?bi" using b(1,3) by (simp add: free_blk_def)
  have nh': "\<forall>i \<in> H. num s i \<noteq> ?k" using nh k(2) by force
  have lk: "?k \<notin> log_region (l_start (lg s))" using k(3) st by simp
  obtain bp s1 s2 s3 where r: "bread ROOTDEV ?k s = Inr (bp, s1)" "data_of s1 bp = blk s ?k" "tx_frame s s1"
    "log_write bp (set_data bp (clear_bitmap (data_of s1 bp) ?bi) s1) = Inr s2" "brelse bp s2 = Inr s3"
    "tx_inv s3 (logged ?k bs) H pid" "blk s3 = (blk s)(?k := clear_bitmap (blk s ?k) ?bi)" "tx_frame s s3"
    "\<And>i. i \<in> H \<Longrightarrow> num s3 i = num s i \<and> data_of s3 i = data_of s i"
    by (rule tx_update[OF inv nh' room lk, of "\<lambda>d. clear_bitmap d ?bi"]) (use tx_blk_length[OF inv] in auto)
  have f: "sb s3 = sb s" "l_start (lg s3) = l_start (lg s)" using tx_frame_fields[OF r(8)] by auto
  have g: "free_blk s3 c \<longleftrightarrow> c = unat b \<or> free_blk s c" for c
    by (rule free_blk_set(2)[OF lay tx_blk_length[OF inv] b(1) f(1)]) (simp_all add: r(7))
  show ?thesis
    by (rule that[OF _ r(6,8)]) (use r nf f g fs b(2) in \<open>auto simp: bfree_def Let_def fs_inv_def\<close>)
qed

section \<open>A small file system\<close>

text \<open>
  A disk as \<^verbatim>\<open>mkfs\<close> leaves it: the root directory, inode 1, has its entries in block 47, the file \<^verbatim>\<open>hi\<close>, inode
  2, its five bytes in block 48; the blocks below 49 are in use.
\<close>

definition hello :: "u8 list" where
  "hello = [104, 101, 108, 108, 111]"

definition small_disk :: "u32 \<Rightarrow> u8 list" where
  "small_disk n =
     (if n = 33 then put_dinode (put_dinode (replicate 1024 0) 64
          \<lparr>d_type = T_DIR, d_major = 0, d_minor = 0, d_nlink = 1, d_size = 48, d_addrs = 47 # replicate 12 0\<rparr>) 128
          \<lparr>d_type = T_FILE, d_major = 0, d_minor = 0, d_nlink = 1, d_size = 5, d_addrs = 48 # replicate 12 0\<rparr>
      else if n = 46 then replicate 6 255 @ [1] @ replicate 1017 0
      else if n = 47 then [1, 0, 46] @ replicate 13 0 @ [1, 0, 46, 46] @ replicate 12 0 @ [2, 0, 104, 105] @ replicate 12 0 @ replicate 976 0
      else if n = 48 then hello @ replicate 1019 0
      else replicate 1024 0)"

definition small_fs :: fsst where
  "small_fs = upd_lg (\<lambda>l. l\<lparr>l_outstanding := 1\<rparr>) (binit (fs_boot\<lparr>disk := small_disk\<rparr>))"

lemma length_dinode_bytes: "length (d_addrs di) = 13 \<Longrightarrow> length (dinode_bytes di) = 64"
  by (simp add: dinode_bytes_def length_concat_le)

lemma length_small_disk: "length (small_disk n) = BSIZE"
  by (simp add: small_disk_def BSIZE_def put_dinode_def length_dinode_bytes hello_def)

lemma sb_fs_boot: "sb fs_boot = \<lparr>sb_magic = FSMAGIC, sb_size = 2000, sb_nblocks = 1953, sb_ninodes = 200, sb_nlog = 31, sb_logstart = 2,
    sb_inodestart = 33, sb_bmapstart = 46\<rparr>"
  by (simp add: fs_boot_def const.defs)

lemma small_fs_tx: "tx_inv small_fs [] {} 3" "blk small_fs = small_disk" "sb small_fs = sb fs_boot" "l_start (lg small_fs) = 2"
  "itable small_fs = itable fs_boot" "disk small_fs = small_disk"
proof -
  let ?b = "fs_boot\<lparr>disk := small_disk\<rparr>"
  have b: "bufs ?b = replicate NBUF empty_buf" by simp
  have c: "cur_ok ?b 3" using fs_boot_cur by (auto simp: cur_ok_def split: option.splits)
  have l: "length (disk ?b n) = BSIZE" for n by (simp add: length_small_disk)
  note i = binit_inv[OF b c l] and f = binit_nolinks(2,4)[OF b]
  have "lg (binit ?b) = lg fs_boot" "sb (binit ?b) = sb fs_boot" "itable (binit ?b) = itable fs_boot"
    using bio_frame_fields(1,2,3)[OF f(2)] by simp_all
  then show "tx_inv small_fs [] {} 3" "blk small_fs = small_disk" "sb small_fs = sb fs_boot" "l_start (lg small_fs) = 2"
    "itable small_fs = itable fs_boot" "disk small_fs = small_disk"
    using i f by (simp_all add: small_fs_def tx_inv_def log_ok_def LOGBLOCKS_def MAXOPBLOCKS_def ROOTDEV_def)
qed

lemma small_free: "free_blk small_fs b \<longleftrightarrow> 49 \<le> b \<and> b < 2000"
proof (cases "b < 2000")
  case True
  then have "(of_nat b :: u32) div 8192 = 0" by (simp add: word_unat_eq_iff unat_div unat_of_nat)
  then have z: "BBLOCK (of_nat b) (sb fs_boot) = 46" "b mod BPB = b"
    using True by (simp_all add: BBLOCK_def sb_fs_boot BPB_def BSIZE_def)
  have n: "small_disk 46 ! (b div 8) = (if b < 48 then 255 else if b < 56 then 1 else 0)"
    using True by (auto simp: small_disk_def nth_append nth_Cons')
  have m: "bit (255 :: u8) k \<longleftrightarrow> k < 8" "bit (1 :: u8) k \<longleftrightarrow> k = 0" for k
    using bit_mask_iff[of 8 k, where 'a = "8 word"] by (auto simp: mask_eq_exp_minus_1 bit_1_iff)
  have "bit_free (small_disk 46) b \<longleftrightarrow> 49 \<le> b"
  proof -
    consider "b < 48" | "b = 48" | "48 < b" "b < 56" | "56 \<le> b" by linarith
    then show ?thesis
    proof cases
      case 1
      have "bit (255 :: u8) (b mod 8)" by (subst m(1)) simp
      then show ?thesis using 1 n by (simp add: bit_free_iff)
    next
      case 3
      then have "b mod 8 \<noteq> 0" by presburger
      then show ?thesis using 3 n m(2) by (simp add: bit_free_iff)
    qed (use n m in \<open>simp_all add: bit_free_iff\<close>)
  qed
  then show ?thesis using True z by (simp add: free_blk_def small_fs_tx sb_fs_boot)
qed (simp add: free_blk_def small_fs_tx sb_fs_boot)

lemma small_fs_inv: "fs_inv small_fs"
  using small_free
  by (simp add: fs_inv_def layout_ok_def nmeta_def nbitmap_def small_fs_tx sb_fs_boot LOGBLOCKS_def MAXOPBLOCKS_def BPB_def BSIZE_def IPB_def)

section \<open>Properties\<close>



text \<open>
  C27. \<^verbatim>\<open>bfree\<close> gives back exactly one block: afterwards that block is free, no other block has
  become free or used, and no block outside the bitmap has changed. Freeing a block that is free
  already panics.
\<close>

theorem bfree_frees:
  assumes "tx_inv s bs {} pid" and "fs_inv s" and "length bs < NBUF" and "nmeta (sb s) \<le> unat b" "unat b < unat (sb_size (sb s))"
  shows "if free_blk s (unat b) then bfree ROOTDEV b s = Inl (Panic ''freeing free block'')
    else \<exists>s'. bfree ROOTDEV b s = Inr s' \<and> fs_inv s' \<and> disk s' = disk s \<and> (\<forall>c. free_blk s' c \<longleftrightarrow> c = unat b \<or> free_blk s c) \<and>
      (\<forall>n. n \<noteq> BBLOCK b (sb s) \<longrightarrow> blk s' n = blk s n)"
proof (cases "free_blk s (unat b)")
  case True
  then have "bit_free (blk s (BBLOCK b (sb s))) (unat b mod BPB)" by (simp add: free_blk_def)
  moreover obtain bp s1 where "bread ROOTDEV (BBLOCK b (sb s)) s = Inr (bp, s1)" "data_of s1 bp = blk s (BBLOCK b (sb s))"
    by (rule tx_read[OF assms(1), of "BBLOCK b (sb s)"]) (use assms(3) in auto)
  ultimately show ?thesis using True by (simp add: bfree_def Let_def)
next
  case False
  obtain s' where "bfree ROOTDEV b s = Inr s'" "tx_frame s s'" "fs_inv s'" "\<And>c. free_blk s' c \<longleftrightarrow> c = unat b \<or> free_blk s c"
    "\<And>n. n \<noteq> BBLOCK b (sb s) \<Longrightarrow> blk s' n = blk s n"
    by (rule bfree_spec[OF assms(1,2), of b]) (use assms(3-5) False in auto)
  then show ?thesis using False tx_frame_fields(5)[of s s'] by auto
qed

theorem bfree_frees_witness:
  "(\<exists>s'. bfree ROOTDEV 48 small_fs = Inr s' \<and> free_blk s' 48 \<and> \<not> free_blk s' 47) \<and>
   bfree ROOTDEV 49 small_fs = Inl (Panic ''freeing free block'')"
proof -
  have b: "nmeta (sb small_fs) = 47" "length [] < NBUF"
    by (simp_all add: nmeta_def nbitmap_def small_fs_tx sb_fs_boot BPB_def BSIZE_def NBUF_def MAXOPBLOCKS_def)
  show ?thesis
    using bfree_frees[OF small_fs_tx(1) small_fs_inv b(2), of 48] bfree_frees[OF small_fs_tx(1) small_fs_inv b(2), of 49] b(1)
    by (auto simp: small_free small_fs_tx sb_fs_boot)
qed

end
