(* ===== verification/Xv6_Dinode.thy ===== *)
theory Xv6_Dinode
  imports Xv6_Alloc
begin

text \<open>
  Inodes between memory and disk: the encoding of \<^verbatim>\<open>struct dinode\<close>, and what \<^verbatim>\<open>iupdate\<close> and \<^verbatim>\<open>ilock\<close> of
  \<^verbatim>\<open>kernel/fs.c\<close> write and read.
\<close>

section \<open>Encoding\<close>

lemma get_le_put_other:
  assumes "off + length xs \<le> k \<or> k + n \<le> off" "off + length xs \<le> length d"
  shows "get_le n (put_bytes d off xs) k = (get_le n d k :: 'b::len word)"
proof -
  have "take n (drop k (put_bytes d off xs)) = take n (drop k d)"
  proof (rule nth_equalityI)
    show "length (take n (drop k (put_bytes d off xs))) = length (take n (drop k d))" using assms by simp
    fix i assume "i < length (take n (drop k (put_bytes d off xs)))"
    then show "take n (drop k (put_bytes d off xs)) ! i = take n (drop k d) ! i"
      using assms by (auto simp: put_bytes_def nth_append)
  qed
  then show ?thesis by (simp add: get_le_def)
qed

lemma get_dinode_bytes:
  assumes "length (d_addrs di) = 13"
  shows "get_dinode (dinode_bytes di) 0 = di"
proof -
  let ?a = "le_bytes 2 (d_type di)" and ?b = "le_bytes 2 (d_major di)" and ?c = "le_bytes 2 (d_minor di)" and ?e = "le_bytes 2 (d_nlink di)"
    and ?f = "le_bytes 4 (d_size di)" and ?g = "concat (map (\<lambda>w. le_bytes 4 w) (d_addrs di))"
  have "get_le 2 (dinode_bytes di) 0 = d_type di" "get_le 2 (dinode_bytes di) 2 = d_major di" "get_le 2 (dinode_bytes di) 4 = d_minor di"
    "get_le 2 (dinode_bytes di) 6 = d_nlink di" "get_le 4 (dinode_bytes di) 8 = d_size di"
    by (simp_all add: dinode_bytes_def get_le_def le_word_le_bytes)
  moreover have "get_le 4 (dinode_bytes di) (12 + 4 * k) = d_addrs di ! k" if "k < 13" for k
  proof -
    have "get_le 4 ((?a @ ?b @ ?c @ ?e @ ?f) @ ?g) (12 + 4 * k) = (get_le 4 ?g (4 * k) :: u32)" by (rule get_le_append2) simp
    then show ?thesis using that assms by (simp add: dinode_bytes_def get_le_concat)
  qed
  then have "map (\<lambda>k. get_le 4 (dinode_bytes di) (12 + 4 * k)) [0..<13] = d_addrs di"
    using assms by (intro nth_equalityI) simp_all
  ultimately show ?thesis by (simp add: get_dinode_def NDIRECT_def numeral_2_eq_2)
qed

lemma get_put_dinode:
  assumes "length (d_addrs di) = 13" "off + 64 \<le> length d"
  shows "get_dinode (put_dinode d off di) off = di"
proof -
  let ?x = "dinode_bytes di"
  have l: "length ?x = 64" using assms(1) by (rule length_dinode_bytes)
  note g = get_le_put[of off ?x d]
  have "get_le 2 (put_bytes d off ?x) (off + k) = (get_le 2 ?x k :: u16)" if "k \<le> 8" for k using g[of k 2] that l assms(2) by simp
  moreover have "get_le 4 (put_bytes d off ?x) (off + k) = (get_le 4 ?x k :: u32)" if "k \<le> 60" for k
    using g[of k 4] that l assms(2) by simp
  moreover have "get_le 2 (put_bytes d off ?x) off = (get_le 2 ?x 0 :: u16)" using g[of 0 2] l assms(2) by simp
  moreover have "get_le 2 (put_bytes d off ?x) (Suc (Suc off)) = (get_le 2 ?x (Suc (Suc 0)) :: u16)"
    using g[of 2 2] l assms(2) by (simp add: numeral_2_eq_2)
  ultimately have "get_dinode (put_dinode d off di) off = get_dinode ?x 0"
    by (simp add: get_dinode_def put_dinode_def NDIRECT_def add.assoc)
  then show ?thesis using get_dinode_bytes[OF assms(1)] by simp
qed

lemma get_put_dinode_other:
  assumes "length (d_addrs di) = 13" "off + 64 \<le> length d" "off + 64 \<le> off' \<or> off' + 64 \<le> off"
  shows "get_dinode (put_dinode d off di) off' = get_dinode d off'"
proof -
  let ?x = "dinode_bytes di"
  have l: "length ?x = 64" using assms(1) by (rule length_dinode_bytes)
  have g2: "get_le 2 (put_bytes d off ?x) (off' + k) = (get_le 2 d (off' + k) :: u16)" if "k \<le> 8" for k
    by (rule get_le_put_other) (use that l assms in auto)
  have g4: "get_le 4 (put_bytes d off ?x) (off' + k) = (get_le 4 d (off' + k) :: u32)" if "k \<le> 60" for k
    by (rule get_le_put_other) (use that l assms in auto)
  show ?thesis
    using g2[of 0] g2[of 2] g2[of 4] g2[of 6] g4[of 8] g4
    by (simp add: get_dinode_def put_dinode_def NDIRECT_def add.assoc)
qed

section \<open>Where an inode is\<close>

definition disk_inode :: "'a fsst_scheme \<Rightarrow> u32 \<Rightarrow> dinode" where
  "disk_inode s inum = get_dinode (blk s (IBLOCK inum (sb s))) (dinode_off inum)"

lemma dinode_off_bound: "dinode_off inum + 64 \<le> BSIZE"
proof -
  have "unat inum mod 16 < 16" by simp
  then show ?thesis unfolding dinode_off_def by (simp add: IPB_def BSIZE_def)
qed

lemma unat_IBLOCK:
  assumes "layout_ok k" "unat inum < unat (sb_ninodes k)"
  shows "unat (IBLOCK inum k) = unat inum div 16 + unat (sb_inodestart k)" "unat (IBLOCK inum k) < unat (sb_bmapstart k)"
    "IBLOCK inum k \<notin> log_region (sb_logstart k)"
proof -
  have "unat inum div 16 \<le> unat (sb_ninodes k) div 16" using assms(2) by (intro div_le_mono) simp
  then have b: "unat inum div 16 + unat (sb_inodestart k) < unat (sb_bmapstart k)"
    using assms(1) by (simp add: layout_ok_def IPB_def BSIZE_def)
  have "unat (inum div of_nat IPB) = unat inum div 16" by (simp add: unat_div IPB_def BSIZE_def)
  then show u: "unat (IBLOCK inum k) = unat inum div 16 + unat (sb_inodestart k)"
    using b unsigned_less[where 'a = nat, of "sb_bmapstart k"] by (simp add: IBLOCK_def unat_add_lem[THEN iffD1])
  show "unat (IBLOCK inum k) < unat (sb_bmapstart k)" using u b by simp
  show "IBLOCK inum k \<notin> log_region (sb_logstart k)" using u assms(1) by (simp add: log_region_def layout_ok_def)
qed

lemma dinode_disjoint:
  assumes "layout_ok k" "unat i < unat (sb_ninodes k)" "unat j < unat (sb_ninodes k)" "i \<noteq> j"
  shows "IBLOCK i k \<noteq> IBLOCK j k \<or> dinode_off i + 64 \<le> dinode_off j \<or> dinode_off j + 64 \<le> dinode_off i"
proof (cases "unat i div 16 = unat j div 16")
  case True
  then have "unat i mod 16 \<noteq> unat j mod 16" using assms(4) by (metis div_mult_mod_eq word_unat_eq_iff)
  then show ?thesis by (auto simp: dinode_off_def IPB_def BSIZE_def)
next
  case False
  then show ?thesis using unat_IBLOCK(1)[OF assms(1)] assms(2,3) by (metis add_right_imp_eq)
qed

section \<open>Inodes in memory\<close>

lemma upd_inode_fields [simp]:
  "bufs (upd_inode i f s) = bufs s" "disk (upd_inode i f s) = disk s" "dwrites (upd_inode i f s) = dwrites s" "lg (upd_inode i f s) = lg s"
  "bhead_next (upd_inode i f s) = bhead_next s" "bhead_prev (upd_inode i f s) = bhead_prev s" "procs (upd_inode i f s) = procs s"
  "curproc (upd_inode i f s) = curproc s" "sb (upd_inode i f s) = sb s" "itable (upd_inode i f s) = (itable s)[i := f (itable s ! i)]"
  by (simp_all add: upd_inode_def)

lemma tx_inv_upd_inode [simp]: "tx_inv (upd_inode i f s) bs H pid = tx_inv s bs H pid" "blk (upd_inode i f s) = blk s"
proof -
  have "ring_of (upd_inode i f s) xs = ring_of s xs" for xs by (rule ring_cong) simp_all
  then show "tx_inv (upd_inode i f s) bs H pid = tx_inv s bs H pid"
    by (simp add: tx_inv_def bc_inv_def lru_def cur_ok_def holds_blk_def split: option.split)
  show "blk (upd_inode i f s) = blk s" by (rule blk_cong) simp_all
qed

lemma free_blk_upd_inode [simp]: "free_blk (upd_inode i f s) = free_blk s" "fs_inv (upd_inode i f s) = fs_inv s"
proof -
  show f: "free_blk (upd_inode i f s) = free_blk s" by (rule free_blk_cong) simp_all
  show "fs_inv (upd_inode i f s) = fs_inv s" by (simp add: fs_inv_def f)
qed

lemma lock_inode_free:
  assumes "tx_inv s bs H pid" "\<not> slk_locked (i_lock (itable s ! i))"
  shows "lock_inode i s = Inr (upd_inode i (\<lambda>x. x\<lparr>i_lock := \<lparr>slk_locked = True, slk_pid = pid\<rparr>\<rparr>) s)"
  using assms bc_invD(3)[of s "set bs" H pid]
  by (auto simp: tx_inv_def lock_inode_def acquiresleep_def cur_ok_def split: option.splits)

text \<open>Changing blocks of metadata does not free a block.\<close>

lemma fs_inv_meta:
  assumes "fs_inv s" "sb s' = sb s" "lg s' = lg s \<or> l_start (lg s') = l_start (lg s)"
    and "\<And>n. unat (sb_bmapstart (sb s)) \<le> unat n \<Longrightarrow> unat n < nmeta (sb s) \<Longrightarrow> blk s' n = blk s n"
  shows "fs_inv s'" "free_blk s' = free_blk s"
proof -
  have lay: "layout_ok (sb s)" using assms(1) by (simp add: fs_inv_def)
  have "free_blk s' b = free_blk s b" for b
  proof (cases "b < unat (sb_size (sb s))")
    case True
    then have "b < nbitmap (sb s) * BPB" using size_bitmap[of "sb s"] by simp
    from assms(4)[OF _ unat_BBLOCK(2)[OF lay this]] unat_BBLOCK(1)[OF lay this] show ?thesis
      by (simp add: free_blk_def assms(2))
  qed (simp add: free_blk_def assms(2))
  then show "free_blk s' = free_blk s" by blast
  then show "fs_inv s'" using assms(1-3) by (auto simp: fs_inv_def)
qed

lemma iupdate_spec:
  assumes inv: "tx_inv s bs {} pid" and fs: "fs_inv s" and room: "length bs < NBUF"
    and ip: "i_dev (itable s ! i) = ROOTDEV" "unat (i_inum (itable s ! i)) < unat (sb_ninodes (sb s))" "length (i_addrs (itable s ! i)) = 13"
  obtains s' where "iupdate i s = Inr s'" "tx_inv s' (logged (IBLOCK (i_inum (itable s ! i)) (sb s)) bs) {} pid" "fs_inv s'" "tx_frame s s'"
    "free_blk s' = free_blk s" "disk_inode s' (i_inum (itable s ! i)) = to_dinode (itable s ! i)"
    "\<And>j. unat j < unat (sb_ninodes (sb s)) \<Longrightarrow> j \<noteq> i_inum (itable s ! i) \<Longrightarrow> disk_inode s' j = disk_inode s j"
    "\<And>n. n \<noteq> IBLOCK (i_inum (itable s ! i)) (sb s) \<Longrightarrow> blk s' n = blk s n"
proof -
  let ?ip = "itable s ! i" and ?k = "IBLOCK (i_inum (itable s ! i)) (sb s)" and ?o = "dinode_off (i_inum (itable s ! i))"
  have lay: "layout_ok (sb s)" and st: "l_start (lg s) = sb_logstart (sb s)" using fs by (simp_all add: fs_inv_def)
  note k = unat_IBLOCK[OF lay ip(2)]
  have len: "length (blk s ?k) = BSIZE" by (rule tx_blk_length[OF inv])
  have lb: "length (put_dinode (blk s ?k) ?o (to_dinode ?ip)) = BSIZE"
    using len ip(3) dinode_off_bound[of "i_inum ?ip"] by (simp add: put_dinode_def length_dinode_bytes to_dinode_def)
  obtain b s1 s2 s3 where r: "bread ROOTDEV ?k s = Inr (b, s1)" "data_of s1 b = blk s ?k" "tx_frame s s1"
    "log_write b (set_data b (put_dinode (data_of s1 b) ?o (to_dinode ?ip)) s1) = Inr s2" "brelse b s2 = Inr s3"
    "tx_inv s3 (logged ?k bs) {} pid" "blk s3 = (blk s)(?k := put_dinode (blk s ?k) ?o (to_dinode ?ip))" "tx_frame s s3"
    by (rule tx_update[OF inv, of ?k "\<lambda>d. put_dinode d ?o (to_dinode ?ip)"]) (use room k(3) st lb in auto)
  have f: "itable s1 = itable s" "sb s3 = sb s" "l_start (lg s3) = l_start (lg s)"
    using tx_frame_fields[OF r(3)] tx_frame_fields[OF r(8)] by auto
  have e: "iupdate i s = Inr s3" using r(1,4,5) f(1) ip(1) by (simp add: iupdate_def Let_def)
  have g: "fs_inv s3" "free_blk s3 = free_blk s" by (rule fs_inv_meta[OF fs f(2) disjI2[OF f(3)]]; use k(2) r(7) in auto)+
  have a13: "length (d_addrs (to_dinode ?ip)) = 13" using ip(3) by (simp add: to_dinode_def)
  have d: "disk_inode s3 (i_inum ?ip) = to_dinode ?ip"
    using get_put_dinode[OF a13, of ?o "blk s ?k"] len dinode_off_bound[of "i_inum ?ip"] by (simp add: disk_inode_def f(2) r(7))
  have "disk_inode s3 j = disk_inode s j" if "unat j < unat (sb_ninodes (sb s))" "j \<noteq> i_inum ?ip" for j
    using get_put_dinode_other[OF a13, of ?o "blk s ?k" "dinode_off j"] dinode_disjoint[OF lay ip(2) that(1)] that(2) len
      dinode_off_bound[of "i_inum ?ip"] by (auto simp: disk_inode_def f(2) r(7))
  from that[OF e r(6) g(1) r(8) g(2) d this] show ?thesis using r(7) by simp
qed

lemma ilock_spec:
  assumes inv: "tx_inv s bs {} pid" and fs: "fs_inv s" and room: "length bs < NBUF" and i: "i < length (itable s)"
    and ip: "i_dev (itable s ! i) = ROOTDEV" "unat (i_inum (itable s ! i)) < unat (sb_ninodes (sb s))" "1 \<le> i_ref (itable s ! i)"
      "\<not> slk_locked (i_lock (itable s ! i))" "\<not> i_valid (itable s ! i)"
    and di: "disk_inode s (i_inum (itable s ! i)) = di" "d_type di \<noteq> 0"
  obtains s' where "ilock (Some i) s = Inr s'" "tx_inv s' bs {} pid" "fs_inv s'" "blk s' = blk s" "sb s' = sb s"
    "itable s' = (itable s)[i := (itable s ! i)\<lparr>i_lock := \<lparr>slk_locked = True, slk_pid = pid\<rparr>, i_type := d_type di,
       i_major := d_major di, i_minor := d_minor di, i_nlink := d_nlink di, i_size := d_size di, i_addrs := d_addrs di, i_valid := True\<rparr>]"
proof -
  let ?ip = "itable s ! i" and ?k = "IBLOCK (i_inum (itable s ! i)) (sb s)" and ?o = "dinode_off (i_inum (itable s ! i))"
  let ?l = "\<lambda>x. x\<lparr>i_lock := \<lparr>slk_locked = True, slk_pid = pid\<rparr>\<rparr>"
    and ?g = "\<lambda>ip. ip\<lparr>i_type := d_type di, i_major := d_major di, i_minor := d_minor di, i_nlink := d_nlink di, i_size := d_size di, i_addrs := d_addrs di\<rparr>"
  define s1 where "s1 = upd_inode i ?l s"
  have i1: "tx_inv s1 bs {} pid" "itable s1 ! i = ?l ?ip" "blk s1 = blk s" "sb s1 = sb s" "length (itable s1) = length (itable s)"
    using inv i by (simp_all add: s1_def)
  obtain b s2 where r: "bread ROOTDEV ?k s1 = Inr (b, s2)" "tx_inv s2 bs {b} pid" "num s2 b = ?k" "data_of s2 b = blk s1 ?k" "blk s2 = blk s1" "tx_frame s1 s2"
    by (rule tx_read[OF i1(1), of ?k]) (use room in auto)
  have f2: "itable s2 = itable s1" "sb s2 = sb s" "l_start (lg s2) = l_start (lg s)" "disk s2 = disk s"
    using tx_frame_fields[OF r(6)] i1(4) by (auto simp: s1_def)
  have cl: "?k \<in> set bs \<or> data_of s2 b = disk s2 ?k" using tx_clean[OF i1(1), of ?k] r(4) f2(4) i1(3) by (simp add: s1_def)
  obtain s3 where x: "brelse b (upd_inode i ?g s2) = Inr s3" "tx_inv s3 bs {} pid" "blk s3 = blk s2" "tx_frame (upd_inode i ?g s2) s3"
    by (rule tx_release[of "upd_inode i ?g s2" bs "{b}" pid b]) (use r(2,3) cl in auto)
  have f3: "itable s3 = (itable s1)[i := ?g (?l ?ip)]" "sb s3 = sb s" "l_start (lg s3) = l_start (lg s)"
    using tx_frame_fields[OF x(4)] f2 i1(2) by auto
  have e: "ilock (Some i) s = Inr (upd_inode i (\<lambda>ip. ip\<lparr>i_valid := True\<rparr>) s3)"
    using ip lock_inode_free[OF inv ip(4)] i1(2-5) r(1,4) x(1) f3(1) di i
    by (simp add: ilock_def s1_def[symmetric] disk_inode_def Let_def)
  have "fs_inv s3" "free_blk s3 = free_blk s" using fs free_blk_cong[of s3 s] f3 x(3) r(5) i1(3) by (auto simp: fs_inv_def)
  then show ?thesis
    by (intro that[OF e]) (use x(2,3) r(5) i1(3) f3(1,2) i in \<open>simp_all add: s1_def\<close>)
qed

text \<open>The small file system with its file, locked by process 3, in entry 0 of the inode table.\<close>

definition small_ip :: inode where
  "small_ip = \<lparr>i_dev = ROOTDEV, i_inum = 2, i_ref = 1, i_lock = \<lparr>slk_locked = True, slk_pid = 3\<rparr>, i_valid = True, i_type = T_FILE,
     i_major = 0, i_minor = 0, i_nlink = 1, i_size = 5, i_addrs = 48 # replicate 12 0\<rparr>"

definition small_open :: fsst where
  "small_open = upd_inode 0 (\<lambda>_. small_ip) small_fs"

lemma small_open_facts: "tx_inv small_open [] {} 3" "fs_inv small_open" "itable small_open ! 0 = small_ip" "0 < length (itable small_open)"
  "blk small_open = small_disk" "sb small_open = sb fs_boot" "free_blk small_open = free_blk small_fs"
proof -
  have l: "length (itable fs_boot) = 50" by (simp add: fs_boot_def const.defs)
  then have "itable fs_boot \<noteq> []" by auto
  then show "tx_inv small_open [] {} 3" "fs_inv small_open" "itable small_open ! 0 = small_ip" "0 < length (itable small_open)"
    "blk small_open = small_disk" "sb small_open = sb fs_boot" "free_blk small_open = free_blk small_fs"
    using l by (simp_all add: small_open_def small_fs_tx small_fs_inv)
qed

section \<open>Properties\<close>

text \<open>
  C28. An inode survives its trip to the disk: after \<^verbatim>\<open>iupdate\<close>, whatever entry \<open>g\<close> of the inode table
  then refers to the inode without a valid copy, \<^verbatim>\<open>ilock\<close> gives it the type, device numbers, link
  count, size and block addresses that were stored; the inodes that share the block keep theirs.
\<close>

theorem iupdate_ilock_round_trip:
  assumes inv: "tx_inv s bs {} pid" and fs: "fs_inv s" and room: "length bs + 1 < NBUF" and i: "i < length (itable s)"
    and ip: "i_dev (itable s ! i) = ROOTDEV" "unat (i_inum (itable s ! i)) < unat (sb_ninodes (sb s))" "length (i_addrs (itable s ! i)) = 13"
      "i_type (itable s ! i) \<noteq> 0"
    and g: "i_dev g = ROOTDEV" "i_inum g = i_inum (itable s ! i)" "1 \<le> i_ref g" "\<not> slk_locked (i_lock g)" "\<not> i_valid g"
  shows "\<exists>s1 s2. iupdate i s = Inr s1 \<and> ilock (Some i) (upd_inode i (\<lambda>_. g) s1) = Inr s2 \<and>
    to_dinode (itable s2 ! i) = to_dinode (itable s ! i) \<and> i_valid (itable s2 ! i) \<and> blk s2 = blk s1 \<and>
    (\<forall>j. unat j < unat (sb_ninodes (sb s)) \<and> j \<noteq> i_inum g \<longrightarrow> disk_inode s2 j = disk_inode s j)"
proof -
  let ?ip = "itable s ! i"
  obtain s1 where u: "iupdate i s = Inr s1" "tx_inv s1 (logged (IBLOCK (i_inum ?ip) (sb s)) bs) {} pid" "fs_inv s1" "tx_frame s s1"
    "disk_inode s1 (i_inum ?ip) = to_dinode ?ip" "\<And>j. unat j < unat (sb_ninodes (sb s)) \<Longrightarrow> j \<noteq> i_inum ?ip \<Longrightarrow> disk_inode s1 j = disk_inode s j"
    by (rule iupdate_spec[OF inv fs _ ip(1-3)]) (use room in auto)
  let ?z = "upd_inode i (\<lambda>_. g) s1"
  have f: "itable s1 = itable s" "sb s1 = sb s" using tx_frame_fields[OF u(4)] by auto
  have z: "itable ?z ! i = g" "disk_inode ?z = disk_inode s1" "i < length (itable ?z)" using f i by (simp_all add: disk_inode_def fun_eq_iff)
  have c: "tx_inv ?z (logged (IBLOCK (i_inum ?ip) (sb s)) bs) {} pid" "fs_inv ?z" "length (logged (IBLOCK (i_inum ?ip) (sb s)) bs) < NBUF"
    using u(2,3) room by (simp_all add: length_logged)
  obtain s2 where l: "ilock (Some i) ?z = Inr s2" "blk s2 = blk ?z" "sb s2 = sb ?z"
    "itable s2 = (itable ?z)[i := g\<lparr>i_lock := \<lparr>slk_locked = True, slk_pid = pid\<rparr>, i_type := i_type ?ip,
       i_major := i_major ?ip, i_minor := i_minor ?ip, i_nlink := i_nlink ?ip, i_size := i_size ?ip, i_addrs := i_addrs ?ip, i_valid := True\<rparr>]"
    by (rule ilock_spec[OF c z(3), of "to_dinode ?ip"]) (use g f ip u(5) z in \<open>simp_all add: to_dinode_def\<close>)
  show ?thesis using u(1,6) l g(2) i f by (auto simp: to_dinode_def disk_inode_def)
qed

theorem iupdate_ilock_round_trip_witness:
  "let s = upd_inode 0 (\<lambda>ip. ip\<lparr>i_nlink := 7, i_size := 3\<rparr>) small_open;
       g = \<lparr>i_dev = ROOTDEV, i_inum = 2, i_ref = 1, i_lock = \<lparr>slk_locked = False, slk_pid = 0\<rparr>, i_valid = False, i_type = 0,
         i_major = 0, i_minor = 0, i_nlink = 0, i_size = 0, i_addrs = []\<rparr>
   in \<exists>s1 s2. iupdate 0 s = Inr s1 \<and> ilock (Some 0) (upd_inode 0 (\<lambda>_. g) s1) = Inr s2 \<and>
        i_nlink (itable s2 ! 0) = 7 \<and> i_size (itable s2 ! 0) = 3 \<and> i_addrs (itable s2 ! 0) = 48 # replicate 12 0"
proof -
  let ?s = "upd_inode 0 (\<lambda>ip. ip\<lparr>i_nlink := 7, i_size := 3\<rparr>) small_open"
  have "0 < length (itable ?s)" "itable ?s ! 0 = small_ip\<lparr>i_nlink := 7, i_size := 3\<rparr>" using small_open_facts(3,4) by simp_all
  with iupdate_ilock_round_trip[of ?s "[]" 3 0 "\<lparr>i_dev = ROOTDEV, i_inum = 2, i_ref = 1, i_lock = \<lparr>slk_locked = False, slk_pid = 0\<rparr>,
      i_valid = False, i_type = 0, i_major = 0, i_minor = 0, i_nlink = 0, i_size = 0, i_addrs = []\<rparr>"]
  show ?thesis
    by (auto simp: small_open_facts small_ip_def sb_fs_boot NBUF_def MAXOPBLOCKS_def T_FILE_def to_dinode_def Let_def)
qed

end
