(* ===== verification/Xv6_Bmap.thy ===== *)
theory Xv6_Bmap
  imports Xv6_Dinode
begin

text \<open>
  The blocks of a file: \<^verbatim>\<open>bmap\<close> of \<^verbatim>\<open>kernel/fs.c\<close> against the map from block numbers of the file to disk
  blocks that the direct addresses and the indirect block make up.
\<close>

section \<open>The map of a file\<close>

definition indirect :: "inode \<Rightarrow> u32" where
  "indirect ip = i_addrs ip ! NDIRECT"

definition file_map :: "'a fsst_scheme \<Rightarrow> inode \<Rightarrow> nat \<Rightarrow> u32" where
  "file_map s ip bn =
     (if bn < NDIRECT then i_addrs ip ! bn
      else if indirect ip = 0 then 0 else get_le 4 (blk s (indirect ip)) (4 * (bn - NDIRECT)))"

definition data_blk :: "'a fsst_scheme \<Rightarrow> u32 \<Rightarrow> bool" where
  "data_blk s a \<longleftrightarrow> nmeta (sb s) \<le> unat a \<and> unat a < unat (sb_size (sb s)) \<and> \<not> free_blk s (unat a)"

text \<open>The blocks of a file are data blocks in use, and no two of them are the same.\<close>

definition inode_ok :: "'a fsst_scheme \<Rightarrow> inode \<Rightarrow> bool" where
  "inode_ok s ip \<longleftrightarrow> length (i_addrs ip) = 13 \<and> (indirect ip \<noteq> 0 \<longrightarrow> data_blk s (indirect ip)) \<and>
     (\<forall>m < MAXFILE. file_map s ip m \<noteq> 0 \<longrightarrow> data_blk s (file_map s ip m) \<and> file_map s ip m \<noteq> indirect ip \<and>
        (\<forall>m' < MAXFILE. file_map s ip m' = file_map s ip m \<longrightarrow> m' = m))"

definition fblocks :: "'a fsst_scheme \<Rightarrow> inode \<Rightarrow> u32 set" where
  "fblocks s ip = insert (indirect ip) (file_map s ip ` {..<MAXFILE})"

text \<open>Data blocks in use stay as they are, the exceptions being \<open>X\<close>.\<close>

definition keeps :: "u32 set \<Rightarrow> 'a fsst_scheme \<Rightarrow> 'a fsst_scheme \<Rightarrow> bool" where
  "keeps X s s' \<longleftrightarrow> sb s' = sb s \<and> (\<forall>n. data_blk s n \<longrightarrow> data_blk s' n \<and> (n \<notin> X \<longrightarrow> blk s' n = blk s n)) \<and>
     (\<forall>b. free_blk s' b \<longrightarrow> free_blk s b)"

lemma keeps_refl [simp]: "keeps X s s"
  by (simp add: keeps_def)

lemma keeps_trans: "keeps X s s1 \<Longrightarrow> keeps Y s1 s2 \<Longrightarrow> keeps (X \<union> Y) s s2"
  by (auto simp: keeps_def)

lemma keeps_same: "blk s' = blk s \<Longrightarrow> sb s' = sb s \<Longrightarrow> keeps X s s'"
  using free_blk_cong[of s' s] by (simp add: keeps_def data_blk_def)

lemma data_blk_upd_inode [simp]: "data_blk (upd_inode i f s) = data_blk s" "file_map (upd_inode i f s) = file_map s"
  "inode_ok (upd_inode i f s) = inode_ok s" "keeps X s (upd_inode i f s') = keeps X s s'" "keeps X (upd_inode i f s) s' = keeps X s s'"
  "fblocks (upd_inode i f s) = fblocks s"
  by (simp_all add: fblocks_def data_blk_def file_map_def inode_ok_def keeps_def fun_eq_iff)

lemma keeps_map:
  assumes "keeps X s s'" "inode_ok s ip" "indirect ip \<notin> X"
  shows "file_map s' ip m = file_map s ip m" "inode_ok s' ip" "fblocks s' ip = fblocks s ip"
proof -
  have f: "file_map s' ip m = file_map s ip m" for m
    using assms by (auto simp: file_map_def inode_ok_def keeps_def)
  then show "file_map s' ip m = file_map s ip m" .
  show "inode_ok s' ip" using assms f by (auto simp: inode_ok_def keeps_def)
  show "fblocks s' ip = fblocks s ip" using f by (simp add: fblocks_def)
qed

lemma inode_ok_extend:
  assumes ok: "inode_ok s ip" and k: "\<And>n. data_blk s n \<Longrightarrow> data_blk s' n" and a: "data_blk s' a" "\<not> data_blk s a"
    and m: "\<And>m. m < MAXFILE \<Longrightarrow> file_map s' ip' m = (if m = bn then a else file_map s ip m)"
    and ip': "indirect ip' = indirect ip" "length (i_addrs ip') = 13"
  shows "inode_ok s' ip'"
proof -
  have o: "data_blk s (file_map s ip m) \<and> file_map s ip m \<noteq> indirect ip \<and> (\<forall>m' < MAXFILE. file_map s ip m' = file_map s ip m \<longrightarrow> m' = m)"
    if "m < MAXFILE" "file_map s ip m \<noteq> 0" for m using ok that by (simp add: inode_ok_def)
  have n: "a \<noteq> file_map s ip m" if "m < MAXFILE" "file_map s ip m \<noteq> 0" for m using o[OF that] a(2) by auto
  have i: "indirect ip \<noteq> 0 \<Longrightarrow> data_blk s (indirect ip)" using ok by (simp add: inode_ok_def)
  have "data_blk s' (file_map s' ip' j) \<and> file_map s' ip' j \<noteq> indirect ip' \<and> (\<forall>j' < MAXFILE. file_map s' ip' j' = file_map s' ip' j \<longrightarrow> j' = j)"
    if j: "j < MAXFILE" "file_map s' ip' j \<noteq> 0" for j
  proof (cases "j = bn")
    case True
    then have v: "file_map s' ip' j = a" "a \<noteq> 0" using m[OF j(1)] j(2) by auto
    have "j' = j" if "j' < MAXFILE" "file_map s' ip' j' = a" for j'
      using m[OF that(1)] that n[OF that(1)] v(2) True by (auto split: if_splits)
    moreover have "a \<noteq> indirect ip" using i a(2) v(2) by (cases "indirect ip = 0") auto
    ultimately show ?thesis using v a(1) ip'(1) by simp
  next
    case False
    then have v: "file_map s' ip' j = file_map s ip j" "file_map s ip j \<noteq> 0" using m[OF j(1)] j(2) by auto
    have "j' = j" if "j' < MAXFILE" "file_map s' ip' j' = file_map s ip j" for j'
      using m[OF that(1)] that n[OF j(1) v(2)] o[OF j(1) v(2)] by (auto split: if_splits)
    then show ?thesis using o[OF j(1) v(2)] k v(1) ip'(1) by simp
  qed
  then show ?thesis using i k ip' by (simp add: inode_ok_def)
qed

lemma data_blk_pos: "fs_inv s \<Longrightarrow> data_blk s a \<Longrightarrow> a \<noteq> 0"
  by (auto simp: fs_inv_def layout_ok_def data_blk_def nmeta_def)

lemma data_blk_log: "fs_inv s \<Longrightarrow> data_blk s a \<Longrightarrow> a \<notin> log_region (l_start (lg s))"
  by (auto simp: fs_inv_def layout_ok_def data_blk_def nmeta_def log_region_def)

section \<open>A block from the allocator\<close>

lemma balloc_cases:
  assumes inv: "tx_inv s bs H pid" and fs: "fs_inv s" and held: "held_data s H" and room: "length bs + card H + 1 < NBUF"
  obtains a s' bs' where "balloc ROOTDEV s = Inr (a, s')" "tx_inv s' bs' H pid" "fs_inv s'" "length bs' \<le> length bs + 2" "set bs \<subseteq> set bs'"
    "tx_frame s s'" "keeps {} s s'" "a = 0 \<Longrightarrow> blk s' = blk s \<and> (\<forall>b. \<not> free_blk s' b)"
    "a \<noteq> 0 \<Longrightarrow> data_blk s' a \<and> \<not> data_blk s a \<and> blk s' a = replicate BSIZE 0" "\<And>i. i \<in> H \<Longrightarrow> num s' i = num s i \<and> data_of s' i = data_of s i"
proof (cases "find (free_blk s) [0..<unat (sb_size (sb s))]")
  case None
  then have no: "\<not> free_blk s c" for c by (auto simp: find_None_iff free_blk_def)
  from None balloc_spec[OF assms] obtain s' where s': "balloc ROOTDEV s = Inr (0, s')" "tx_inv s' bs H pid" "tx_frame s s'" "blk s' = blk s"
    "\<forall>i \<in> H. num s' i = num s i \<and> data_of s' i = data_of s i" by auto
  note f = tx_frame_fields[OF s'(3)]
  have g: "free_blk s' = free_blk s" by (rule free_blk_cong[OF s'(4) f(1)])
  show ?thesis
    by (rule that[OF s'(1,2) _ _ _ s'(3) keeps_same[OF s'(4) f(1)]]) (use s' no g f fs in \<open>auto simp: fs_inv_def\<close>)
next
  case (Some b)
  then have fr: "free_blk s b" by (auto dest: find_SomeD)
  from Some balloc_spec[OF assms] obtain s' where s': "balloc ROOTDEV s = Inr (of_nat b, s')" "takes_block b s bs H pid s'" by auto
  note t = takes_block_facts[OF inv fs fr s'(2)]
  let ?bs = "logged (of_nat b) (logged (BBLOCK (of_nat b) (sb s)) bs)"
  have w: "tx_inv s' ?bs H pid" "tx_frame s s'" "\<forall>i \<in> H. num s' i = num s i \<and> data_of s' i = data_of s i"
    using s'(2) by (simp_all add: takes_block_def)
  have sb: "sb s' = sb s" by (rule tx_frame_fields(1)[OF w(2)])
  have "keeps {} s s'" using t(1,3,5) fr sb by (fastforce simp: keeps_def data_blk_def)
  moreover have "data_blk s' (of_nat b)" "\<not> data_blk s (of_nat b)" using t fr sb by (auto simp: data_blk_def free_blk_def)
  moreover have "(of_nat b :: u32) \<noteq> 0" using data_blk_pos[OF t(2)] calculation(2) by blast
  ultimately show ?thesis
    by (intro that[OF s'(1) w(1) t(2) _ _ w(2)]) (use w(3) t(7) in \<open>auto simp: length_logged\<close>)
qed

section \<open>The second level\<close>

text \<open>The part of \<^verbatim>\<open>bmap\<close> behind the indirect block \<open>addr\<close>, for the entry \<open>k\<close> in it.\<close>

definition ind_slot :: "nat \<Rightarrow> u32 \<Rightarrow> nat \<Rightarrow> 'a fsst_scheme \<Rightarrow> (u32 \<times> 'a fsst_scheme) res" where
  "ind_slot i addr k s =
     andthen (bread (i_dev (itable s ! i)) addr s) (\<lambda>(bp, s2).
       let a = get_le 4 (data_of s2 bp) (4 * k) in
       if a = 0 then
         andthen (balloc (i_dev (itable s2 ! i)) s2) (\<lambda>(a, s3).
         andthen (if a \<noteq> 0 then log_write bp (set_data bp (put_le 4 (data_of s3 bp) (4 * k) a) s3) else Inr s3)
           (\<lambda>s4. andthen (brelse bp s4) (\<lambda>s5. Inr (a, s5))))
       else andthen (brelse bp s2) (\<lambda>s3. Inr (a, s3)))"

lemma andthen_assoc: "andthen (andthen r f) g = andthen r (\<lambda>x. andthen (f x) g)"
  by (simp add: andthen_def split: sum.split)

lemma bmap_ind_slot:
  assumes "unat bn < MAXFILE"
  shows "bmap i bn s = (if unat bn < NDIRECT then
        let addr = i_addrs (itable s ! i) ! unat bn in
        if addr = 0 then
          andthen (balloc (i_dev (itable s ! i)) s) (\<lambda>(addr, s1).
            if addr = 0 then Inr (0, s1)
            else Inr (addr, upd_inode i (\<lambda>ip. ip\<lparr>i_addrs := (i_addrs ip)[unat bn := addr]\<rparr>) s1))
        else Inr (addr, s)
      else if indirect (itable s ! i) = 0 then
        andthen (balloc (i_dev (itable s ! i)) s) (\<lambda>(addr, s1).
          if addr = 0 then Inr (0, s1)
          else ind_slot i addr (unat bn - NDIRECT) (upd_inode i (\<lambda>ip. ip\<lparr>i_addrs := (i_addrs ip)[NDIRECT := addr]\<rparr>) s1))
      else ind_slot i (indirect (itable s ! i)) (unat bn - NDIRECT) s)"
proof (cases "unat bn < NDIRECT")
  case False
  then have "unat (bn - of_nat NDIRECT) = unat bn - NDIRECT" by (subst unat_sub) (simp_all add: NDIRECT_def word_le_nat_alt)
  then have u: "unat (bn - of_nat NDIRECT) = unat bn - NDIRECT" "unat bn - NDIRECT < NINDIRECT" using assms False by (simp_all add: MAXFILE_def)
  show ?thesis
  proof (cases "indirect (itable s ! i) = 0")
    case True
    then have a: "i_addrs (itable s ! i) ! NDIRECT = 0" by (simp add: indirect_def)
    show ?thesis
    proof -
      have "bmap i bn s = andthen (balloc (i_dev (itable s ! i)) s) (\<lambda>x. if fst x = 0 then Inr (0, snd x)
          else ind_slot i (fst x) (unat bn - NDIRECT) (upd_inode i (\<lambda>ip. ip\<lparr>i_addrs := (i_addrs ip)[NDIRECT := fst x]\<rparr>) (snd x)))"
        unfolding bmap_def using False a u
        by (simp add: Let_def andthen_assoc) (rule andthen_cong[OF refl], simp add: ind_slot_def Let_def split_beta u cong: if_cong)
      then show ?thesis using False True by (simp add: case_prod_unfold)
    qed
  next
    case False
    then show ?thesis using \<open>\<not> unat bn < NDIRECT\<close> u by (simp add: bmap_def ind_slot_def Let_def indirect_def cong: if_cong)
  qed
qed (simp add: bmap_def Let_def)

text \<open>What the second level does, for an inode that has an indirect block.\<close>

lemma get_put_entry:
  assumes "length d = BSIZE" "k < NINDIRECT" "j < NINDIRECT"
  shows "get_le 4 (put_le 4 d (4 * k) a) (4 * j) = (if j = k then a else (get_le 4 d (4 * j) :: u32))" "length (put_le 4 d (4 * k) a) = BSIZE"
proof -
  have "4 * k + 4 \<le> length d" using assms by (simp add: NINDIRECT_def BSIZE_def)
  then show "get_le 4 (put_le 4 d (4 * k) a) (4 * j) = (if j = k then a else (get_le 4 d (4 * j) :: u32))"
    using get_le_put[of "4 * k" "le_bytes 4 a" d 0 4, where 'b = 32] get_le_put_other[of "4 * k" "le_bytes 4 a" "4 * j" 4 d, where 'b = 32]
      \<open>4 * k + 4 \<le> length d\<close> by (cases j k rule: linorder_cases) (auto simp: put_le_def get_le_le_bytes)
  show "length (put_le 4 d (4 * k) a) = BSIZE" using assms \<open>4 * k + 4 \<le> length d\<close> by (simp add: put_le_def)
qed

lemma ind_slot_spec:
  assumes inv: "tx_inv s bs {} pid" and fs: "fs_inv s" and ok: "inode_ok s ip" and ind: "indirect ip \<noteq> 0" "i_dev (itable s ! i) = ROOTDEV"
    and bn: "NDIRECT \<le> bn" "bn < MAXFILE" and room: "length bs + 3 < NBUF"
  obtains a s' bs' where "ind_slot i (indirect ip) (bn - NDIRECT) s = Inr (a, s')" "tx_inv s' bs' {} pid" "fs_inv s'" "length bs' \<le> length bs + 3"
    "tx_frame s s'" "keeps {indirect ip} s s'" "inode_ok s' ip" "a = file_map s' ip bn"
    "\<And>m. m < MAXFILE \<Longrightarrow> m \<noteq> bn \<Longrightarrow> file_map s' ip m = file_map s ip m" "a = 0 \<Longrightarrow> \<forall>b. \<not> free_blk s' b"
    "file_map s ip bn \<noteq> 0 \<Longrightarrow> a = file_map s ip bn \<and> blk s' = blk s \<and> bs' = bs" "file_map s ip bn = 0 \<Longrightarrow> a \<noteq> 0 \<Longrightarrow> blk s' a = replicate BSIZE 0"
    "fblocks s' ip \<subseteq> fblocks s ip \<union> - Collect (data_blk s)"
proof -
  let ?d = "indirect ip" and ?k = "bn - NDIRECT"
  have k: "?k < NINDIRECT" using bn by (simp add: MAXFILE_def)
  have dd: "data_blk s ?d" using ok ind by (simp add: inode_ok_def)
  have fm: "file_map s ip bn = get_le 4 (blk s ?d) (4 * ?k)" using bn(1) ind(1) by (simp add: file_map_def)
  obtain bp s2 where r: "bread ROOTDEV ?d s = Inr (bp, s2)" "tx_inv s2 bs {bp} pid" "num s2 bp = ?d" "data_of s2 bp = blk s ?d" "blk s2 = blk s" "tx_frame s s2"
    by (rule tx_read[OF inv, of ?d]) (use room in auto)
  note f2 = tx_frame_fields[OF r(6)]
  have clean: "?d \<in> set bs \<or> blk s ?d = disk s ?d" using tx_clean[OF inv, of ?d] by simp
  have fs2: "fs_inv s2" "keeps {?d} s s2" "free_blk s2 = free_blk s"
    using fs f2 free_blk_cong[OF r(5) f2(1)] keeps_same[OF r(5) f2(1)] by (simp_all add: fs_inv_def)
  show ?thesis
  proof (cases "file_map s ip bn = 0")
    case False
    obtain s3 where x: "brelse bp s2 = Inr s3" "tx_inv s3 bs {} pid" "blk s3 = blk s2" "tx_frame s2 s3"
      by (rule tx_release[OF r(2), of bp]) (use r(3,4) clean f2(5) in auto)
    have e: "ind_slot i ?d ?k s = Inr (file_map s ip bn, s3)"
      using r(1,4) x(1) ind(2) False fm by (simp add: ind_slot_def Let_def)
    have fr: "tx_frame s s3" by (rule tx_frame_trans[OF r(6) x(4)])
    have b3: "blk s3 = blk s" using x(3) r(5) by simp
    note f3 = tx_frame_fields[OF fr]
    have K: "keeps {} s s3" by (rule keeps_same[OF b3 f3(1)])
    have "fs_inv s3" using fs f3 free_blk_cong[OF b3 f3(1)] by (simp add: fs_inv_def)
    then show ?thesis
      by (rule that[OF e x(2) _ _ fr keeps_same[OF b3 f3(1)]]) (use keeps_map[OF K ok] b3 False in auto)
  next
    case True
    have hd: "held_data s2 {bp}" using r(3) dd f2(1) fs2(3) by (simp add: held_data_def data_blk_def)
    obtain a s3 bs3 where al: "balloc ROOTDEV s2 = Inr (a, s3)" "tx_inv s3 bs3 {bp} pid" "fs_inv s3" "length bs3 \<le> length bs + 2" "set bs \<subseteq> set bs3"
      "tx_frame s2 s3" "keeps {} s2 s3" "a = 0 \<Longrightarrow> blk s3 = blk s2 \<and> (\<forall>b. \<not> free_blk s3 b)"
      "a \<noteq> 0 \<Longrightarrow> data_blk s3 a \<and> \<not> data_blk s2 a \<and> blk s3 a = replicate BSIZE 0" "num s3 bp = ?d" "data_of s3 bp = blk s ?d"
      by (rule balloc_cases[OF r(2) fs2(1) hd]) (use room r(3,4) in auto)
    note f3 = tx_frame_fields[OF al(6)]
    have d3: "data_blk s3 ?d" using al(7) dd fs2 f2(1) by (simp add: keeps_def data_blk_def)
    have ds: "data_blk s2 = data_blk s" using fs2(3) f2(1) by (simp add: data_blk_def fun_eq_iff)
    have K3: "keeps {} s s3" "data_blk s = data_blk s2" using al(7) ds f2(1) fs2(3) r(5) by (simp_all add: keeps_def)
    have len: "length (blk s ?d) = BSIZE" by (rule tx_blk_length[OF inv])
    let ?d' = "put_le 4 (data_of s3 bp) (4 * ?k) a"
    have ent: "get_le 4 ?d' (4 * j) = (if j = ?k then a else (get_le 4 (blk s ?d) (4 * j) :: u32))" "length ?d' = BSIZE" if "j < NINDIRECT" for j
      using get_put_entry[OF len k that] al(11) by simp_all
    show ?thesis
    proof (cases "a = 0")
      case a: True
      obtain s5 where x: "brelse bp s3 = Inr s5" "tx_inv s5 bs3 {} pid" "blk s5 = blk s3" "tx_frame s3 s5"
        by (rule tx_release[OF al(2), of bp]) (use al(5,10,11) clean f2(5) f3(5) in auto)
      have e: "ind_slot i ?d ?k s = Inr (0, s5)"
        using r(1,4) al(1) x(1) ind(2) f2(2) True fm a by (simp add: ind_slot_def Let_def)
      have fr: "tx_frame s s5" by (rule tx_frame_trans[OF tx_frame_trans[OF r(6) al(6)] x(4)])
      note f5 = tx_frame_fields[OF fr]
      have b5: "blk s5 = blk s" using x(3) al(8) a r(5) by simp
      have g5: "free_blk s5 = free_blk s3" using free_blk_cong[OF x(3)] tx_frame_fields(1)[OF x(4)] by simp
      have "fs_inv s5" using fs f5 free_blk_cong[OF b5 f5(1)] by (simp add: fs_inv_def)
      then show ?thesis
        by (rule that[OF e x(2) _ _ fr keeps_same[OF b5 f5(1)]])
          (use keeps_map[OF keeps_same[OF b5 f5(1), of "{}"] ok] al(4,8) a True g5 in auto)
    next
      case a: False
      obtain s4 where w: "log_write bp (set_data bp ?d' s3) = Inr s4" "tx_inv s4 (logged (num s3 bp) bs3) {bp} pid" "blk s4 = (blk s3)(num s3 bp := ?d')"
        "tx_frame s3 s4" "\<And>i. num s4 i = num s3 i \<and> data_of s4 i = (if i = bp then ?d' else data_of s3 i)"
        by (rule tx_write[OF al(2), of bp ?d'])
          (use ent(2)[OF k] al(4,10) data_blk_log[OF al(3) d3] room in \<open>auto simp: NBUF_def LOGBLOCKS_def\<close>)
      obtain s5 where x: "brelse bp s4 = Inr s5" "tx_inv s5 (logged ?d bs3) {} pid" "blk s5 = blk s4" "tx_frame s4 s5"
        by (rule tx_release[OF w(2), of bp]) (use al(10) w(5) in auto)
      have b5: "blk s5 = (blk s3)(?d := ?d')" using x(3) w(3) al(10) by simp
      have e: "ind_slot i ?d ?k s = Inr (a, s5)"
        using r(1,4) al(1) w(1) x(1) ind(2) f2(2) True fm a by (simp add: ind_slot_def Let_def)
      have fr: "tx_frame s3 s5" "tx_frame s s5"
        using tx_frame_trans[OF w(4) x(4)] tx_frame_trans[OF tx_frame_trans[OF r(6) al(6)]] by auto
      have g5: "fs_inv s5" "free_blk s5 = free_blk s3"
        by (rule fs_inv_meta[OF al(3)]; use b5 tx_frame_fields[OF fr(1)] d3 in \<open>auto simp: data_blk_def\<close>)+
      have d5: "data_blk s5 = data_blk s3" using g5(2) tx_frame_fields(1)[OF fr(1)] by (simp add: data_blk_def fun_eq_iff)
      have K: "keeps {?d} s s5" using K3 d5 g5(2) b5 tx_frame_fields(1)[OF fr(1)] by (simp add: keeps_def)
      have fm5: "file_map s5 ip m = (if m = bn then a else file_map s ip m)" if "m < MAXFILE" for m
        using ent(1)[of "m - NDIRECT"] that bn ind(1) b5 by (auto simp: file_map_def MAXFILE_def)
      have A: "data_blk s3 a" "\<not> data_blk s a" "blk s3 a = replicate BSIZE 0" using al(9) a ds by auto
      have B: "fblocks s5 ip \<subseteq> fblocks s ip \<union> - Collect (data_blk s)" using fm5 A(2) by (auto simp: fblocks_def)
      have "inode_ok s5 ip"
        by (rule inode_ok_extend[OF ok _ _ A(2) fm5 refl]) (use K3(1) d5 A(1) ok in \<open>auto simp: keeps_def inode_ok_def\<close>)
      moreover have "a \<noteq> ?d" using A(2) dd by auto
      ultimately show ?thesis
        by (intro that[OF e x(2) g5(1) _ fr(2) K]) (use fm5 bn(2) True a al(4) A(3) b5 B in \<open>auto simp: length_logged\<close>)
    qed
  qed
qed

section \<open>All of \<open>bmap\<close>\<close>

lemma first_indirect:
  assumes ok: "inode_ok s ip" and ind: "indirect ip = 0" and K: "keeps {} s s1" and a: "data_blk s1 a" "\<not> data_blk s a" "a \<noteq> 0"
    and z: "blk s1 a = replicate BSIZE 0"
  shows "inode_ok s1 (ip\<lparr>i_addrs := (i_addrs ip)[NDIRECT := a]\<rparr>)" "indirect (ip\<lparr>i_addrs := (i_addrs ip)[NDIRECT := a]\<rparr>) = a"
    "m < MAXFILE \<Longrightarrow> file_map s1 (ip\<lparr>i_addrs := (i_addrs ip)[NDIRECT := a]\<rparr>) m = file_map s ip m"
proof -
  let ?ip = "ip\<lparr>i_addrs := (i_addrs ip)[NDIRECT := a]\<rparr>"
  have l: "length (i_addrs ip) = 13" using ok by (simp add: inode_ok_def)
  show i: "indirect ?ip = a" using l by (simp add: indirect_def NDIRECT_def)
  show f: "file_map s1 ?ip m = file_map s ip m" if "m < MAXFILE" for m
    using that z i a(3) ind l by (auto simp: file_map_def get_le_def le_word_zeros min_def MAXFILE_def NINDIRECT_def BSIZE_def)
  show "inode_ok s1 ?ip" using ok K a f l i by (auto simp: inode_ok_def keeps_def)
qed

lemma bmap_spec:
  assumes inv: "tx_inv s bs {} pid" and fs: "fs_inv s" and i: "i < length (itable s)" and dev: "i_dev (itable s ! i) = ROOTDEV"
    and ok: "inode_ok s (itable s ! i)" and bn: "unat bn < MAXFILE" and room: "length bs + 5 < NBUF"
  obtains a s' bs' ip' where "bmap i bn s = Inr (a, s')" "tx_inv s' bs' {} pid" "fs_inv s'" "length bs' \<le> length bs + 5"
    "itable s' = (itable s)[i := ip']" "ip' = (itable s ! i)\<lparr>i_addrs := i_addrs ip'\<rparr>" "disk s' = disk s" "keeps {indirect (itable s ! i)} s s'"
    "inode_ok s' ip'" "a = file_map s' ip' (unat bn)"
    "\<And>m. m < MAXFILE \<Longrightarrow> m \<noteq> unat bn \<Longrightarrow> file_map s' ip' m = file_map s (itable s ! i) m" "a = 0 \<Longrightarrow> \<forall>b. \<not> free_blk s' b"
    "file_map s (itable s ! i) (unat bn) \<noteq> 0 \<Longrightarrow> a = file_map s (itable s ! i) (unat bn) \<and> blk s' = blk s \<and> bs' = bs"
    "file_map s (itable s ! i) (unat bn) = 0 \<Longrightarrow> a \<noteq> 0 \<Longrightarrow> blk s' a = replicate BSIZE 0"
    "fblocks s' ip' \<subseteq> fblocks s (itable s ! i) \<union> - Collect (data_blk s)"
proof -
  let ?ip = "itable s ! i" and ?n = "unat bn"
  have l13: "length (i_addrs ?ip) = 13" using ok by (simp add: inode_ok_def)
  have room1: "length bs + card ({} :: nat set) + 1 < NBUF" and hd: "held_data s {}" using room by (simp_all add: held_data_def)
  obtain a1 s1 bs1 where al: "balloc ROOTDEV s = Inr (a1, s1)" "tx_inv s1 bs1 {} pid" "fs_inv s1" "length bs1 \<le> length bs + 2"
    "tx_frame s s1" "keeps {} s s1" "a1 = 0 \<Longrightarrow> blk s1 = blk s \<and> (\<forall>b. \<not> free_blk s1 b)"
    "a1 \<noteq> 0 \<Longrightarrow> data_blk s1 a1 \<and> \<not> data_blk s a1 \<and> blk s1 a1 = replicate BSIZE 0"
    by (rule balloc_cases[OF inv fs hd room1]) blast
  note f1 = tx_frame_fields[OF al(5)] and m1 = keeps_map[OF al(6) ok, simplified]
  have K1: "keeps X s s1" for X using al(6) by (auto simp: keeps_def)
  have i1: "i < length (itable s1)" "itable s1 ! i = ?ip" using f1(2) i by simp_all
  consider "?n < NDIRECT" "file_map s ?ip ?n \<noteq> 0" | "?n < NDIRECT" "file_map s ?ip ?n = 0" "a1 = 0" | "?n < NDIRECT" "file_map s ?ip ?n = 0" "a1 \<noteq> 0"
    | "\<not> ?n < NDIRECT" "indirect ?ip \<noteq> 0" | "\<not> ?n < NDIRECT" "indirect ?ip = 0" "a1 = 0" | "\<not> ?n < NDIRECT" "indirect ?ip = 0" "a1 \<noteq> 0" by blast
  then show ?thesis
  proof cases
    case 1
    then have "bmap i bn s = Inr (file_map s ?ip ?n, s)" by (simp add: bmap_ind_slot[OF bn] file_map_def)
    from that[OF this inv fs, of ?ip] show ?thesis using 1 ok by simp
  next
    case 2
    then have "bmap i bn s = Inr (0, s1)" using al(1) dev by (simp add: bmap_ind_slot[OF bn] file_map_def)
    from that[OF this al(2,3), of ?ip] show ?thesis using 2 al(4,7) f1 m1 K1 by simp
  next
    case 3
    let ?ip' = "?ip\<lparr>i_addrs := (i_addrs ?ip)[?n := a1]\<rparr>" and ?s' = "upd_inode i (\<lambda>ip. ip\<lparr>i_addrs := (i_addrs ip)[?n := a1]\<rparr>) s1"
    have e: "bmap i bn s = Inr (a1, ?s')" using 3 al(1) dev by (simp add: bmap_ind_slot[OF bn] file_map_def)
    have ind: "indirect ?ip' = indirect ?ip" using 3(1) by (simp add: indirect_def)
    have fm: "file_map s1 ?ip' m = (if m = ?n then a1 else file_map s ?ip m)" if "m < MAXFILE" for m
      using m1(1)[of m] 3(1) l13 ind by (auto simp: file_map_def NDIRECT_def)
    have B: "fblocks s1 ?ip' \<subseteq> fblocks s ?ip \<union> - Collect (data_blk s)" using fm ind al(8) 3(3) by (auto simp: fblocks_def)
    have "inode_ok s1 ?ip'" by (rule inode_ok_extend[OF ok _ _ _ fm ind]) (use al(6,8) 3(3) l13 in \<open>auto simp: keeps_def\<close>)
    then show ?thesis
      by (intro that[OF e, of bs1 ?ip']) (use al 3 f1 K1 fm bn i1 B in auto)
  next
    case 4
    then have e: "bmap i bn s = ind_slot i (indirect ?ip) (?n - NDIRECT) s" by (simp add: bmap_ind_slot[OF bn])
    obtain a s' bs' where d: "ind_slot i (indirect ?ip) (?n - NDIRECT) s = Inr (a, s')" "tx_inv s' bs' {} pid" "fs_inv s'" "length bs' \<le> length bs + 3"
      "tx_frame s s'" "keeps {indirect ?ip} s s'" "inode_ok s' ?ip" "a = file_map s' ?ip ?n"
      "\<And>m. m < MAXFILE \<Longrightarrow> m \<noteq> ?n \<Longrightarrow> file_map s' ?ip m = file_map s ?ip m" "a = 0 \<Longrightarrow> \<forall>b. \<not> free_blk s' b"
      "file_map s ?ip ?n \<noteq> 0 \<Longrightarrow> a = file_map s ?ip ?n \<and> blk s' = blk s \<and> bs' = bs" "file_map s ?ip ?n = 0 \<Longrightarrow> a \<noteq> 0 \<Longrightarrow> blk s' a = replicate BSIZE 0"
      "fblocks s' ?ip \<subseteq> fblocks s ?ip \<union> - Collect (data_blk s)"
      by (rule ind_slot_spec[OF inv fs ok 4(2) dev, of ?n]) (use 4(1) bn room in auto)
    show ?thesis
      by (rule that[OF e[unfolded d(1)] d(2,3), of ?ip]) (use d tx_frame_fields[OF d(5)] in auto)
  next
    case 5
    have z: "file_map s ?ip ?n = 0" using 5 by (simp add: file_map_def)
    have "bmap i bn s = Inr (0, s1)" using 5 al(1) dev by (simp add: bmap_ind_slot[OF bn])
    from that[OF this al(2,3), of ?ip] show ?thesis using 5 z al(4,7) f1 m1 K1 by simp
  next
    case 6
    let ?ip' = "?ip\<lparr>i_addrs := (i_addrs ?ip)[NDIRECT := a1]\<rparr>" and ?s1 = "upd_inode i (\<lambda>ip. ip\<lparr>i_addrs := (i_addrs ip)[NDIRECT := a1]\<rparr>) s1"
    have A: "data_blk s1 a1" "\<not> data_blk s a1" "blk s1 a1 = replicate BSIZE 0" using al(8) 6(3) by auto
    note o = first_indirect[OF ok 6(2) al(6) A(1,2) 6(3) A(3)]
    have z: "file_map s ?ip ?n = 0" using 6 by (simp add: file_map_def)
    have e: "bmap i bn s = ind_slot i (indirect ?ip') (?n - NDIRECT) ?s1" using 6 al(1) dev o(2) by (simp add: bmap_ind_slot[OF bn])
    have t1: "tx_inv ?s1 bs1 {} pid" "fs_inv ?s1" "inode_ok ?s1 ?ip'" "indirect ?ip' \<noteq> 0" "i_dev (itable ?s1 ! i) = ROOTDEV"
      using al(2,3) o(1,2) 6(3) i1 dev by simp_all
    obtain a s' bs' where d: "ind_slot i (indirect ?ip') (?n - NDIRECT) ?s1 = Inr (a, s')" "tx_inv s' bs' {} pid" "fs_inv s'" "length bs' \<le> length bs1 + 3"
      "tx_frame ?s1 s'" "keeps {indirect ?ip'} ?s1 s'" "inode_ok s' ?ip'" "a = file_map s' ?ip' ?n"
      "\<And>m. m < MAXFILE \<Longrightarrow> m \<noteq> ?n \<Longrightarrow> file_map s' ?ip' m = file_map ?s1 ?ip' m" "a = 0 \<Longrightarrow> \<forall>b. \<not> free_blk s' b"
      "file_map ?s1 ?ip' ?n = 0 \<Longrightarrow> a \<noteq> 0 \<Longrightarrow> blk s' a = replicate BSIZE 0"
      "fblocks s' ?ip' \<subseteq> fblocks ?s1 ?ip' \<union> - Collect (data_blk ?s1)"
      by (rule ind_slot_spec[OF t1, of ?n]) (use 6(1) bn room al(4) in auto)
    note f' = tx_frame_fields[OF d(5)]
    have "fblocks s1 ?ip' \<subseteq> insert a1 (fblocks s ?ip)" using o(2,3) by (auto simp: fblocks_def)
    moreover have "Collect (data_blk s) \<subseteq> Collect (data_blk s1)" using al(6) by (auto simp: keeps_def)
    ultimately have B: "fblocks s' ?ip' \<subseteq> fblocks s ?ip \<union> - Collect (data_blk s)" using d(12) A(2) by auto
    have "keeps {indirect ?ip} s s'" using al(6) d(6) A(2) o(2) by (auto simp: keeps_def)
    then show ?thesis
      by (intro that[OF e[unfolded d(1)] d(2,3), of ?ip']) (use d(4-11) B f' f1 al(4) o(3) z bn i1 in auto)
  qed
qed

text \<open>A block that the file has is found without a change.\<close>

lemma bmap_mapped:
  assumes inv: "tx_inv s bs {} pid" and fs: "fs_inv s" and dev: "i_dev (itable s ! i) = ROOTDEV" and ok: "inode_ok s (itable s ! i)"
    and bn: "unat bn < MAXFILE" and room: "length bs + 3 < NBUF" and m: "file_map s (itable s ! i) (unat bn) \<noteq> 0"
  obtains s' where "bmap i bn s = Inr (file_map s (itable s ! i) (unat bn), s')" "tx_inv s' bs {} pid" "fs_inv s'" "blk s' = blk s" "tx_frame s s'"
proof (cases "unat bn < NDIRECT")
  case True
  then show ?thesis using that[of s] inv fs m by (simp add: bmap_ind_slot[OF bn] file_map_def)
next
  case False
  then have ind: "indirect (itable s ! i) \<noteq> 0" using m by (auto simp: file_map_def)
  have nd: "NDIRECT \<le> unat bn" using False by simp
  obtain a s' bs' where x: "ind_slot i (indirect (itable s ! i)) (unat bn - NDIRECT) s = Inr (a, s')" "tx_inv s' bs' {} pid" "fs_inv s'" "tx_frame s s'"
    "file_map s (itable s ! i) (unat bn) \<noteq> 0 \<longrightarrow> a = file_map s (itable s ! i) (unat bn) \<and> blk s' = blk s \<and> bs' = bs"
    by (rule ind_slot_spec[OF inv fs ok ind dev nd bn room]) blast
  then have d: "ind_slot i (indirect (itable s ! i)) (unat bn - NDIRECT) s = Inr (file_map s (itable s ! i) (unat bn), s')"
    "tx_inv s' bs {} pid" "fs_inv s'" "tx_frame s s'" "blk s' = blk s" using m by simp_all
  show ?thesis by (rule that[OF _ d(2,3,5,4)]) (use d(1) False ind in \<open>simp add: bmap_ind_slot[OF bn]\<close>)
qed

end
