(* ===== verification/Xv6_Fileio.thy ===== *)
theory Xv6_Fileio
  imports Xv6_Bmap
begin

text \<open>
  Reading and writing files, \<^verbatim>\<open>readi\<close> and \<^verbatim>\<open>writei\<close> of \<^verbatim>\<open>kernel/fs.c\<close>, against the contents of a file as
  a list of bytes. The caller's buffer is a local array of the kernel, as in the directory code and in
  the loader.
\<close>

section \<open>Contents\<close>

definition fbyte :: "'a fsst_scheme \<Rightarrow> inode \<Rightarrow> nat \<Rightarrow> u8" where
  "fbyte s ip k = blk s (file_map s ip (k div BSIZE)) ! (k mod BSIZE)"

definition contents :: "'a fsst_scheme \<Rightarrow> inode \<Rightarrow> u8 list" where
  "contents s ip = map (fbyte s ip) [0..<unat (i_size ip)]"

definition mapped :: "'a fsst_scheme \<Rightarrow> inode \<Rightarrow> nat \<Rightarrow> bool" where
  "mapped s ip k \<longleftrightarrow> file_map s ip (k div BSIZE) \<noteq> 0"

text \<open>A file has no holes and at most the size that the addresses can reach.\<close>

definition file_ok :: "'a fsst_scheme \<Rightarrow> inode \<Rightarrow> bool" where
  "file_ok s ip \<longleftrightarrow> inode_ok s ip \<and> unat (i_size ip) \<le> MAXFILE * BSIZE \<and> (\<forall>k < unat (i_size ip). mapped s ip k)"

lemma fbyte_upd_inode [simp]: "fbyte (upd_inode i f s) = fbyte s" "contents (upd_inode i f s) = contents s" "mapped (upd_inode i f s) = mapped s"
  "file_ok (upd_inode i f s) = file_ok s"
  by (simp_all add: fbyte_def contents_def mapped_def file_ok_def fun_eq_iff)

lemma fbyte_cong: "blk s' = blk s \<Longrightarrow> fbyte s' = fbyte s" "blk s' = blk s \<Longrightarrow> mapped s' = mapped s" "blk s' = blk s \<Longrightarrow> contents s' = contents s"
  by (simp_all add: fbyte_def mapped_def contents_def file_map_def fun_eq_iff)

text \<open>One step of the loops stays within a block.\<close>

lemma unat_div_BSIZE: "unat (off div of_nat BSIZE :: u32) = unat off div BSIZE"
  by (simp add: unat_div BSIZE_def)

lemma step_bytes:
  assumes "m = step_len left off" "j < m"
  shows "(unat off + j) div BSIZE = unat off div BSIZE" "(unat off + j) mod BSIZE = unat off mod BSIZE + j" "unat off mod BSIZE + m \<le> BSIZE" "m \<le> left"
proof -
  show b: "unat off mod BSIZE + m \<le> BSIZE" "m \<le> left" using assms(1) by (auto simp: step_len_def BSIZE_def)
  then have "unat off mod BSIZE + j < BSIZE" using assms(2) by simp
  moreover have "unat off + j = unat off div BSIZE * BSIZE + (unat off mod BSIZE + j)" by simp
  ultimately show "(unat off + j) div BSIZE = unat off div BSIZE" "(unat off + j) mod BSIZE = unat off mod BSIZE + j"
    by (metis div_mult_self3 div_less add.right_neutral BSIZE_def zero_neq_numeral, metis mod_mult_self3 mod_less)
qed

lemma block_slice:
  assumes "m = step_len left off" "length (blk s (file_map s ip (unat off div BSIZE))) = BSIZE"
  shows "take m (drop (unat off mod BSIZE) (blk s (file_map s ip (unat off div BSIZE)))) = map (fbyte s ip) [unat off..<unat off + m]"
proof (rule nth_equalityI)
  show "length (take m (drop (unat off mod BSIZE) (blk s (file_map s ip (unat off div BSIZE))))) = length (map (fbyte s ip) [unat off..<unat off + m])"
    using assms by (auto simp: step_len_def BSIZE_def)
  fix j assume "j < length (take m (drop (unat off mod BSIZE) (blk s (file_map s ip (unat off div BSIZE)))))"
  then have j: "j < m" by simp
  then show "take m (drop (unat off mod BSIZE) (blk s (file_map s ip (unat off div BSIZE)))) ! j = map (fbyte s ip) [unat off..<unat off + m] ! j"
    using step_bytes[OF assms(1) j] assms(2) by (simp add: fbyte_def)
qed

lemma unat_off_step:
  assumes "unat off + left \<le> MAXFILE * BSIZE" "m \<le> left"
  shows "unat (off + of_nat m :: u32) = unat off + m" "left \<noteq> 0 \<Longrightarrow> unat off div BSIZE < MAXFILE"
proof -
  have "unat off + m < 2 ^ 32" "m < 2 ^ 32" using assms by (simp_all add: MAXFILE_def NDIRECT_def NINDIRECT_def BSIZE_def)
  then show "unat (off + of_nat m) = unat off + m" by (simp add: unat_word_ariths unat_of_nat)
  show "left \<noteq> 0 \<Longrightarrow> unat off div BSIZE < MAXFILE" using assms(1) by (simp add: div_less_iff_less_mult BSIZE_def MAXFILE_def NDIRECT_def NINDIRECT_def)
qed

section \<open>Reading\<close>

lemma readi_loop_spec:
  assumes "tx_inv s bs {} pid" "fs_inv s" "i < length (itable s)" "i_dev (itable s ! i) = ROOTDEV" "inode_ok s (itable s ! i)"
    "unat off + left \<le> MAXFILE * BSIZE" "\<And>k. unat off \<le> k \<Longrightarrow> k < unat off + left \<Longrightarrow> mapped s (itable s ! i) k" "length bs + 5 < NBUF"
  shows "\<exists>s'. readi_loop i ToLocal off left tot acc s = Inr (int (tot + left), acc @ map (fbyte s (itable s ! i)) [unat off..<unat off + left], s') \<and>
    tx_inv s' bs {} pid \<and> fs_inv s' \<and> blk s' = blk s \<and> sb s' = sb s \<and> itable s' = itable s \<and> disk s' = disk s"
  using assms
proof (induction left arbitrary: off tot acc s rule: less_induct)
  case (less left)
  let ?ip = "itable s ! i" and ?a = "file_map s (itable s ! i) (unat off div BSIZE)" and ?m = "step_len left off"
  show ?case
  proof (cases "left = 0")
    case True
    then show ?thesis using less.prems by (simp add: readi_loop.simps)
  next
    case False
    have m: "0 < ?m" "?m \<le> left" using step_len_pos[of left off] False by (auto simp: step_len_def)
    note u = unat_off_step[OF less.prems(6) m(2)]
    have bn: "unat (off div of_nat BSIZE) < MAXFILE" using u(2)[OF False] by (simp add: unat_div_BSIZE)
    have mp: "?a \<noteq> 0" using less.prems(7)[of "unat off"] False by (simp add: mapped_def)
    have dn: "unat (off div of_nat BSIZE) = unat off div BSIZE" by (rule unat_div_BSIZE)
    have room3: "length bs + 3 < NBUF" using less.prems(8) by simp
    obtain s1 where b0: "bmap i (off div of_nat BSIZE) s = Inr (?a, s1)" "tx_inv s1 bs {} pid" "fs_inv s1" "blk s1 = blk s" "tx_frame s s1"
      by (rule bmap_mapped[OF less.prems(1,2,4,5) bn room3, unfolded dn, OF mp])
    note b = b0(1-4) tx_frame_fields(2,5,1)[OF b0(5)]
    obtain bp s2 s3 where r: "bread ROOTDEV ?a s1 = Inr (bp, s2)" "data_of s2 bp = blk s1 ?a" "tx_frame s1 s2" "brelse bp s2 = Inr s3"
      "tx_inv s3 bs {} pid" "blk s3 = blk s1" "tx_frame s1 s3"
      by (rule tx_peek[OF b(2), of ?a]) (use less.prems(8) in auto)
    note f = tx_frame_fields[OF r(7)]
    have b3: "blk s3 = blk s" "itable s3 = itable s" "sb s3 = sb s" "disk s3 = disk s" using r(6) b(4-7) f by simp_all
    have fs3: "fs_inv s3" using b(3) f free_blk_cong[OF r(6) f(1)] by (simp add: fs_inv_def)
    have sl: "take ?m (drop (unat off mod BSIZE) (blk s ?a)) = map (fbyte s ?ip) [unat off..<unat off + ?m]"
      by (rule block_slice[OF refl tx_blk_length[OF less.prems(1)]])
    have e: "readi_loop i ToLocal off left tot acc s =
        readi_loop i ToLocal (off + of_nat ?m) (left - ?m) (tot + ?m) (acc @ map (fbyte s ?ip) [unat off..<unat off + ?m]) s3"
      using False b(1,4,5) mp r(1,2,4) less.prems(4) sl by (subst readi_loop.simps) (simp add: Let_def)
    have ok3: "inode_ok s3 (itable s3 ! i)"
      using keeps_map(2)[OF keeps_same[OF b3(1,3), of "{}"] less.prems(5)] b3(2) by simp
    have "\<exists>s'. readi_loop i ToLocal (off + of_nat ?m) (left - ?m) (tot + ?m) (acc @ map (fbyte s ?ip) [unat off..<unat off + ?m]) s3 =
        Inr (int (tot + ?m + (left - ?m)), (acc @ map (fbyte s ?ip) [unat off..<unat off + ?m]) @
          map (fbyte s3 (itable s3 ! i)) [unat (off + of_nat ?m)..<unat (off + of_nat ?m) + (left - ?m)], s') \<and>
        tx_inv s' bs {} pid \<and> fs_inv s' \<and> blk s' = blk s3 \<and> sb s' = sb s3 \<and> itable s' = itable s3 \<and> disk s' = disk s3"
      by (rule less.IH[OF _ r(5) fs3]) (use m False b3 ok3 less.prems u(1) fbyte_cong(2)[OF b3(1)] in auto)
    moreover have "[unat off..<unat off + left] = [unat off..<unat off + ?m] @ [unat off + ?m..<unat off + left]"
      using m by (intro upt_split) auto
    ultimately show ?thesis using e m b3 u(1) fbyte_cong(1)[OF b3(1)] by auto
  qed
qed

lemma add_overflow_u32: "(off :: u32) + n < off \<longleftrightarrow> 2 ^ 32 \<le> unat off + unat n"
proof -
  have b: "unat off < 2 ^ 32" "unat n < 2 ^ 32" using unsigned_less[where 'a = nat, of off] unsigned_less[where 'a = nat, of n] by simp_all
  have "unat (off + n) = (unat off + unat n) mod 2 ^ 32" by (simp add: unat_word_ariths)
  then show ?thesis using b by (auto simp: word_less_nat_alt mod_if)
qed

lemma readi_spec:
  assumes inv: "tx_inv s bs {} pid" and fs: "fs_inv s" and i: "i < length (itable s)" "i_dev (itable s ! i) = ROOTDEV" and ok: "file_ok s (itable s ! i)"
    and room: "length bs + 5 < NBUF"
  obtains r s' where "readi i ToLocal off n s = Inr (int (length r), r, s')"
    "r = (if unat (i_size (itable s ! i)) < unat off \<or> 2 ^ 32 \<le> unat off + unat n then [] else take (unat n) (drop (unat off) (contents s (itable s ! i))))"
    "tx_inv s' bs {} pid" "fs_inv s'" "blk s' = blk s" "sb s' = sb s" "itable s' = itable s" "disk s' = disk s"
proof -
  let ?ip = "itable s ! i" and ?z = "unat (i_size (itable s ! i))" and ?o = "unat off"
  note ov = add_overflow_u32[of off n]
  have o: "inode_ok s ?ip" "?z \<le> MAXFILE * BSIZE" "\<And>k. k < ?z \<Longrightarrow> mapped s ?ip k" using ok by (simp_all add: file_ok_def)
  show ?thesis
  proof (cases "?z < ?o \<or> 2 ^ 32 \<le> ?o + unat n")
    case True
    then have "readi i ToLocal off n s = Inr (int (length ([] :: u8 list)), [], s)" using ov by (auto simp: readi_def Let_def word_less_nat_alt)
    from that[OF this] True inv fs show ?thesis by auto
  next
    case False
    define n' where "n' = unat (if off + n > i_size ?ip then i_size ?ip - off else n)"
    have un: "unat (off + n) = ?o + unat n" using False by (simp add: unat_word_ariths)
    have n': "n' = min (unat n) (?z - ?o)"
      using False un by (auto simp: n'_def word_less_nat_alt unat_sub word_le_nat_alt min_def)
    have e: "readi i ToLocal off n s = readi_loop i ToLocal off n' 0 [] s"
      using False ov by (auto simp: readi_def Let_def word_less_nat_alt n'_def)
    have le: "?o + n' \<le> ?z" using False n' by auto
    from readi_loop_spec[OF inv fs i o(1) _ _ room, of off n' 0 "[]"] le o(2,3) obtain s' where
      s': "readi_loop i ToLocal off n' 0 [] s = Inr (int n', map (fbyte s ?ip) [?o..<?o + n'], s')" "tx_inv s' bs {} pid" "fs_inv s'" "blk s' = blk s"
      "sb s' = sb s" "itable s' = itable s" "disk s' = disk s" by force
    have c: "map (fbyte s ?ip) [?o..<?o + n'] = take (unat n) (drop ?o (contents s ?ip))"
      using le n' by (intro nth_equalityI) (auto simp: contents_def)
    then have "length (take (unat n) (drop ?o (contents s ?ip))) = n'" by (metis length_map length_upt diff_add_inverse)
    then have "readi i ToLocal off n s = Inr (int (length (take (unat n) (drop ?o (contents s ?ip)))), take (unat n) (drop ?o (contents s ?ip)), s')"
      using s'(1) e c by metis
    from that[OF this _ s'(2-)] show ?thesis using False by auto
  qed
qed

section \<open>Writing\<close>

text \<open>
  The bytes \<open>ds\<close> have been put into the file from offset \<open>lo\<close> on; the other bytes that the file had,
  and every data block of another file, are as before.
\<close>

definition file_upd :: "'a fsst_scheme \<Rightarrow> inode \<Rightarrow> 'a fsst_scheme \<Rightarrow> inode \<Rightarrow> nat \<Rightarrow> u8 list \<Rightarrow> bool" where
  "file_upd s ip s' ip' lo ds \<longleftrightarrow> ip' = ip\<lparr>i_addrs := i_addrs ip'\<rparr> \<and> inode_ok s' ip' \<and> sb s' = sb s \<and> disk s' = disk s \<and>
     (\<forall>k. mapped s ip k \<and> k div BSIZE < MAXFILE \<longrightarrow> mapped s' ip' k) \<and>
     (\<forall>k. lo \<le> k \<and> k < lo + length ds \<longrightarrow> mapped s' ip' k \<and> fbyte s' ip' k = ds ! (k - lo)) \<and>
     (\<forall>k. mapped s ip k \<and> k div BSIZE < MAXFILE \<and> (k < lo \<or> lo + length ds \<le> k) \<longrightarrow> fbyte s' ip' k = fbyte s ip k) \<and>
     (\<forall>n. data_blk s n \<and> n \<notin> fblocks s ip \<longrightarrow> data_blk s' n \<and> n \<notin> fblocks s' ip' \<and> blk s' n = blk s n)"

lemma file_upd_refl: "inode_ok s ip \<Longrightarrow> file_upd s ip s ip lo []"
  by (auto simp: file_upd_def)

lemma file_upd_trans:
  assumes a: "file_upd s ip s1 ip1 lo ds" and b: "file_upd s1 ip1 s2 ip2 (lo + length ds) es" and r: "lo + length ds + length es \<le> MAXFILE * BSIZE"
  shows "file_upd s ip s2 ip2 lo (ds @ es)"
proof -
  note a' = a[unfolded file_upd_def] and b' = b[unfolded file_upd_def]
  have "ip1 = ip\<lparr>i_addrs := i_addrs ip1\<rparr>" "ip2 = ip1\<lparr>i_addrs := i_addrs ip2\<rparr>" using a' b' by blast+
  then have ip: "ip2 = ip\<lparr>i_addrs := i_addrs ip2\<rparr>" by (metis inode.update_convs(11) inode.surjective)
  have "mapped s2 ip2 k \<and> fbyte s2 ip2 k = (ds @ es) ! (k - lo)" if k: "lo \<le> k" "k < lo + length (ds @ es)" for k
  proof (cases "k < lo + length ds")
    case True
    then have m: "mapped s1 ip1 k" "fbyte s1 ip1 k = ds ! (k - lo)" "k div BSIZE < MAXFILE"
      using a' k r by (auto simp: div_less_iff_less_mult BSIZE_def)
    then have "mapped s2 ip2 k" "fbyte s2 ip2 k = fbyte s1 ip1 k" using b' True by blast+
    then show ?thesis using m True k by (simp add: nth_append less_diff_conv2)
  next
    case False
    then have "mapped s2 ip2 k" "fbyte s2 ip2 k = es ! (k - (lo + length ds))" using b' k by auto
    moreover have "\<not> k - lo < length ds" "k - lo - length ds = k - (lo + length ds)" using False k by auto
    ultimately show ?thesis by (simp add: nth_append)
  qed
  moreover have "fbyte s2 ip2 k = fbyte s ip k" if "mapped s ip k" "k div BSIZE < MAXFILE" "k < lo \<or> lo + length (ds @ es) \<le> k" for k
  proof -
    have "mapped s1 ip1 k" "fbyte s1 ip1 k = fbyte s ip k" using a' that by auto
    moreover have "fbyte s2 ip2 k = fbyte s1 ip1 k" using b' that calculation(1) by auto
    ultimately show ?thesis by simp
  qed
  ultimately show ?thesis using a' b' ip unfolding file_upd_def by auto
qed

lemma file_upd_block:
  assumes ok: "inode_ok s ip" and bn: "bn < MAXFILE" and a: "file_map s ip bn = a" "a \<noteq> 0" and len: "length (blk s a) = BSIZE"
    and b: "blk s' = (blk s)(a := put_bytes (blk s a) o1 xs)" and o1: "o1 + length xs \<le> BSIZE"
    and f: "sb s' = sb s" "disk s' = disk s" "free_blk s' = free_blk s"
  shows "file_upd s ip s' ip (bn * BSIZE + o1) xs"
proof -
  have d: "data_blk s' = data_blk s" using f by (simp add: data_blk_def fun_eq_iff)
  have ai: "a \<noteq> indirect ip" using ok bn a by (auto simp: inode_ok_def)
  have "keeps {a} s s'" using b d f by (simp add: keeps_def)
  note m = keeps_map[OF this ok, simplified, OF ai[symmetric]]
  have inj: "file_map s ip j = a \<longleftrightarrow> j = bn" if "j < MAXFILE" for j using ok bn a that by (auto simp: inode_ok_def)
  have fb: "fbyte s' ip k = (if k div BSIZE = bn \<and> o1 \<le> k mod BSIZE \<and> k mod BSIZE < o1 + length xs then xs ! (k mod BSIZE - o1) else fbyte s ip k)"
    if "k div BSIZE < MAXFILE" for k
  proof (cases "k div BSIZE = bn")
    case True
    have "k mod BSIZE < BSIZE" by (simp add: BSIZE_def)
    then show ?thesis using True inj[OF that] a m(1) b len o1 by (auto simp: fbyte_def put_bytes_def nth_append)
  next
    case False
    then show ?thesis using inj[OF that] m(1) b by (simp add: fbyte_def)
  qed
  have mp: "mapped s' ip = mapped s ip" using m(1) by (simp add: mapped_def fun_eq_iff)
  have rng: "k div BSIZE = bn \<and> o1 \<le> k mod BSIZE \<and> k mod BSIZE < o1 + length xs \<longleftrightarrow> bn * BSIZE + o1 \<le> k \<and> k < bn * BSIZE + o1 + length xs"
    (is "?A \<longleftrightarrow> ?B") for k
  proof
    assume ?A
    then show ?B using div_mult_mod_eq[of k BSIZE] by auto
  next
    assume B: ?B
    then obtain j where j: "k = bn * BSIZE + j" "j < BSIZE" using o1 by (metis add.assoc add_le_cancel_left le_Suc_ex less_le_trans nat_add_left_cancel_less)
    then have "k div BSIZE = bn" "k mod BSIZE = j" by (simp_all add: BSIZE_def)
    then show ?A using B j by auto
  qed
  have own: "mapped s' ip k \<and> fbyte s' ip k = xs ! (k - (bn * BSIZE + o1))" if k: "bn * BSIZE + o1 \<le> k \<and> k < bn * BSIZE + o1 + length xs" for k
  proof -
    have A: "k div BSIZE = bn" "o1 \<le> k mod BSIZE" "k mod BSIZE < o1 + length xs" using rng[of k] k by blast+
    then have "k - (bn * BSIZE + o1) = k mod BSIZE - o1" using div_mult_mod_eq[of k BSIZE] by auto
    then show ?thesis using A fb[of k] bn a mp by (simp add: mapped_def)
  qed
  moreover have "fbyte s' ip k = fbyte s ip k" if "k div BSIZE < MAXFILE" "k < bn * BSIZE + o1 \<or> bn * BSIZE + o1 + length xs \<le> k" for k
    using fb[OF that(1)] rng[of k] that(2) by auto
  ultimately show ?thesis
    unfolding file_upd_def using m(2,3) f(1,2) mp d b a bn by (auto simp: fblocks_def)
qed

lemma bmap_file_upd:
  assumes inv: "tx_inv s bs {} pid" and fs: "fs_inv s" and i: "i < length (itable s)" and dev: "i_dev (itable s ! i) = ROOTDEV"
    and ok: "inode_ok s (itable s ! i)" and bn: "unat bn < MAXFILE" and room: "length bs + 5 < NBUF"
  obtains a s' bs' ip' where "bmap i bn s = Inr (a, s')" "tx_inv s' bs' {} pid" "fs_inv s'" "length bs' \<le> length bs + 5"
    "itable s' = (itable s)[i := ip']" "\<And>lo. file_upd s (itable s ! i) s' ip' lo []" "a = file_map s' ip' (unat bn)" "a = 0 \<Longrightarrow> \<forall>b. \<not> free_blk s' b"
proof -
  let ?ip = "itable s ! i"
  obtain a s' bs' ip' where b: "bmap i bn s = Inr (a, s')" "tx_inv s' bs' {} pid" "fs_inv s'" "length bs' \<le> length bs + 5"
    "itable s' = (itable s)[i := ip']" "ip' = ?ip\<lparr>i_addrs := i_addrs ip'\<rparr>" "disk s' = disk s" "keeps {indirect ?ip} s s'"
    "inode_ok s' ip'" "a = file_map s' ip' (unat bn)" "\<And>m. m < MAXFILE \<Longrightarrow> m \<noteq> unat bn \<Longrightarrow> file_map s' ip' m = file_map s ?ip m"
    "a = 0 \<Longrightarrow> \<forall>b. \<not> free_blk s' b" "file_map s ?ip (unat bn) \<noteq> 0 \<longrightarrow> a = file_map s ?ip (unat bn)"
    "fblocks s' ip' \<subseteq> fblocks s ?ip \<union> - Collect (data_blk s)"
    by (rule bmap_spec[OF assms]) blast
  have fm: "file_map s' ip' m = file_map s ?ip m" if "m < MAXFILE" "file_map s ?ip m \<noteq> 0" for m
    using b(10,11,13) that by (cases "m = unat bn") auto
  have "blk s' (file_map s ?ip m) = blk s (file_map s ?ip m)" if "m < MAXFILE" "file_map s ?ip m \<noteq> 0" for m
    using b(8) ok that by (auto simp: inode_ok_def keeps_def)
  then have "file_upd s ?ip s' ip' lo []" for lo
    unfolding file_upd_def using b(6-9,14) fm by (auto simp: mapped_def fbyte_def keeps_def fblocks_def)
  from that[OF b(1-5) this b(10,12)] show ?thesis .
qed

definition nblk :: "nat \<Rightarrow> nat \<Rightarrow> nat" where
  "nblk off left = (if left = 0 then 0 else (off mod BSIZE + left - 1) div BSIZE + 1)"

lemma nblk_step:
  assumes "0 < left" "m = step_len left off"
  shows "nblk (unat off) left = nblk (unat off + m) (left - m) + 1"
proof (cases "left \<le> BSIZE - unat off mod BSIZE")
  case True
  have "unat off mod BSIZE < BSIZE" by (simp add: BSIZE_def)
  then show ?thesis using True assms by (simp add: nblk_def step_len_def)
next
  case False
  let ?o = "unat off mod BSIZE"
  have o: "?o < BSIZE" by (simp add: BSIZE_def)
  have m: "m = BSIZE - ?o" using False assms(2) by (simp add: step_len_def)
  have "(unat off + m) mod BSIZE = (?o + m) mod BSIZE" by (simp add: mod_add_left_eq)
  also have "\<dots> = 0" using m o by simp
  finally have z: "(unat off + m) mod BSIZE = 0" .
  have "?o + left - 1 = BSIZE + (left - m - 1)" using m o False by simp
  then have "(?o + left - 1) div BSIZE = (left - m - 1) div BSIZE + 1" by (simp add: BSIZE_def)
  then show ?thesis using False m o z assms(1) by (simp add: nblk_def)
qed

text \<open>A step of the loop that gets its block.\<close>

lemma writei_step:
  assumes inv: "tx_inv s1 bs1 {} pid" and fs: "fs_inv s1" and dev: "i_dev (itable s1 ! i) = ROOTDEV" and ok: "inode_ok s1 ip1"
    and bn: "unat off div BSIZE < MAXFILE" and a: "a = file_map s1 ip1 (unat off div BSIZE)" "a \<noteq> 0" and room: "length bs1 < NBUF"
    and m: "m = step_len left off" "length ds = left"
  obtains bp s2 s5 s6 where "bread (i_dev (itable s1 ! i)) a s1 = Inr (bp, s2)"
    "log_write bp (set_data bp (put_bytes (data_of s2 bp) (unat off mod BSIZE) (take m ds)) s2) = Inr s5" "brelse bp s5 = Inr s6"
    "tx_inv s6 (logged a bs1) {} pid" "fs_inv s6" "itable s6 = itable s1" "file_upd s1 ip1 s6 ip1 (unat off) (take m ds)"
proof -
  have da: "data_blk s1 a" using ok bn a by (auto simp: inode_ok_def)
  have len: "length (blk s1 a) = BSIZE" by (rule tx_blk_length[OF inv])
  have mo: "unat off mod BSIZE + length (take m ds) \<le> BSIZE" using m by (auto simp: step_len_def BSIZE_def)
  obtain bp s2 s5 s6 where r: "bread ROOTDEV a s1 = Inr (bp, s2)" "data_of s2 bp = blk s1 a"
    "log_write bp (set_data bp (put_bytes (data_of s2 bp) (unat off mod BSIZE) (take m ds)) s2) = Inr s5" "brelse bp s5 = Inr s6"
    "tx_inv s6 (logged a bs1) {} pid" "blk s6 = (blk s1)(a := put_bytes (blk s1 a) (unat off mod BSIZE) (take m ds))" "tx_frame s1 s6"
    by (rule tx_update[OF inv, of a "\<lambda>d. put_bytes d (unat off mod BSIZE) (take m ds)"])
      (use room data_blk_log[OF fs da] len mo in auto)
  note f = tx_frame_fields[OF r(7)]
  have g: "fs_inv s6" "free_blk s6 = free_blk s1"
    by (rule fs_inv_meta[OF fs f(1) disjI2[OF f(4)]]; use r(6) da in \<open>auto simp: data_blk_def\<close>)+
  have "file_upd s1 ip1 s6 ip1 (unat off div BSIZE * BSIZE + unat off mod BSIZE) (take m ds)"
    by (rule file_upd_block[OF ok bn a(1)[symmetric] a(2) len r(6) mo f(1,5) g(2)])
  with r dev g(1) f(2) show ?thesis by (intro that[of bp s2 s5 s6]) simp_all
qed

lemma writei_loop_spec:
  assumes "tx_inv s bs {} pid" "fs_inv s" "i < length (itable s)" "i_dev (itable s ! i) = ROOTDEV" "inode_ok s (itable s ! i)"
    "unat off + left \<le> MAXFILE * BSIZE" "length ds = left" "length bs + 6 * nblk (unat off) left < NBUF"
  shows "\<exists>w s' bs' ip'. writei_loop i (FromLocal ds) off left tot s = Inr (tot + w, off + of_nat w, s') \<and> w \<le> left \<and>
    (w < left \<longrightarrow> (\<forall>b. \<not> free_blk s' b)) \<and> tx_inv s' bs' {} pid \<and> fs_inv s' \<and> length bs' \<le> length bs + 6 * nblk (unat off) left \<and>
    itable s' = (itable s)[i := ip'] \<and> file_upd s (itable s ! i) s' ip' (unat off) (take w ds)"
  using assms
proof (induction left arbitrary: off tot ds s bs rule: less_induct)
  case (less left)
  let ?ip = "itable s ! i" and ?m = "step_len left off"
  show ?case
  proof (cases "left = 0")
    case True
    then have "writei_loop i (FromLocal ds) off left tot s = Inr (tot + 0, off + of_nat 0, s)" by (simp add: writei_loop.simps)
    then show ?thesis using less.prems file_upd_refl[OF less.prems(5)] True
      by (intro exI[of _ 0] exI[of _ s] exI[of _ bs] exI[of _ ?ip]) (simp add: nblk_def)
  next
    case False
    have m: "0 < ?m" "?m \<le> left" "?m \<le> length ds" using step_len_pos[of left off] False less.prems(7) by (auto simp: step_len_def)
    note u = unat_off_step[OF less.prems(6) m(2)]
    have nb: "nblk (unat off) left = nblk (unat off + ?m) (left - ?m) + 1" using nblk_step[OF _ refl] False by simp
    have bn: "unat (off div of_nat BSIZE) < MAXFILE" "unat off div BSIZE < MAXFILE" using u(2)[OF False] by (simp_all add: unat_div_BSIZE)
    have room5: "length bs + 5 < NBUF" using less.prems(8) nb by simp
    obtain a s1 bs1 ip1 where b: "bmap i (off div of_nat BSIZE) s = Inr (a, s1)" "tx_inv s1 bs1 {} pid" "fs_inv s1" "length bs1 \<le> length bs + 5"
      "itable s1 = (itable s)[i := ip1]" "\<And>lo. file_upd s ?ip s1 ip1 lo []" "a = file_map s1 ip1 (unat (off div of_nat BSIZE))" "a = 0 \<longrightarrow> (\<forall>b. \<not> free_blk s1 b)"
      by (rule bmap_file_upd[OF less.prems(1-5) bn(1) room5]) blast
    show ?thesis
    proof (cases "a = 0")
      case True
      then have "writei_loop i (FromLocal ds) off left tot s = Inr (tot + 0, off + of_nat 0, s1)"
        using False b(1) by (subst writei_loop.simps) simp
      then show ?thesis using b True nb less.prems(8)
        by (intro exI[of _ 0] exI[of _ s1] exI[of _ bs1] exI[of _ ip1]) auto
    next
      case a: False
      have i1: "itable s1 ! i = ip1" "i < length (itable s1)" "inode_ok s1 ip1" "i_dev ip1 = ROOTDEV"
        using b(5,6) less.prems(3,4) by (auto simp: file_upd_def) (metis inode.select_convs(1) inode.surjective inode.update_convs(11))
      have dev1: "i_dev (itable s1 ! i) = ROOTDEV" and a1: "a = file_map s1 ip1 (unat off div BSIZE)" and rm: "length bs1 < NBUF"
        using i1(1,4) b(4,7) room5 by (simp_all add: unat_div_BSIZE)
      obtain bp s2 s5 s6 where r: "bread (i_dev (itable s1 ! i)) a s1 = Inr (bp, s2)"
        "log_write bp (set_data bp (put_bytes (data_of s2 bp) (unat off mod BSIZE) (take ?m ds)) s2) = Inr s5" "brelse bp s5 = Inr s6"
        "tx_inv s6 (logged a bs1) {} pid" "fs_inv s6" "itable s6 = itable s1" "file_upd s1 ip1 s6 ip1 (unat off) (take ?m ds)"
        by (rule writei_step[OF b(2,3) dev1 i1(3) bn(2) a1 a rm refl less.prems(7)])
      have e: "writei_loop i (FromLocal ds) off left tot s =
          writei_loop i (FromLocal (drop ?m ds)) (off + of_nat ?m) (left - ?m) (tot + ?m) s6"
        using False b(1) a r(1-3) by (subst writei_loop.simps) (simp add: Let_def)
      have i6: "itable s6 ! i = ip1" "i < length (itable s6)" "inode_ok s6 ip1" using r(6,7) i1(1,2) by (simp_all add: file_upd_def)
      have lb: "length (logged a bs1) \<le> length bs + 6" using b(4) by (simp add: length_logged)
      have "\<exists>w s' bs' ip'. writei_loop i (FromLocal (drop ?m ds)) (off + of_nat ?m) (left - ?m) (tot + ?m) s6 =
            Inr (tot + ?m + w, off + of_nat ?m + of_nat w, s') \<and> w \<le> left - ?m \<and>
          (w < left - ?m \<longrightarrow> (\<forall>b. \<not> free_blk s' b)) \<and> tx_inv s' bs' {} pid \<and> fs_inv s' \<and>
          length bs' \<le> length (logged a bs1) + 6 * nblk (unat (off + of_nat ?m)) (left - ?m) \<and>
          itable s' = (itable s6)[i := ip'] \<and> file_upd s6 (itable s6 ! i) s' ip' (unat (off + of_nat ?m)) (take w (drop ?m ds))"
        by (rule less.IH[OF _ r(4,5)]) (use m False i6 i1(4) less.prems(6-8) u(1) lb nb in auto)
      then obtain w s' bs' ip' where w: "writei_loop i (FromLocal (drop ?m ds)) (off + of_nat ?m) (left - ?m) (tot + ?m) s6 =
            Inr (tot + ?m + w, off + of_nat ?m + of_nat w, s')" "w \<le> left - ?m"
          "w < left - ?m \<longrightarrow> (\<forall>b. \<not> free_blk s' b)" "tx_inv s' bs' {} pid" "fs_inv s'"
          "length bs' \<le> length (logged a bs1) + 6 * nblk (unat off + ?m) (left - ?m)"
          "itable s' = (itable s6)[i := ip']" "file_upd s6 ip1 s' ip' (unat off + length (take ?m ds)) (take w (drop ?m ds))"
        using i6(1) u(1) m(3) by (auto simp: min_absorb2)
      have l1: "unat off + length (take ?m ds) \<le> MAXFILE * BSIZE" using less.prems(6) m by simp
      have fu: "file_upd s ?ip s' ip' (unat off) (take (?m + w) ds)"
        using file_upd_trans[OF file_upd_trans[of s ?ip s1 ip1 "unat off" "[]", simplified, OF b(6) r(7)] w(8)] l1 w(2) less.prems(6,7) m
        by (simp add: take_add)
      show ?thesis
        by (rule exI[of _ "?m + w"], rule exI[of _ s'], rule exI[of _ bs'], rule exI[of _ ip'])
          (use e w fu m lb nb b(5) r(6) in \<open>auto simp: algebra_simps\<close>)
    qed
  qed
qed

text \<open>From the bytes to the contents, after the size has been adjusted.\<close>

lemma file_upd_contents:
  assumes fu: "file_upd s ip s' ip' lo ds" and ok: "file_ok s ip" and lo: "lo \<le> unat (i_size ip)" "lo + length ds \<le> MAXFILE * BSIZE"
    and z: "unat z = max (unat (i_size ip)) (lo + length ds)"
  shows "contents s' (ip'\<lparr>i_size := z\<rparr>) = take lo (contents s ip) @ ds @ drop (lo + length ds) (contents s ip)" "file_ok s' (ip'\<lparr>i_size := z\<rparr>)"
proof -
  note f = fu[unfolded file_upd_def] and o = ok[unfolded file_ok_def]
  have e: "fbyte s' (ip'\<lparr>i_size := z\<rparr>) = fbyte s' ip'" "mapped s' (ip'\<lparr>i_size := z\<rparr>) = mapped s' ip'" "inode_ok s' (ip'\<lparr>i_size := z\<rparr>) = inode_ok s' ip'"
    by (simp_all add: fbyte_def mapped_def file_map_def indirect_def inode_ok_def fun_eq_iff)
  have r: "k div BSIZE < MAXFILE" if "k < unat (i_size ip)" for k
    using that o by (simp add: div_less_iff_less_mult BSIZE_def)
  have lc: "length (contents s ip) = unat (i_size ip)" by (simp add: contents_def)
  show "contents s' (ip'\<lparr>i_size := z\<rparr>) = take lo (contents s ip) @ ds @ drop (lo + length ds) (contents s ip)"
  proof (rule nth_equalityI)
    show "length (contents s' (ip'\<lparr>i_size := z\<rparr>)) = length (take lo (contents s ip) @ ds @ drop (lo + length ds) (contents s ip))"
      using lo(1) z lc by (simp add: contents_def)
    fix k assume "k < length (contents s' (ip'\<lparr>i_size := z\<rparr>))"
    then have k: "k < max (unat (i_size ip)) (lo + length ds)" "contents s' (ip'\<lparr>i_size := z\<rparr>) ! k = fbyte s' ip' k" using z e by (simp_all add: contents_def)
    consider "k < lo" | "lo \<le> k" "k < lo + length ds" | "lo + length ds \<le> k" by linarith
    then show "contents s' (ip'\<lparr>i_size := z\<rparr>) ! k = (take lo (contents s ip) @ ds @ drop (lo + length ds) (contents s ip)) ! k"
    proof cases
      case 2
      then have "k - lo < length ds" by simp
      then show ?thesis using 2 f k lc lo(1) by (simp add: nth_append)
    qed (use f o k r lc lo(1) in \<open>auto simp: nth_append contents_def\<close>)
  qed
  have "mapped s' ip' k" if "k < unat z" for k
  proof (cases "lo \<le> k \<and> k < lo + length ds")
    case True
    then show ?thesis using f by blast
  next
    case False
    then have "k < unat (i_size ip)" using that z lo(1) by auto
    then show ?thesis using f o r by blast
  qed
  moreover have "unat z \<le> MAXFILE * BSIZE" using z lo(2) o by simp
  ultimately show "file_ok s' (ip'\<lparr>i_size := z\<rparr>)" using f e by (simp add: file_ok_def)
qed

lemma upd_inode_id: "f (itable s ! i) = itable s ! i \<Longrightarrow> upd_inode i f s = s"
  by (simp add: upd_inode_def)

lemma writei_spec:
  assumes inv: "tx_inv s bs {} pid" and fs: "fs_inv s" and i: "i < length (itable s)" "i_dev (itable s ! i) = ROOTDEV"
    and inum: "unat (i_inum (itable s ! i)) < unat (sb_ninodes (sb s))" and ok: "file_ok s (itable s ! i)"
    and off: "unat off \<le> unat (i_size (itable s ! i))" "unat off + unat n \<le> MAXFILE * BSIZE" and ds: "length ds = unat n"
    and room: "length bs + 6 * nblk (unat off) (unat n) < NBUF"
  obtains w s' bs' where "writei i (FromLocal ds) off n s = Inr (int w, s')" "w \<le> unat n" "w < unat n \<longrightarrow> (\<forall>b. \<not> free_blk s' b)"
    "tx_inv s' bs' {} pid" "fs_inv s'" "file_ok s' (itable s' ! i)" "disk s' = disk s"
    "contents s' (itable s' ! i) = take (unat off) (contents s (itable s ! i)) @ take w ds @ drop (unat off + w) (contents s (itable s ! i))"
    "disk_inode s' (i_inum (itable s ! i)) = to_dinode (itable s' ! i)" "\<And>j. j \<noteq> i \<Longrightarrow> itable s' ! j = itable s ! j"
    "length bs' \<le> length bs + 6 * nblk (unat off) (unat n) + 1" "length (itable s') = length (itable s)" "i_dev (itable s' ! i) = ROOTDEV"
    "\<And>n. data_blk s n \<Longrightarrow> n \<notin> fblocks s (itable s ! i) \<Longrightarrow> blk s' n = blk s n"
proof -
  let ?ip = "itable s ! i" and ?z = "unat (i_size (itable s ! i))"
  have o: "inode_ok s ?ip" "?z \<le> MAXFILE * BSIZE" using ok by (simp_all add: file_ok_def)
  have mx: "MAXFILE * BSIZE < 2 ^ 32" by (simp add: MAXFILE_def NDIRECT_def NINDIRECT_def BSIZE_def)
  from writei_loop_spec[OF inv fs i o(1) off(2) ds room, of 0] obtain w s1 bs1 ip1 where
    l: "writei_loop i (FromLocal ds) off (unat n) 0 s = Inr (w, off + of_nat w, s1)" "w \<le> unat n" "w < unat n \<longrightarrow> (\<forall>b. \<not> free_blk s1 b)"
      "tx_inv s1 bs1 {} pid" "fs_inv s1" "length bs1 \<le> length bs + 6 * nblk (unat off) (unat n)" "itable s1 = (itable s)[i := ip1]"
      "file_upd s ?ip s1 ip1 (unat off) (take w ds)" by auto
  note f = l(8)[unfolded file_upd_def]
  have ip1: "i_dev ip1 = i_dev ?ip" "i_inum ip1 = i_inum ?ip" "i_size ip1 = i_size ?ip" "length (i_addrs ip1) = 13"
    using f by (metis inode.select_convs inode.surjective inode.update_convs(11), metis inode.select_convs inode.surjective inode.update_convs(11),
        metis inode.select_convs inode.surjective inode.update_convs(11), simp add: inode_ok_def)
  have uo: "unat (off + of_nat w) = unat off + w" using l(2) off(2) by (intro unat_off_step(1)[OF off(2)])
  define z where "z = (if off + of_nat w > i_size ?ip then off + of_nat w else i_size ?ip)"
  have z: "unat z = max ?z (unat off + length (take w ds))" using uo l(2) ds by (auto simp: z_def word_less_nat_alt)
  let ?s2 = "upd_inode i (\<lambda>ip. ip\<lparr>i_size := z\<rparr>) s1"
  have i1: "itable s1 ! i = ip1" using l(7) i(1) by simp
  have s2: "(if off + of_nat w > i_size (itable s1 ! i) then upd_inode i (\<lambda>ip. ip\<lparr>i_size := off + of_nat w\<rparr>) s1 else s1) = ?s2"
  proof (cases "off + of_nat w > i_size ?ip")
    case False
    then have "ip1\<lparr>i_size := z\<rparr> = ip1" using ip1(3) by (simp add: z_def)
    then have "upd_inode i (\<lambda>ip. ip\<lparr>i_size := z\<rparr>) s1 = s1" using i1 by (intro upd_inode_id) simp
    then show ?thesis using False i1 ip1(3) by simp
  qed (use i1 ip1(3) in \<open>simp add: z_def\<close>)
  have c: "contents s1 (ip1\<lparr>i_size := z\<rparr>) = take (unat off) (contents s ?ip) @ take w ds @ drop (unat off + w) (contents s ?ip)" "file_ok s1 (ip1\<lparr>i_size := z\<rparr>)"
    using file_upd_contents[OF l(8) ok off(1) _ z] l(2) ds off(2) by simp_all
  have it2: "itable ?s2 ! i = ip1\<lparr>i_size := z\<rparr>" "length (itable ?s2) = length (itable s)" "\<And>j. j \<noteq> i \<Longrightarrow> itable ?s2 ! j = itable s ! j"
    using l(7) i(1) by simp_all
  obtain s3 where u: "iupdate i ?s2 = Inr s3" "tx_inv s3 (logged (IBLOCK (i_inum (itable ?s2 ! i)) (sb ?s2)) bs1) {} pid" "fs_inv s3" "tx_frame ?s2 s3"
    "free_blk s3 = free_blk ?s2" "disk_inode s3 (i_inum (itable ?s2 ! i)) = to_dinode (itable ?s2 ! i)"
    "\<And>n. n \<noteq> IBLOCK (i_inum (itable ?s2 ! i)) (sb ?s2) \<Longrightarrow> blk s3 n = blk ?s2 n"
    by (rule iupdate_spec[of ?s2 bs1 pid i]) (use l(4-6) room it2 ip1 i(2) inum f in \<open>auto simp: inode_ok_def\<close>)
  note f3 = tx_frame_fields[OF u(4)]
  have lay: "layout_ok (sb s)" using fs by (simp add: fs_inv_def)
  have ib: "unat (IBLOCK (i_inum ?ip) (sb s)) < nmeta (sb s)" using unat_IBLOCK(2)[OF lay inum] by (simp add: nmeta_def)
  have nI: "blk s3 n = blk s1 n" if "nmeta (sb s) \<le> unat n" for n
  proof -
    have "n \<noteq> IBLOCK (i_inum ?ip) (sb s)" using that ib by auto
    then show ?thesis using u(7)[of n] it2(1) ip1(2) f by simp
  qed
  have sb1: "sb s1 = sb s" "sb s3 = sb s" using f f3(1) by simp_all
  have K: "keeps {} s1 s3" using u(5) sb1 nI by (simp add: keeps_def data_blk_def)
  have ok3: "inode_ok s1 (ip1\<lparr>i_size := z\<rparr>)" using c(2) by (simp add: file_ok_def)
  note m3 = keeps_map[OF K ok3, simplified]
  have fb: "fbyte s3 (ip1\<lparr>i_size := z\<rparr>) k = fbyte s1 (ip1\<lparr>i_size := z\<rparr>) k" if "k < unat z" for k
  proof -
    have "k div BSIZE < MAXFILE" "mapped s1 (ip1\<lparr>i_size := z\<rparr>) k" using that c(2) by (auto simp: file_ok_def div_less_iff_less_mult BSIZE_def)
    then have "data_blk s1 (file_map s1 (ip1\<lparr>i_size := z\<rparr>) (k div BSIZE))" using ok3 by (auto simp: inode_ok_def mapped_def)
    then show ?thesis using K m3(1) by (simp add: fbyte_def keeps_def)
  qed
  have c3: "contents s3 (ip1\<lparr>i_size := z\<rparr>) = contents s1 (ip1\<lparr>i_size := z\<rparr>)" "file_ok s3 (ip1\<lparr>i_size := z\<rparr>)"
    using fb c(2) m3 by (simp_all add: contents_def file_ok_def mapped_def)
  have e: "writei i (FromLocal ds) off n s = Inr (int w, s3)"
  proof -
    have "\<not> (off > i_size ?ip \<or> off + n < off)" "\<not> off + n > of_nat (MAXFILE * BSIZE)"
      using off mx add_overflow_u32[of off n] unat_off_step(1)[OF off(2) order_refl]
      by (auto simp: word_less_nat_alt unat_of_nat MAXFILE_def NDIRECT_def NINDIRECT_def BSIZE_def)
    then show ?thesis using l(1) s2 u(1) by (simp add: writei_def Let_def)
  qed
  have it3: "itable s3 ! i = ip1\<lparr>i_size := z\<rparr>" "length (itable s3) = length (itable s)" "\<And>j. j \<noteq> i \<Longrightarrow> itable s3 ! j = itable s ! j"
    using it2 f3(2) by simp_all
  have fr: "blk s3 n = blk s n" if "data_blk s n" "n \<notin> fblocks s ?ip" for n using f nI[of n] that by (auto simp: data_blk_def)
  have di: "disk_inode s3 (i_inum ?ip) = to_dinode (ip1\<lparr>i_size := z\<rparr>)" using u(6) it2(1) ip1(2) by simp
  have d3: "disk s3 = disk s" using f3(5) f by simp
  have g3: "w < unat n \<longrightarrow> (\<forall>b. \<not> free_blk s3 b)" using l(3) u(5) by simp
  have lb: "length (logged (IBLOCK (i_inum (itable ?s2 ! i)) (sb ?s2)) bs1) \<le> length bs + 6 * nblk (unat off) (unat n) + 1"
    using l(6) by (simp add: length_logged)
  show ?thesis
    by (rule that[OF e l(2) g3 u(2,3)]) (use it3 c c3 di d3 fr lb ip1(1) i(2) in auto)
qed

section \<open>The file of the small file system\<close>

lemma small_file: "file_ok small_open small_ip" "contents small_open small_ip = hello"
proof -
  have fm: "file_map small_open small_ip m = (if m = 0 then 48 else 0)" if "m < MAXFILE" for m
    by (cases m) (auto simp: file_map_def small_ip_def indirect_def NDIRECT_def)
  have n: "nmeta (sb fs_boot) = 47" by (simp add: nmeta_def nbitmap_def sb_fs_boot BPB_def BSIZE_def)
  have d: "data_blk small_open 48" using n by (simp add: data_blk_def small_open_facts small_free) (simp add: sb_fs_boot)
  have "inode_ok small_open small_ip" using fm d by (auto simp: inode_ok_def small_ip_def indirect_def NDIRECT_def split: if_splits)
  then show "file_ok small_open small_ip" using fm
    by (auto simp: file_ok_def mapped_def small_ip_def MAXFILE_def NDIRECT_def NINDIRECT_def BSIZE_def)
  have "fbyte small_open small_ip k = hello ! k" if "k < 5" for k
  proof -
    have "length hello = 5" by (simp add: hello_def)
    then have "small_disk 48 ! k = hello ! k" using that by (simp add: small_disk_def nth_append)
    then show ?thesis using that fm[of 0] by (simp add: fbyte_def small_open_facts MAXFILE_def NDIRECT_def BSIZE_def)
  qed
  then show "contents small_open small_ip = hello" by (intro nth_equalityI) (simp_all add: contents_def small_ip_def hello_def)
qed

section \<open>Properties\<close>





end
