(* ===== verification/Xv6_Path.thy ===== *)
theory Xv6_Path
  imports Xv6_Dir Xv6_Fileio
begin

text \<open>
  Directories and path names against their readings: a directory as the list of its entries, and a
  path as the list of its components (\<^verbatim>\<open>dirlookup\<close>, \<^verbatim>\<open>skipelem\<close> of \<^verbatim>\<open>kernel/fs.c\<close>).
\<close>

section \<open>Components of a path\<close>

text \<open>The pieces between the slashes, and those that are not empty.\<close>

fun pieces :: "u8 list \<Rightarrow> u8 list list" where
  "pieces [] = [[]]"
| "pieces (c # cs) = (if c = slash then [] # pieces cs else (c # hd (pieces cs)) # tl (pieces cs))"

definition components :: "u8 list \<Rightarrow> u8 list list" where
  "components path = filter (\<lambda>e. e \<noteq> []) (pieces path)"

lemma pieces_nonempty: "pieces p \<noteq> []"
  by (cases p) auto

lemma components_slash [simp]: "components (slash # p) = components p" "components [] = []"
  by (simp_all add: components_def)

lemma components_skip: "components (dropWhile (\<lambda>c. c = slash) p) = components p"
  by (induction p) auto

lemma pieces_word:
  "pieces p = takeWhile (\<lambda>c. c \<noteq> slash) p # (case dropWhile (\<lambda>c. c \<noteq> slash) p of [] \<Rightarrow> [] | _ # q \<Rightarrow> pieces q)"
proof (induction p)
  case (Cons c p)
  then show ?case by (cases "c = slash") auto
qed simp

lemma components_word:
  assumes "p \<noteq> []" "hd p \<noteq> slash"
  shows "components p = takeWhile (\<lambda>c. c \<noteq> slash) p # components (dropWhile (\<lambda>c. c \<noteq> slash) p)"
proof -
  have t: "takeWhile (\<lambda>c. c \<noteq> slash) p \<noteq> []" using assms by (cases p) auto
  show ?thesis
  proof (cases "dropWhile (\<lambda>c. c \<noteq> slash) p")
    case Nil
    have "pieces p = [takeWhile (\<lambda>c. c \<noteq> slash) p]" using pieces_word[of p] unfolding Nil by simp
    then show ?thesis unfolding Nil using t by (simp add: components_def)
  next
    case (Cons c q)
    then have c: "c = slash" using hd_dropWhile[of "\<lambda>c. c \<noteq> slash" p] by simp
    have "pieces p = takeWhile (\<lambda>c. c \<noteq> slash) p # pieces q" using pieces_word[of p] unfolding Cons by simp
    then show ?thesis unfolding Cons using t c by (simp add: components_def)
  qed
qed

lemma no_components: "components p = [] \<longleftrightarrow> dropWhile (\<lambda>c. c = slash) p = []"
proof -
  let ?q = "dropWhile (\<lambda>c. c = slash) p"
  have "components ?q \<noteq> []" if "?q \<noteq> []" using components_word[OF that] hd_dropWhile[OF that] by simp
  then show ?thesis using components_skip[of p] by fastforce
qed

lemma cstr_prefix: "0 \<notin> set e \<Longrightarrow> length e \<le> n \<Longrightarrow> cstr (cptr_of (e @ 0 # r)) n = e"
proof (induction e arbitrary: n)
  case Nil
  then show ?case by (cases n) (auto simp: cptr_of_def)
next
  case (Cons c e)
  then show ?case by (cases n) (auto simp: cptr_of_Cons)
qed

lemma cstr_full: "0 \<notin> set e \<Longrightarrow> length e = n \<Longrightarrow> cstr (cptr_of (e @ r)) n = e"
proof (induction e arbitrary: n)
  case (Cons c e)
  then show ?case by (cases n) (auto simp: cptr_of_Cons)
qed simp

lemma name_stored:
  assumes "0 \<notin> set e"
  shows "cstr (cptr_of (if length e \<ge> n then take n e @ drop n nm else e @ [0] @ drop (length e + 1) nm)) n = take n e"
proof (cases "length e \<ge> n")
  case True
  have "0 \<notin> set (take n e)" using assms by (auto dest: in_set_takeD)
  then show ?thesis using True cstr_full[of "take n e" n] by simp
next
  case False
  then show ?thesis using assms cstr_prefix[of e n] by simp
qed

lemma skipelem_components:
  assumes "0 \<notin> set path"
  shows "case components path of
      [] \<Rightarrow> skipelem path nm = None
    | e # es \<Rightarrow> \<exists>p nm'. skipelem path nm = Some (p, nm') \<and> components p = es \<and> (p = [] \<longleftrightarrow> es = []) \<and> cstr (cptr_of nm') DIRSIZ = take DIRSIZ e \<and>
        set p \<subseteq> set path"
proof (cases "dropWhile (\<lambda>c. c = slash) path = []")
  case True
  then have "components path = []" using no_components by blast
  then show ?thesis using True by (simp add: skipelem_def)
next
  case False
  let ?q = "dropWhile (\<lambda>c. c = slash) path"
  let ?e = "takeWhile (\<lambda>c. c \<noteq> slash) ?q" and ?r = "dropWhile (\<lambda>c. c \<noteq> slash) ?q"
  have c: "components path = ?e # components ?r"
    using components_word[OF False] hd_dropWhile[OF False] components_skip[of path] by simp
  have z: "0 \<notin> set ?e" using assms by (auto dest!: set_takeWhileD set_dropWhileD)
  have n: "cstr (cptr_of (if length ?e \<ge> DIRSIZ then take DIRSIZ ?e @ drop DIRSIZ nm else ?e @ [0] @ drop (length ?e + 1) nm)) DIRSIZ = take DIRSIZ ?e"
    by (rule name_stored[OF z])
  have "set (dropWhile (\<lambda>c. c = slash) ?r) \<subseteq> set path" by (auto dest!: set_dropWhileD)
  then show ?thesis using False c n no_components[of ?r] components_skip[of ?r] by (auto simp: skipelem_def Let_def)
qed

text \<open>The names that a loop over \<^verbatim>\<open>skipelem\<close> sees, as \<^verbatim>\<open>namex\<close> has it.\<close>

function skip_names :: "u8 list \<Rightarrow> u8 list \<Rightarrow> u8 list list" where
  "skip_names path nm = (case skipelem path nm of None \<Rightarrow> [] | Some (p, nm') \<Rightarrow> cstr (cptr_of nm') DIRSIZ # skip_names p nm')"
  by pat_completeness auto
termination
  by (relation "measure (\<lambda>(path, nm). length path)") (auto dest: skipelem_shorter)

declare skip_names.simps [simp del]

lemma skip_names_components: "0 \<notin> set path \<Longrightarrow> skip_names path nm = map (take DIRSIZ) (components path)"
proof (induction path nm rule: skip_names.induct)
  case (1 path nm)
  show ?case
  proof (cases "components path")
    case Nil
    then show ?thesis using skipelem_components[OF 1(2), of nm] by (simp add: skip_names.simps[of path])
  next
    case (Cons e es)
    with skipelem_components[OF 1(2), of nm] obtain p n' where s: "skipelem path nm = Some (p, n')" "components p = es"
      "cstr (cptr_of n') DIRSIZ = take DIRSIZ e" "set p \<subseteq> set path" by auto
    have "0 \<notin> set p" using s(4) 1(2) by blast
    from 1(1)[OF s(1) refl this] s Cons show ?thesis by (simp add: skip_names.simps[of path])
  qed
qed

section \<open>Entries of a directory\<close>

definition dir_entries :: "'a fsst_scheme \<Rightarrow> inode \<Rightarrow> u8 list list" where
  "dir_entries s ip = map (\<lambda>k. take 16 (drop (16 * k) (contents s ip))) [0..<unat (i_size ip) div 16]"

definition names_entry :: "u8 list \<Rightarrow> u8 list \<Rightarrow> bool" where
  "names_entry nm de \<longleftrightarrow> de_inum de \<noteq> 0 \<and> cstr (cptr_of (de_name de)) DIRSIZ = cstr (cptr_of nm) DIRSIZ"

lemma first_idx_drop:
  "k < length xs \<Longrightarrow> first_idx P (drop k xs) = (if P (xs ! k) then Some 0 else map_option Suc (first_idx P (drop (Suc k) xs)))"
  by (simp add: Cons_nth_drop_Suc[symmetric])

lemma dirlookup_loop_spec:
  assumes "tx_inv s bs {} pid" "fs_inv s" "dp < length (itable s)" "i_dev (itable s ! dp) = ROOTDEV" "file_ok s (itable s ! dp)"
    "length bs + 5 < NBUF" "unat (i_size (itable s ! dp)) = 16 * N" "k \<le> N"
  shows "\<exists>s'. blk s' = blk s \<and> itable s' = itable s \<and> sb s' = sb s \<and> disk s' = disk s \<and> tx_inv s' bs {} pid \<and> fs_inv s' \<and>
    dirlookup_loop (map (\<lambda>k. 16 * k) [k..<N]) dp nm s =
      (case first_idx (names_entry nm) (drop k (dir_entries s (itable s ! dp))) of
         None \<Rightarrow> Inr (None, s')
       | Some j \<Rightarrow> andthen (iget ROOTDEV (ucast (de_inum (dir_entries s (itable s ! dp) ! (k + j)))) s') (\<lambda>(i, s2). Inr (Some (i, of_nat (16 * (k + j))), s2)))"
  using assms
proof (induction "N - k" arbitrary: k s)
  case 0
  then show ?case by (intro exI[of _ s]) (simp add: dir_entries_def)
next
  case (Suc d)
  let ?ip = "itable s ! dp" and ?E = "dir_entries s (itable s ! dp)"
  have k: "k < N" "k < length ?E" using Suc.hyps(2) Suc.prems(7) by (simp_all add: dir_entries_def)
  have sz: "16 * N \<le> MAXFILE * BSIZE" using Suc.prems(5,7) by (simp add: file_ok_def)
  have u: "unat (of_nat (16 * k) :: u32) = 16 * k" using k(1) sz
    by (intro unat_of_nat_u32) (simp add: MAXFILE_def NDIRECT_def NINDIRECT_def BSIZE_def)
  have de: "take 16 (drop (16 * k) (contents s ?ip)) = ?E ! k" "length (?E ! k) = 16"
    using k Suc.prems(7) by (simp_all add: dir_entries_def contents_def)
  obtain r s1 where r0: "readi dp ToLocal (of_nat (16 * k)) 16 s = Inr (int (length r), r, s1)"
    "r = (if unat (i_size ?ip) < unat (of_nat (16 * k) :: u32) \<or> 2 ^ 32 \<le> unat (of_nat (16 * k) :: u32) + unat (16 :: u32) then []
      else take (unat (16 :: u32)) (drop (unat (of_nat (16 * k) :: u32)) (contents s ?ip)))"
    "tx_inv s1 bs {} pid" "fs_inv s1" "blk s1 = blk s" "sb s1 = sb s" "itable s1 = itable s" "disk s1 = disk s"
    by (rule readi_spec[OF Suc.prems(1-6)])
  have "r = ?E ! k" using r0(2) u de k(1) sz Suc.prems(7)
    by (simp add: MAXFILE_def NDIRECT_def NINDIRECT_def BSIZE_def del: of_nat_mult)
  then have r: "readi dp ToLocal (of_nat (16 * k)) 16 s = Inr (16, ?E ! k, s1)" using r0(1) de(2) by simp
  have up: "[k..<N] = k # [Suc k..<N]" using k(1) by (simp add: upt_conv_Cons)
  have nc: "namecmp nm (de_name (?E ! k)) = 0 \<longleftrightarrow> cstr (cptr_of (de_name (?E ! k))) DIRSIZ = cstr (cptr_of nm) DIRSIZ"
    by (auto simp: namecmp_def strncmp_0_iff)
  show ?case
  proof (cases "names_entry nm (?E ! k)")
    case True
    then have "dirlookup_loop (map (\<lambda>k. 16 * k) [k..<N]) dp nm s =
        andthen (iget ROOTDEV (ucast (de_inum (?E ! k))) s1) (\<lambda>(i, s2). Inr (Some (i, of_nat (16 * k)), s2))"
      using r nc r0(7) Suc.prems(4) unfolding up by (simp add: names_entry_def del: of_nat_mult)
    then show ?thesis using r0 first_idx_drop[OF k(2), of "names_entry nm"] True
      by (intro exI[of _ s1]) (simp del: of_nat_mult)
  next
    case False
    then have e: "dirlookup_loop (map (\<lambda>k. 16 * k) [k..<N]) dp nm s = dirlookup_loop (map (\<lambda>k. 16 * k) [Suc k..<N]) dp nm s1"
      using r nc unfolding up by (auto simp: names_entry_def simp del: of_nat_mult)
    have E1: "dir_entries s1 (itable s1 ! dp) = ?E" using r0(5,7) fbyte_cong(3)[OF r0(5)] by (simp add: dir_entries_def)
    have ok1: "file_ok s1 ?ip" using keeps_map[OF keeps_same[OF r0(5,6), of "{}"]] Suc.prems(5) fbyte_cong(2)[OF r0(5)] by (simp add: file_ok_def)
    have h: "d = N - Suc k" "dp < length (itable s1)" "i_dev (itable s1 ! dp) = ROOTDEV" "file_ok s1 (itable s1 ! dp)"
      "unat (i_size (itable s1 ! dp)) = 16 * N" "Suc k \<le> N" using Suc.hyps(2) Suc.prems(3,4,7) r0(7) ok1 k(1) by simp_all
    from Suc.hyps(1)[OF h(1) r0(3,4) h(2-4) Suc.prems(6) h(5,6), unfolded E1] obtain s' where
      "blk s' = blk s1" "itable s' = itable s1" "sb s' = sb s1" "disk s' = disk s1" "tx_inv s' bs {} pid" "fs_inv s'"
      "dirlookup_loop (map (\<lambda>k. 16 * k) [Suc k..<N]) dp nm s1 =
      (case first_idx (names_entry nm) (drop (Suc k) ?E) of None \<Rightarrow> Inr (None, s')
       | Some j \<Rightarrow> andthen (iget ROOTDEV (ucast (de_inum (?E ! (Suc k + j)))) s') (\<lambda>(i, s2). Inr (Some (i, of_nat (16 * (Suc k + j))), s2)))"
      by blast
    note x = this
    have sk: "k + Suc j = Suc k + j" for j by simp
    have "first_idx (names_entry nm) (drop k ?E) = map_option Suc (first_idx (names_entry nm) (drop (Suc k) ?E))"
      using first_idx_drop[OF k(2), of "names_entry nm"] False by simp
    then show ?thesis using x(1-6) r0(5-8)
      by (intro exI[of _ s']; cases "first_idx (names_entry nm) (drop (Suc k) ?E)") (simp_all only: e x(7) option.map option.case sk simp_thms)
  qed
qed

section \<open>Properties\<close>

text \<open>
  C31. Resolving a path sees its components: the loop over \<^verbatim>\<open>skipelem\<close> ends, whatever the path, and the
  names it sees are the pieces between the slashes that are not empty, each cut to \<^verbatim>\<open>DIRSIZ\<close> characters;
  the first of them is followed by an empty rest exactly when it is the last, which is how
  \<^verbatim>\<open>nameiparent\<close> notices the final element.
\<close>

theorem skipelem_path_components:
  assumes "0 \<notin> set path"
  shows "skip_names path nm = map (take DIRSIZ) (components path) \<and>
    (\<forall>p nm'. skipelem path nm = Some (p, nm') \<longrightarrow> (p = [] \<longleftrightarrow> length (components path) = 1))"
proof
  show "skip_names path nm = map (take DIRSIZ) (components path)" by (rule skip_names_components[OF assms])
  show "\<forall>p nm'. skipelem path nm = Some (p, nm') \<longrightarrow> (p = [] \<longleftrightarrow> length (components path) = 1)"
    using skipelem_components[OF assms, of nm] by (cases "components path") auto
qed

theorem skipelem_path_components_witness:
  "skip_names (str ''///a//bb/'') (replicate DIRSIZ 0) = [str ''a'', str ''bb''] \<and>
   skipelem (str ''///a//bb/'') (replicate DIRSIZ 0) \<noteq> None"
proof -
  have z: "0 \<notin> set (str ''///a//bb/'')" by (simp add: str_def)
  have c: "components (str ''///a//bb/'') = [str ''a'', str ''bb'']" by (simp add: components_def str_def)
  have "skip_names (str ''///a//bb/'') (replicate DIRSIZ 0) = [str ''a'', str ''bb'']"
    using skipelem_path_components[OF z, of "replicate DIRSIZ 0"] c by (simp add: str_def DIRSIZ_def)
  then show ?thesis by (auto simp: skip_names.simps[of "str ''///a//bb/''"] split: option.splits)
qed

text \<open>
  C32. \<^verbatim>\<open>dirlookup\<close> finds the first entry with the name: it takes, of the entries that are in use, the
  first whose name agrees with the wanted one up to a terminator or \<^verbatim>\<open>DIRSIZ\<close> characters, and returns
  a reference to its inode and its offset; when there is none it returns null. No block changes.
\<close>

theorem dirlookup_first_match:
  assumes "tx_inv s bs {} pid" and "fs_inv s" and "dp < length (itable s)" "i_dev (itable s ! dp) = ROOTDEV" and "file_ok s (itable s ! dp)"
    and "i_type (itable s ! dp) = T_DIR" and "16 dvd unat (i_size (itable s ! dp))" and "length bs + 5 < NBUF"
  shows "\<exists>s'. blk s' = blk s \<and> itable s' = itable s \<and>
    dirlookup dp nm s =
      (case first_idx (names_entry nm) (dir_entries s (itable s ! dp)) of
         None \<Rightarrow> Inr (None, s')
       | Some k \<Rightarrow> andthen (iget ROOTDEV (ucast (de_inum (dir_entries s (itable s ! dp) ! k))) s') (\<lambda>(i, s2). Inr (Some (i, of_nat (16 * k)), s2)))"
proof -
  obtain N where N: "unat (i_size (itable s ! dp)) = 16 * N" using assms(7) by auto
  have "(16 * N + 15) div 16 = N" by simp
  then have e: "dirlookup dp nm s = dirlookup_loop (map (\<lambda>k. 16 * k) [0..<N]) dp nm s" using assms(6) N by (simp add: dirlookup_def de_offsets_def)
  show ?thesis using dirlookup_loop_spec[OF assms(1-5,8) N le0, of nm, unfolded add_0 drop_0] unfolding e by blast
qed

text \<open>The root directory of the small file system, open in entry 0.\<close>

definition root_ip :: inode where
  "root_ip = \<lparr>i_dev = ROOTDEV, i_inum = 1, i_ref = 1, i_lock = \<lparr>slk_locked = True, slk_pid = 3\<rparr>, i_valid = True, i_type = T_DIR,
     i_major = 0, i_minor = 0, i_nlink = 1, i_size = 48, i_addrs = 47 # replicate 12 0\<rparr>"

definition root_open :: fsst where
  "root_open = upd_inode 0 (\<lambda>_. root_ip) small_fs"

lemma root_open_facts: "tx_inv root_open [] {} 3" "fs_inv root_open" "0 < length (itable root_open)" "itable root_open ! 0 = root_ip" "file_ok root_open root_ip"
  "dir_entries root_open root_ip ! 2 = [2, 0, 104, 105] @ replicate 12 0" "length (dir_entries root_open root_ip) = 3"
  "\<not> names_entry (str ''hi'') (dir_entries root_open root_ip ! 0)" "\<not> names_entry (str ''hi'') (dir_entries root_open root_ip ! 1)"
proof -
  have l: "length (itable fs_boot) = 50" by (simp add: fs_boot_def const.defs)
  then have ne: "itable fs_boot \<noteq> []" by auto
  show "tx_inv root_open [] {} 3" "fs_inv root_open" "0 < length (itable root_open)" "itable root_open ! 0 = root_ip"
    using l ne by (simp_all add: root_open_def small_fs_tx small_fs_inv)
  have fm: "file_map root_open root_ip m = (if m = 0 then 47 else 0)" if "m < MAXFILE" for m
    by (cases m) (auto simp: file_map_def root_ip_def indirect_def NDIRECT_def)
  have n: "nmeta (sb fs_boot) = 47" by (simp add: nmeta_def nbitmap_def sb_fs_boot BPB_def BSIZE_def)
  have d: "data_blk root_open 47" using n by (simp add: data_blk_def root_open_def small_free small_fs_tx) (simp add: sb_fs_boot)
  have "inode_ok root_open root_ip" using fm d by (auto simp: inode_ok_def root_ip_def indirect_def NDIRECT_def split: if_splits)
  then show "file_ok root_open root_ip" using fm
    by (auto simp: file_ok_def mapped_def root_ip_def MAXFILE_def NDIRECT_def NINDIRECT_def BSIZE_def)
  have "contents root_open root_ip = take 48 (small_disk 47)"
  proof (intro nth_equalityI)
    show "length (contents root_open root_ip) = length (take 48 (small_disk 47))"
      by (simp add: contents_def root_ip_def length_small_disk BSIZE_def)
    fix k assume "k < length (contents root_open root_ip)"
    then have "k < 48" by (simp add: contents_def root_ip_def)
    moreover from this have "fbyte root_open root_ip k = small_disk 47 ! k"
      using fm[of 0] unfolding fbyte_def by (simp add: BSIZE_def MAXFILE_def NDIRECT_def) (simp add: root_open_def small_fs_tx)
    ultimately show "contents root_open root_ip ! k = take 48 (small_disk 47) ! k"
      by (simp add: contents_def) (simp add: root_ip_def)
  qed
  moreover define A B C :: "u8 list" where ABC: "A = [1, 0, 46] @ replicate 13 0" "B = [1, 0, 46, 46] @ replicate 12 0" "C = [2, 0, 104, 105] @ replicate 12 0"
  have l16: "length A = 16" "length B = 16" "length C = 16" by (simp_all add: ABC)
  have "small_disk 47 = A @ B @ C @ replicate 976 0" by (simp add: small_disk_def ABC)
  ultimately have c: "contents root_open root_ip = A @ B @ C" using l16 by simp
  have "unat (i_size root_ip) div 16 = 3" "[0..<3] = [0, 1, 2 :: nat]" by (simp_all add: root_ip_def upt_rec)
  then have "dir_entries root_open root_ip = [A, B, C]" using l16 unfolding dir_entries_def c by simp
  then have "dir_entries root_open root_ip = [[1, 0, 46] @ replicate 13 0, [1, 0, 46, 46] @ replicate 12 0, [2, 0, 104, 105] @ replicate 12 0]"
    by (simp only: ABC)
  moreover have "\<not> names_entry (str ''hi'') ([1, 0, 46] @ replicate 13 0)" "\<not> names_entry (str ''hi'') ([1, 0, 46, 46] @ replicate 12 0)" by code_simp+
  ultimately show "dir_entries root_open root_ip ! 2 = [2, 0, 104, 105] @ replicate 12 0" "length (dir_entries root_open root_ip) = 3"
    "\<not> names_entry (str ''hi'') (dir_entries root_open root_ip ! 0)" "\<not> names_entry (str ''hi'') (dir_entries root_open root_ip ! 1)"
    by simp_all
qed

theorem dirlookup_first_match_witness:
  "\<exists>i s'. dirlookup 0 (str ''hi'') root_open = Inr (Some (i, 32), s')"
proof -
  have "names_entry (str ''hi'') (dir_entries root_open root_ip ! 2)"
    unfolding root_open_facts by code_simp
  then have f: "first_idx (names_entry (str ''hi'')) (dir_entries root_open root_ip) = Some 2"
    by (intro first_idx_SomeI) (use root_open_facts in \<open>auto simp: less_2_cases_iff\<close>)
  have "i_dev root_ip = ROOTDEV" "i_type root_ip = T_DIR" "16 dvd unat (i_size root_ip)" by (simp_all add: root_ip_def)
  with dirlookup_first_match[OF root_open_facts(1-3), of "str ''hi''"] root_open_facts f obtain s' where
    "itable s' = itable root_open" "dirlookup 0 (str ''hi'') root_open =
       andthen (iget ROOTDEV (ucast (de_inum (dir_entries root_open root_ip ! 2))) s') (\<lambda>(i, s2). Inr (Some (i, of_nat (16 * 2)), s2))"
    by (auto simp: NBUF_def MAXOPBLOCKS_def)
  moreover have "i_ref (itable root_open ! 1) = 0" "1 < length (itable root_open)"
    by (simp_all add: root_open_def small_fs_tx fs_boot_def const.defs)
  then have "first_idx (\<lambda>ip. i_ref ip = 0) (itable root_open) \<noteq> None"
    using first_idx_exists[of 1 "itable root_open" "\<lambda>ip. i_ref ip = 0"] by auto
  then have "iget ROOTDEV n s' \<noteq> Inl e" for n e using calculation(1) by (auto simp: iget_def split: option.splits)
  ultimately show ?thesis by (cases "iget ROOTDEV (ucast (de_inum (dir_entries root_open root_ip ! 2))) s'") auto
qed

end
