(* ===== verification/Spec2Isabelle.thy ===== *)
theory Spec2Isabelle
  imports Xv6_Trap Xv6_Crash Xv6_Path Xv6_Ucopy
begin

text \<open>xv6 with a multi-level feedback queue scheduler, a frame table and swap.\<close>

end
